(* ===== verification/Py_Prelude.thy ===== *)
theory Py_Prelude
  imports Complex_Main "HOL-Library.AList" "HOL-Library.Multiset"
begin

text \<open>
  Shared vocabulary of the development: Python exceptions as the left summand of a
  result, insertion-ordered dictionaries as association lists (over
  \<open>HOL-Library.AList\<close>), truncation to an integer, and the generic lemmas and
  named collections the component theories use.

  Python floats (fractions of a capacity, scores, thresholds) are modelled by exact
  rationals: rounding of IEEE arithmetic is not modelled. Python integers are \<open>int\<close>.
\<close>

named_theorems py_simps \<open>unfolding rules for results and dictionaries\<close>
named_theorems wf_intros \<open>well-formedness is kept by an operation\<close>

section \<open>Exceptions as values\<close>

datatype py_error =
    ValueError | RuntimeError | AssertionError | IndexError | KeyError
  | AttributeError | TypeError | NotImplementedError | ZeroDivisionError
  | OverflowError | StopIteration | FileNotFoundError | RequestException | HTTPException int

type_synonym 'a res = "py_error + 'a"

definition rbind :: "'a res \<Rightarrow> ('a \<Rightarrow> 'b res) \<Rightarrow> 'b res" where
  "rbind r f = (case r of Inl e \<Rightarrow> Inl e | Inr a \<Rightarrow> f a)"

lemma rbind_simps [simp]:
  "rbind (Inl e) f = Inl e"
  "rbind (Inr a) f = f a"
  by (simp_all add: rbind_def)

lemma rbind_Inr_iff [py_simps]:
  "rbind r f = Inr b \<longleftrightarrow> (\<exists>a. r = Inr a \<and> f a = Inr b)"
  by (cases r) simp_all

lemma rbind_Inl_iff [py_simps]:
  "rbind r f = Inl e \<longleftrightarrow> r = Inl e \<or> (\<exists>a. r = Inr a \<and> f a = Inl e)"
  by (cases r) auto

text \<open>A list comprehension whose element expression may raise.\<close>

primrec map_res :: "('a \<Rightarrow> 'b res) \<Rightarrow> 'a list \<Rightarrow> 'b list res" where
  "map_res f [] = Inr []"
| "map_res f (x # xs) = rbind (f x) (\<lambda>y. rbind (map_res f xs) (\<lambda>ys. Inr (y # ys)))"

lemma map_res_Inr: "map_res f xs = Inr ys \<Longrightarrow> map (\<lambda>x. Inr x) ys = map f xs"
  by (induction xs arbitrary: ys) (auto simp: py_simps)

section \<open>Dictionaries\<close>

text \<open>
  A dictionary keeps its insertion order: \<open>d[k] = v\<close> is \<open>AList.update k v d\<close>,
  which replaces in place or appends; \<open>d.get(k, v)\<close> is \<open>dget d k v\<close>;
  \<open>d[k] += x\<close>, which raises \<open>KeyError\<close> on a missing key, is \<open>dadd d k x\<close>;
  \<open>d.pop(k, None)\<close> removes with \<open>AList.delete\<close>.
\<close>

type_synonym ('k, 'v) dict = "('k \<times> 'v) list"

definition dget :: "('k, 'v) dict \<Rightarrow> 'k \<Rightarrow> 'v \<Rightarrow> 'v" where
  "dget d k v = (case map_of d k of None \<Rightarrow> v | Some x \<Rightarrow> x)"

definition dadd :: "('k, 'v::plus) dict \<Rightarrow> 'k \<Rightarrow> 'v \<Rightarrow> ('k, 'v) dict res" where
  "dadd d k x = (case map_of d k of None \<Rightarrow> Inl KeyError | Some v \<Rightarrow> Inr (AList.update k (v + x) d))"

abbreviation dkeys :: "('k, 'v) dict \<Rightarrow> 'k list" where
  "dkeys d \<equiv> map fst d"

definition dwf :: "('k, 'v) dict \<Rightarrow> bool" where
  "dwf d \<longleftrightarrow> distinct (dkeys d)"

definition dsum :: "('k, 'v::comm_monoid_add) dict \<Rightarrow> 'v" where
  "dsum d = sum_list (map snd d)"

lemma dwf_Nil [simp]: "dwf []"
  by (simp add: dwf_def)

lemma dwf_update [simp, wf_intros]: "dwf d \<Longrightarrow> dwf (AList.update k v d)"
  by (simp add: dwf_def distinct_update)

lemma dwf_delete [simp, wf_intros]: "dwf d \<Longrightarrow> dwf (AList.delete k d)"
  by (simp add: dwf_def distinct_delete)

lemma map_of_update [simp]:
  "map_of (AList.update k v d) k' = (if k' = k then Some v else map_of d k')"
  by (simp add: update_conv')

lemma dget_update [simp]:
  "dget (AList.update k v d) k' w = (if k' = k then v else dget d k' w)"
  by (simp add: dget_def)

lemma map_of_dkeys: "map_of d k = None \<longleftrightarrow> k \<notin> set (dkeys d)"
  by (simp add: map_of_eq_None_iff)

lemma dkeys_map_of: "k \<in> set (dkeys d) \<longleftrightarrow> (\<exists>v. map_of d k = Some v)"
  by (metis map_of_dkeys not_Some_eq)

lemma dget_Some [simp]: "map_of d k = Some v \<Longrightarrow> dget d k w = v"
  by (simp add: dget_def)

lemma dget_None [simp]: "map_of d k = None \<Longrightarrow> dget d k w = w"
  by (simp add: dget_def)

lemma dkeys_update_present:
  "k \<in> set (dkeys d) \<Longrightarrow> dkeys (AList.update k v d) = dkeys d"
  by (simp add: update_keys)

lemma dkeys_update_absent:
  "k \<notin> set (dkeys d) \<Longrightarrow> dkeys (AList.update k v d) = dkeys d @ [k]"
  by (simp add: update_keys)

lemma dadd_Inr_iff [py_simps]:
  "dadd d k x = Inr d' \<longleftrightarrow> (\<exists>v. map_of d k = Some v \<and> d' = AList.update k (v + x) d)"
  by (auto simp: dadd_def split: option.splits)

lemma dadd_Inl_iff [py_simps]:
  "dadd d k x = Inl e \<longleftrightarrow> map_of d k = None \<and> e = KeyError"
  by (auto simp: dadd_def split: option.splits)

lemma dadd_present:
  "map_of d k = Some v \<Longrightarrow> dadd d k x = Inr (AList.update k (v + x) d)"
  by (simp add: dadd_def)

lemma dsum_Nil [simp]: "dsum [] = 0"
  by (simp add: dsum_def)

lemma dsum_Cons [simp]: "dsum ((k, v) # d) = v + dsum d"
  by (simp add: dsum_def)

lemma dsum_update_present:
  fixes d :: "('k, 'v::ab_group_add) dict"
  shows "map_of d k = Some v \<Longrightarrow> dsum (AList.update k w d) = dsum d - v + w"
  by (induction d) (auto simp: algebra_simps split: if_splits)

lemma dsum_update_absent:
  fixes d :: "('k, 'v::ab_group_add) dict"
  shows "map_of d k = None \<Longrightarrow> dsum (AList.update k w d) = dsum d + w"
  by (induction d) (auto simp: algebra_simps split: if_splits)

section \<open>Numbers\<close>

text \<open>Python's \<open>int(x)\<close> truncates towards zero.\<close>

definition py_int :: "rat \<Rightarrow> int" where
  "py_int x = (if x < 0 then \<lceil>x\<rceil> else \<lfloor>x\<rfloor>)"

lemma py_int_of_int [simp]: "py_int (of_int n) = n"
  by (simp add: py_int_def)

lemma py_int_nonneg: "0 \<le> x \<Longrightarrow> 0 \<le> py_int x"
  by (simp add: py_int_def)

lemma py_int_le: "0 \<le> x \<Longrightarrow> of_int (py_int x) \<le> x"
  by (simp add: py_int_def)

text \<open>\<open>vllm.utils.math_utils.cdiv\<close>: ceiling division, written as in the source.\<close>

definition cdiv :: "int \<Rightarrow> int \<Rightarrow> int" where
  "cdiv a b = - (a div - b)"

lemma cdiv_le_iff:
  assumes b: "0 < b"
  shows "cdiv a b \<le> n \<longleftrightarrow> a \<le> n * b"
proof -
  let ?q = "(- a) div b"
  have lo: "?q * b \<le> - a" and hi: "- a < (?q + 1) * b"
    using b pos_mod_bound [OF b, of "- a"] pos_mod_sign [OF b, of "- a"]
    by (simp_all add: algebra_simps minus_mod_eq_mult_div [symmetric])
  have "- n \<le> ?q \<longleftrightarrow> - n * b \<le> - a"
  proof
    assume "- n \<le> ?q"
    with b have "- n * b \<le> ?q * b" by (intro mult_right_mono) simp_all
    with lo show "- n * b \<le> - a" by linarith
  next
    assume "- n * b \<le> - a"
    with hi have "- n * b < (?q + 1) * b" by linarith
    with b have "- n < ?q + 1" by (simp only: mult_less_cancel_right_pos)
    then show "- n \<le> ?q" by linarith
  qed
  then show ?thesis by (auto simp: cdiv_def div_minus_right)
qed

section \<open>Sequences\<close>

text \<open>Indexing \<open>xs[i]\<close> and slicing \<open>xs[a:b]\<close> of a list, where a negative index counts from the end.\<close>

definition py_nth :: "'a list \<Rightarrow> int \<Rightarrow> 'a res" where
  "py_nth xs i =
     (let i = (if i < 0 then i + int (length xs) else i)
      in if 0 \<le> i \<and> i < int (length xs) then Inr (xs ! nat i) else Inl IndexError)"

definition py_bound :: "nat \<Rightarrow> int \<Rightarrow> int" where
  "py_bound n i = (if i < 0 then max 0 (i + int n) else min i (int n))"

definition py_slice :: "int \<Rightarrow> int \<Rightarrow> 'a list \<Rightarrow> 'a list" where
  "py_slice a b xs =
     (let n = length xs in take (nat (py_bound n b - py_bound n a)) (drop (nat (py_bound n a)) xs))"

lemma py_nth_nat [simp]: "py_nth xs (int i) = (if i < length xs then Inr (xs ! i) else Inl IndexError)"
  by (simp add: py_nth_def)

lemma py_slice_nat:
  "0 \<le> a \<Longrightarrow> 0 \<le> b \<Longrightarrow> py_slice a b xs = take (nat b - nat a) (drop (nat a) xs)"
  by (auto simp: py_slice_def py_bound_def Let_def min_def nat_diff_distrib')

end
