(* ===== verification/Py_Prog.thy ===== *)
theory Py_Prog
  imports Py_Prelude
begin

text \<open>
  Programs over a state: a call returns its value or its exception together with the state
  it leaves. \<open>keeps I p\<close> says that \<open>p\<close> preserves the invariant \<open>I\<close>, also when it raises; the
  rules in \<open>keeps_intros\<close> follow the shape of a program.
\<close>

section \<open>Programs\<close>

type_synonym ('s, 'a) sprog = "'s \<Rightarrow> 'a res \<times> 's"

definition pret :: "'a \<Rightarrow> ('s, 'a) sprog" where
  "pret a w = (Inr a, w)"

definition praise :: "py_error \<Rightarrow> ('s, 'a) sprog" where
  "praise e w = (Inl e, w)"

definition plift :: "'a res \<Rightarrow> ('s, 'a) sprog" where
  "plift r w = (r, w)"

definition pbind :: "('s, 'a) sprog \<Rightarrow> ('a \<Rightarrow> ('s, 'b) sprog) \<Rightarrow> ('s, 'b) sprog" where
  "pbind p f w = (case p w of (Inl e, w') \<Rightarrow> (Inl e, w') | (Inr a, w') \<Rightarrow> f a w')"

definition pmodify :: "('s \<Rightarrow> 's) \<Rightarrow> ('s, unit) sprog" where
  "pmodify f w = (Inr (), f w)"

definition pget :: "('s \<Rightarrow> 'a) \<Rightarrow> ('s, 'a) sprog" where
  "pget f w = (Inr (f w), w)"

lemma prog_simps [simp]:
  "pret a w = (Inr a, w)" "praise e w = (Inl e, w)" "plift r w = (r, w)"
  "pmodify f w = (Inr (), f w)" "pget g w = (Inr (g w), w)"
  by (simp_all add: pret_def praise_def plift_def pmodify_def pget_def)

lemma pbind_apply:
  "pbind p f w = (case fst (p w) of Inl e \<Rightarrow> (Inl e, snd (p w)) | Inr a \<Rightarrow> f a (snd (p w)))"
  by (simp add: pbind_def split: prod.splits sum.splits)

lemma pbind_simps [simp]:
  "p w = (Inl e, w') \<Longrightarrow> pbind p f w = (Inl e, w')"
  "p w = (Inr a, w') \<Longrightarrow> pbind p f w = f a w'"
  by (simp_all add: pbind_def)

lemma pbind_Inr_iff [py_simps]:
  "pbind p f w = (Inr b, w'') \<longleftrightarrow> (\<exists>a w'. p w = (Inr a, w') \<and> f a w' = (Inr b, w''))"
  by (auto simp: pbind_def split: prod.splits sum.splits)

section \<open>Invariants of programs\<close>

definition keeps :: "('s \<Rightarrow> bool) \<Rightarrow> ('s, 'a) sprog \<Rightarrow> bool" where
  "keeps I p \<longleftrightarrow> (\<forall>w. I w \<longrightarrow> I (snd (p w)))"

named_theorems keeps_intros

lemma keepsD: "keeps I p \<Longrightarrow> I w \<Longrightarrow> I (snd (p w))"
  by (simp add: keeps_def)

lemma keeps_basic [keeps_intros]:
  "keeps I (pret a)" "keeps I (praise e)" "keeps I (plift r)" "keeps I (pget g)"
  by (simp_all add: keeps_def)

lemma keeps_modify: "(\<And>w. I w \<Longrightarrow> I (f w)) \<Longrightarrow> keeps I (pmodify f)"
  by (simp add: keeps_def)

lemma keeps_bind [keeps_intros]:
  assumes "keeps I p" "\<And>a. keeps I (f a)"
  shows "keeps I (pbind p f)"
  unfolding keeps_def
proof (intro allI impI)
  fix w assume "I w"
  then have "I (snd (p w))" using assms(1) by (simp add: keeps_def)
  then show "I (snd (pbind p f w))"
    using assms(2) by (auto simp: pbind_apply keeps_def split: sum.splits)
qed

lemma keeps_if [keeps_intros]: "keeps I p \<Longrightarrow> keeps I q \<Longrightarrow> keeps I (if b then p else q)"
  by simp

lemma keeps_option [keeps_intros]:
  "keeps I p \<Longrightarrow> (\<And>a. keeps I (q a)) \<Longrightarrow> keeps I (case x of None \<Rightarrow> p | Some a \<Rightarrow> q a)"
  by (cases x) auto

lemma keeps_prod [keeps_intros]:
  "(\<And>a b. keeps I (p a b)) \<Longrightarrow> keeps I (case x of (a, b) \<Rightarrow> p a b)"
  by (cases x) auto

end
