(* ===== verification/Py_String.thy ===== *)
theory Py_String
  imports Py_Prelude "HOL-Library.Sublist"
begin

text \<open>
  The string methods the program uses, on ASCII text: \<open>strip\<close>, \<open>lower\<close>, \<open>upper\<close>,
  \<open>startswith\<close>, the substring test \<open>in\<close>, \<open>join\<close>, and \<open>str\<close> of an integer.
\<close>

section \<open>Definitions\<close>

definition is_space :: "char \<Rightarrow> bool" where
  "is_space c \<longleftrightarrow> c \<in> {CHR '' '', CHR 0x09, CHR 0x0A, CHR 0x0B, CHR 0x0C, CHR 0x0D,
     CHR 0x1C, CHR 0x1D, CHR 0x1E, CHR 0x1F}"

definition py_strip :: "string \<Rightarrow> string" where
  "py_strip s = rev (dropWhile is_space (rev (dropWhile is_space s)))"

definition lower_char :: "char \<Rightarrow> char" where
  "lower_char c = (let n = of_char c :: nat in if 65 \<le> n \<and> n \<le> 90 then char_of (n + 32) else c)"

definition upper_char :: "char \<Rightarrow> char" where
  "upper_char c = (let n = of_char c :: nat in if 97 \<le> n \<and> n \<le> 122 then char_of (n - 32) else c)"

definition py_lower :: "string \<Rightarrow> string" where
  "py_lower s = map lower_char s"

definition py_upper :: "string \<Rightarrow> string" where
  "py_upper s = map upper_char s"

definition py_startswith :: "string \<Rightarrow> string \<Rightarrow> bool" where
  "py_startswith s p \<longleftrightarrow> take (length p) s = p"

fun py_in :: "string \<Rightarrow> string \<Rightarrow> bool" where
  "py_in p [] \<longleftrightarrow> p = []"
| "py_in p (c # s) \<longleftrightarrow> take (length p) (c # s) = p \<or> py_in p s"

fun py_join :: "string \<Rightarrow> string list \<Rightarrow> string" where
  "py_join sep [] = []"
| "py_join sep [s] = s"
| "py_join sep (s # t # ss) = s @ sep @ py_join sep (t # ss)"

fun nat_digits :: "nat \<Rightarrow> string" where
  "nat_digits n = (if n < 10 then [char_of (48 + n)] else nat_digits (n div 10) @ [char_of (48 + n mod 10)])"

declare nat_digits.simps [simp del]

definition str_int :: "int \<Rightarrow> string" where
  "str_int i = (if i < 0 then CHR ''-'' # nat_digits (nat (- i)) else nat_digits (nat i))"

section \<open>Laws\<close>

lemma py_in_iff: "py_in p s \<longleftrightarrow> sublist p s"
proof (induction s)
  case (Cons c s)
  have "take (length p) (c # s) = p \<longleftrightarrow> prefix p (c # s)"
    by (metis append_eq_conv_conj prefix_def take_is_prefix)
  then show ?case
    by (simp add: Cons.IH sublist_Cons_right)
qed simp

lemma py_startswith_iff: "py_startswith s p \<longleftrightarrow> prefix p s"
  by (metis append_eq_conv_conj prefix_def py_startswith_def take_is_prefix)

lemma lower_char_idem [simp]: "lower_char (lower_char c) = lower_char c"
  by (auto simp: lower_char_def Let_def of_char_of)

lemma py_lower_idem [simp]: "py_lower (py_lower s) = py_lower s"
  by (simp add: py_lower_def)

lemma strip_ends:
  assumes "py_strip s \<noteq> []"
  shows "\<not> is_space (hd (py_strip s)) \<and> \<not> is_space (last (py_strip s))"
proof -
  let ?t = "dropWhile is_space s"
  have ne: "dropWhile is_space (rev ?t) \<noteq> []" using assms by (simp add: py_strip_def)
  then have "?t \<noteq> []" by (metis dropWhile.simps(1) rev.simps(1))
  obtain u where u: "?t = py_strip s @ u"
    by (metis py_strip_def rev_append rev_rev_ident takeWhile_dropWhile_id)
  have "hd (py_strip s) = hd ?t" using u assms by simp
  moreover have "\<not> is_space (hd ?t)" using \<open>?t \<noteq> []\<close> by (rule hd_dropWhile)
  moreover have "last (py_strip s) = hd (dropWhile is_space (rev ?t))"
    using ne by (simp add: py_strip_def last_rev)
  moreover have "\<not> is_space (hd (dropWhile is_space (rev ?t)))" using ne by (rule hd_dropWhile)
  ultimately show ?thesis by simp
qed

lemma py_strip_idem [simp]: "py_strip (py_strip s) = py_strip s"
proof (cases "py_strip s = []")
  case False
  note e = strip_ends [OF False]
  have 1: "dropWhile is_space (py_strip s) = py_strip s"
    using e False by (cases "py_strip s") auto
  have "dropWhile is_space (rev (py_strip s)) = rev (py_strip s)"
    using e False by (cases "py_strip s" rule: rev_cases) auto
  then show ?thesis by (simp add: py_strip_def [of "py_strip s"] 1)
next
  case True
  moreover have "py_strip [] = []" by (simp add: py_strip_def)
  ultimately show ?thesis by metis
qed

end
