(* ===== verification/Pin_Registry.thy ===== *)
theory Pin_Registry
  imports Py_String
begin

text \<open>
  The registry of pinned requests (\<open>vllm/kalypso/pin_registry.py\<close>): a dictionary from request
  ids to entries, with listings in the order of the pinning times. Every method holds the
  lock for its whole body, so a call is one step. \<open>time()\<close> is an argument.
\<close>

section \<open>Definitions\<close>

record pin_entry =
  pe_request_id :: string
  pe_kind :: string
  pe_max_tokens :: int
  pe_owner_key :: "string option"
  pe_pinned_at :: rat

type_synonym registry = "(string, pin_entry) dict"

definition registry_instance :: "registry option \<Rightarrow> registry" where
  "registry_instance inst = (case inst of None \<Rightarrow> [] | Some r \<Rightarrow> r)"

definition registry_add ::
  "string \<Rightarrow> string \<Rightarrow> int \<Rightarrow> string option \<Rightarrow> rat \<Rightarrow> registry \<Rightarrow> registry" where
  "registry_add request_id kind max_tokens owner_key now r =
     AList.update request_id
       \<lparr>pe_request_id = request_id, pe_kind = kind, pe_max_tokens = max_tokens,
        pe_owner_key = owner_key, pe_pinned_at = now\<rparr> r"

definition registry_remove :: "string \<Rightarrow> registry \<Rightarrow> bool \<times> registry" where
  "registry_remove request_id r = (map_of r request_id \<noteq> None, AList.delete request_id r)"

definition registry_list :: "registry \<Rightarrow> pin_entry list" where
  "registry_list r = sort_key pe_pinned_at (map snd r)"

definition registry_list_by_owner :: "string \<Rightarrow> registry \<Rightarrow> pin_entry list" where
  "registry_list_by_owner owner_key r =
     sort_key pe_pinned_at [e \<leftarrow> map snd r. pe_owner_key e = Some owner_key]"

section \<open>Invariant\<close>

definition registry_inv :: "registry \<Rightarrow> bool" where
  "registry_inv r \<longleftrightarrow> dwf r \<and> (\<forall>(k, e) \<in> set r. pe_request_id e = k)"

definition registry_ids :: "registry \<Rightarrow> string set" where
  "registry_ids r = set (dkeys r)"

lemma registry_inv_Nil [simp]: "registry_inv []"
  by (simp add: registry_inv_def)

lemma registry_ids_Nil [simp]: "registry_ids [] = {}"
  by (simp add: registry_ids_def)

lemma set_update_subset: "set (AList.update k v d) \<subseteq> insert (k, v) (set d)"
  by (induction d) auto

lemma registry_add_inv [simp, wf_intros]:
  assumes "registry_inv r"
  shows "registry_inv (registry_add i k m ow t r)"
proof -
  have "set (registry_add i k m ow t r) \<subseteq> insert (i, \<lparr>pe_request_id = i, pe_kind = k,
      pe_max_tokens = m, pe_owner_key = ow, pe_pinned_at = t\<rparr>) (set r)"
    unfolding registry_add_def by (rule set_update_subset)
  with assms show ?thesis
    by (auto simp: registry_inv_def registry_add_def)
qed

lemma set_delete_subset: "set (AList.delete k d) \<subseteq> set d"
  by (auto simp: AList.delete_eq)

lemma registry_remove_inv [simp, wf_intros]:
  "registry_inv r \<Longrightarrow> registry_inv (snd (registry_remove i r))"
  using set_delete_subset [of i r] by (auto simp: registry_inv_def registry_remove_def)

lemma registry_add_ids [simp]: "registry_ids (registry_add i k m ow t r) = insert i (registry_ids r)"
  by (simp add: registry_ids_def registry_add_def update_keys insert_absorb)

lemma registry_remove_ids [simp]: "registry_ids (snd (registry_remove i r)) = registry_ids r - {i}"
  by (auto simp: registry_ids_def registry_remove_def delete_keys)

lemma registry_remove_found: "fst (registry_remove i r) \<longleftrightarrow> i \<in> registry_ids r"
  by (simp add: registry_remove_def registry_ids_def map_of_eq_None_iff)

section \<open>The interface of a pin store\<close>

text \<open>
  What a client of the registry relies on: a set of held request ids that grows by \<open>hold\<close>
  and shrinks by \<open>drop\<close>. After any sequence of calls an id is held exactly when the last
  call about it was a \<open>hold\<close>.
\<close>

datatype pin_call = Pin string | Unpin string

primrec call_id :: "pin_call \<Rightarrow> string" where
  "call_id (Pin i) = i"
| "call_id (Unpin i) = i"

definition held_after :: "pin_call list \<Rightarrow> string set" where
  "held_after cs = {i. \<exists>before after. cs = before @ Pin i # after \<and> i \<notin> call_id ` set after}"

lemma held_after_snoc:
  "held_after (cs @ [c]) = (case c of Pin i \<Rightarrow> insert i (held_after cs) | Unpin i \<Rightarrow> held_after cs - {i})"
proof -
  have "j \<in> held_after (cs @ [c]) \<longleftrightarrow> c = Pin j \<or> call_id c \<noteq> j \<and> j \<in> held_after cs" for j
  proof
    assume "j \<in> held_after (cs @ [c])"
    then obtain b a where ba: "cs @ [c] = b @ Pin j # a" "j \<notin> call_id ` set a"
      by (auto simp: held_after_def)
    show "c = Pin j \<or> call_id c \<noteq> j \<and> j \<in> held_after cs"
    proof (cases a rule: rev_cases)
      case (snoc a' d)
      then have "cs = b @ Pin j # a'" "d = c" using ba(1) by auto
      then show ?thesis using ba(2) snoc by (auto simp: held_after_def)
    qed (use ba in simp)
  next
    assume "c = Pin j \<or> call_id c \<noteq> j \<and> j \<in> held_after cs"
    then show "j \<in> held_after (cs @ [c])"
    proof
      assume "c = Pin j"
      then have "cs @ [c] = cs @ Pin j # []" by simp
      then show ?thesis unfolding held_after_def by fastforce
    next
      assume a: "call_id c \<noteq> j \<and> j \<in> held_after cs"
      then obtain b a where "cs = b @ Pin j # a" "j \<notin> call_id ` set a" by (auto simp: held_after_def)
      then have "cs @ [c] = b @ Pin j # (a @ [c]) \<and> j \<notin> call_id ` set (a @ [c])" using a by auto
      then show ?thesis unfolding held_after_def by blast
    qed
  qed
  then show ?thesis by (cases c) auto
qed

lemma held_after_Nil [simp]: "held_after [] = {}"
  by (simp add: held_after_def)

locale pin_store =
  fixes ids :: "'r \<Rightarrow> string set"
    and inv :: "'r \<Rightarrow> bool"
    and hold :: "'a \<Rightarrow> string \<Rightarrow> 'r \<Rightarrow> 'r"
    and drop :: "string \<Rightarrow> 'r \<Rightarrow> 'r"
  assumes hold_inv: "inv r \<Longrightarrow> inv (hold a i r)"
    and drop_inv: "inv r \<Longrightarrow> inv (drop i r)"
    and ids_hold: "inv r \<Longrightarrow> ids (hold a i r) = insert i (ids r)"
    and ids_drop: "inv r \<Longrightarrow> ids (drop i r) = ids r - {i}"
begin

definition tracks :: "pin_call list \<Rightarrow> 'r \<Rightarrow> bool" where
  "tracks cs r \<longleftrightarrow> inv r \<and> ids r = held_after cs"

lemma tracks_hold: "tracks cs r \<Longrightarrow> tracks (cs @ [Pin i]) (hold a i r)"
  by (simp add: tracks_def hold_inv ids_hold held_after_snoc)

lemma tracks_drop: "tracks cs r \<Longrightarrow> tracks (cs @ [Unpin i]) (drop i r)"
  by (simp add: tracks_def drop_inv ids_drop held_after_snoc)

end

interpretation reg: pin_store registry_ids registry_inv
  "\<lambda>(kind, mx, ow, now) i. registry_add i kind mx ow now" "\<lambda>i r. snd (registry_remove i r)"
  by unfold_locales auto

section \<open>Properties\<close>

lemma registry_list_sorted: "sorted (map pe_pinned_at (registry_list r))"
  by (simp add: registry_list_def)

lemma registry_list_by_owner_filter:
  "registry_list_by_owner k r = [e \<leftarrow> registry_list r. pe_owner_key e = Some k]"
  by (simp add: registry_list_by_owner_def registry_list_def filter_sort)

lemma registry_list_mset: "mset (registry_list r) = mset (map snd r)"
  by (simp add: registry_list_def)

text \<open>
  The listings are complete and ordered: \<open>list\<close> returns exactly one entry per pinned
  request, oldest pin first, and \<open>list_by_owner\<close> is that listing restricted to the owner, in
  the same order.
\<close>

theorem registry_listing:
  assumes "registry_inv r"
  shows "distinct (map pe_request_id (registry_list r)) \<and>
    set (map pe_request_id (registry_list r)) = registry_ids r \<and>
    sorted (map pe_pinned_at (registry_list r)) \<and>
    registry_list_by_owner k r = [e \<leftarrow> registry_list r. pe_owner_key e = Some k]"
proof -
  have ids: "map pe_request_id (map snd r) = dkeys r"
    using assms by (auto simp: registry_inv_def)
  have "mset (map pe_request_id (registry_list r)) = mset (dkeys r)"
    unfolding ids [symmetric] by (simp add: registry_list_mset multiset.map_comp)
  then have "distinct (map pe_request_id (registry_list r)) \<and>
      set (map pe_request_id (registry_list r)) = set (dkeys r)"
    using assms mset_eq_setD mset_eq_imp_distinct_iff unfolding registry_inv_def dwf_def by metis
  then show ?thesis
    by (simp add: registry_list_sorted registry_list_by_owner_filter registry_ids_def)
qed

definition demo_registry :: registry where
  "demo_registry = registry_add ''b'' ''chat'' 8 (Some ''q1'') 5
     (registry_add ''a'' ''chat'' 8 (Some ''q2'') 7 [])"

theorem registry_listing_witness:
  "registry_inv demo_registry \<and> registry_ids demo_registry = {''a'', ''b''} \<and>
   map pe_request_id (registry_list demo_registry) = [''b'', ''a''] \<and>
   distinct (map pe_request_id (registry_list demo_registry))"
proof -
  have inv: "registry_inv demo_registry" by (simp add: demo_registry_def)
  show ?thesis
    using registry_listing [OF inv, of "''q1''"] inv
    by (auto simp: demo_registry_def registry_list_def registry_add_def)
qed

end
