(* ===== verification/Sem_Context.thy ===== *)
theory Sem_Context
  imports Py_String
begin

text \<open>
  Contexts and prompts: the tuples that flow through a query (\<open>kalypso/context/context.py\<close>),
  the prompts built for the language model (\<open>kalypso/sem_ops/prompt_utils.py\<close>), the operator
  names (\<open>kalypso/sem_ops/base.py\<close>) and the tokenizer calls of the KV manager
  (\<open>kalypso/budget.py\<close>). The tokenizer is a third-party object: its two methods are the
  fields of the parameter \<open>tokenizer\<close>.
\<close>

section \<open>Messages\<close>

record message =
  role :: string
  msg_type :: "string option"
  content :: string

text \<open>A value that is either a string or a list of messages.\<close>

datatype text_or_msgs = TextData string | MsgData "message list"

record tokenizer =
  tk_encode :: "string \<Rightarrow> int list"
  tk_chat_template :: "message list \<Rightarrow> string"

definition apply_chat_template :: "tokenizer \<Rightarrow> message list \<Rightarrow> string" where
  "apply_chat_template tk prompt = tk_chat_template tk prompt"

fun token_length :: "tokenizer \<Rightarrow> text_or_msgs \<Rightarrow> int" where
  "token_length tk (TextData text) = int (length (tk_encode tk text))"
| "token_length tk (MsgData msgs) = int (length (tk_encode tk (tk_chat_template tk msgs)))"

section \<open>Python's repr\<close>

definition nl :: string where "nl = [CHR 0x0A]"
definition dq :: string where "dq = [CHR 0x22]"
definition sq :: string where "sq = [CHR 0x27]"

definition hex_digit :: "nat \<Rightarrow> char" where
  "hex_digit n = (if n < 10 then char_of (48 + n) else char_of (87 + n))"

definition repr_char :: "char \<Rightarrow> char \<Rightarrow> string" where
  "repr_char quote c =
     (let n = of_char c :: nat in
      if c = quote \<or> n = 92 then [CHR 0x5C, c]
      else if n = 10 then [CHR 0x5C, CHR ''n'']
      else if n = 13 then [CHR 0x5C, CHR ''r'']
      else if n = 9 then [CHR 0x5C, CHR ''t'']
      else if n < 32 \<or> n = 127 then [CHR 0x5C, CHR ''x'', hex_digit (n div 16), hex_digit (n mod 16)]
      else [c])"

definition py_repr :: "string \<Rightarrow> string" where
  "py_repr s =
     (let quote = (if CHR 0x27 \<in> set s \<and> CHR 0x22 \<notin> set s then CHR 0x22 else CHR 0x27)
      in quote # concat (map (repr_char quote) s) @ [quote])"

text \<open>\<open>repr\<close> of a message dictionary and of a list of them, as an f-string shows them.\<close>

definition repr_message :: "message \<Rightarrow> string" where
  "repr_message m =
     ''{'' @ py_join '', ''
        (map (\<lambda>(k, v). py_repr k @ '': '' @ py_repr v)
           ([(''role'', role m)] @ (case msg_type m of None \<Rightarrow> [] | Some t \<Rightarrow> [(''type'', t)]) @
            [(''content'', content m)])) @ ''}''"

fun py_str :: "text_or_msgs \<Rightarrow> string" where
  "py_str (TextData s) = s"
| "py_str (MsgData ms) = ''['' @ py_join '', '' (map repr_message ms) @ '']''"

section \<open>Operator names\<close>

definition SEM_FILTER :: string where "SEM_FILTER = ''sem_filter''"
definition SEM_JOIN :: string where "SEM_JOIN = ''sem_join''"
definition SEM_CLASSIFY :: string where "SEM_CLASSIFY = ''sem_classify''"
definition SEM_TOPK :: string where "SEM_TOPK = ''sem_topk''"
definition SEM_MAP :: string where "SEM_MAP = ''sem_map''"
definition SEM_AGG :: string where "SEM_AGG = ''sem_agg''"
definition JOIN :: string where "JOIN = ''join''"
definition CARTESIAN_PRODUCT :: string where "CARTESIAN_PRODUCT = ''cp''"
definition INDEXED_SEARCH :: string where "INDEXED_SEARCH = ''indexed_search''"

definition OPERATOR_LIST :: "string list" where
  "OPERATOR_LIST = [SEM_FILTER, SEM_JOIN, SEM_CLASSIFY, SEM_TOPK, SEM_MAP, SEM_AGG, JOIN,
     CARTESIAN_PRODUCT, INDEXED_SEARCH]"

lemmas op_names = SEM_FILTER_def SEM_JOIN_def SEM_CLASSIFY_def SEM_TOPK_def SEM_MAP_def
  SEM_AGG_def JOIN_def CARTESIAN_PRODUCT_def INDEXED_SEARCH_def

section \<open>Prompts\<close>

definition SYSTEM_PROMPT :: string where
  "SYSTEM_PROMPT =
     ''You are a helpful assistant for executing semantic operators.'' @ nl @
     ''You will be given data and an operation description.'' @ nl @
     ''Apply the operation to the provided data exactly as specified and return only the required result.'' @
     nl"

definition build_operation_prompt :: "string \<Rightarrow> string \<Rightarrow> string res" where
  "build_operation_prompt instruction op =
     (if op = SEM_FILTER then Inr (
       ''You will be presented with a context and a filter condition. Output TRUE if the context satisfies the filter condition, and FALSE otherwise.'' @
       nl @
       ''Remember, your answer must be TRUE or FALSE. Finish your response with a newline character'' @
       nl @ ''Output TRUE or FALSE only.'' @ nl @ ''Condition:'' @ instruction @ nl)
      else if op = SEM_MAP then Inr (
       ''You  are presented with a context and a mapping instruction.'' @ nl @
       ''Apply the instruction to the context and produce the mapped output.'' @ nl @
       ''The output must strictly follow the instruction and contain no extra commentary.'' @
       nl @ ''Map Instruction:'' @ instruction @ nl)
      else if op = SEM_AGG then Inr (
       ''You are presented with multiple contexts.'' @ nl @
       ''Aggregate them according to the aggregation instruction.'' @ nl @
       ''The output must be a single aggregated result.'' @ nl @
       ''Do not include explanations or commentary.'' @ nl @ ''Instruction:'' @ instruction @ nl)
      else if op = SEM_TOPK then Inr (
       ''You are presented with two contexts.'' @ nl @
       ''Compare the two contexts according to the ranking instruction.'' @ nl @
       ''Choose the better context.'' @ nl @ ''Answer with '' @ sq @ ''A'' @ sq @ '' or '' @
       sq @ ''B'' @ sq @ '' only.'' @ nl @ ''Instruction:'' @ instruction @ nl)
      else if op = SEM_JOIN then Inr (
       ''You are presented with two contexts.'' @ nl @
       ''Determine whether the two contexts A, B together satisfy the condition.'' @ nl @
       ''Remember, your answer must be TRUE or FALSE. Finish your response with a newline character'' @
       nl @ ''The output must strictly follow the condition and contain no extra commentary.'' @
       nl @ ''Condition:'' @ instruction @ nl)
      else if py_in op SEM_CLASSIFY then Inr (
       ''You are presented with a context and a classification instruction.'' @ nl @
       ''Classify the context into exactly one of the provided groups.'' @ nl @
       ''The output must be one group name only.'' @ nl @
       ''Do not include explanations or extra text.'' @ nl @ ''Instruction:'' @ instruction @ nl)
      else Inl ValueError)"

definition get_system_prompt :: "message list" where
  "get_system_prompt = [\<lparr>role = ''system'', msg_type = Some ''text'', content = SYSTEM_PROMPT\<rparr>]"

definition context_block :: "text_or_msgs \<Rightarrow> string" where
  "context_block d = ''CONTEXT:'' @ nl @ ''  {'' @ nl @
     ''    '' @ dq @ ''text'' @ dq @ '': '' @ py_str d @ nl @ ''  }'' @ nl"

definition get_data_prompt :: "text_or_msgs \<Rightarrow> text_or_msgs list \<Rightarrow> message list" where
  "get_data_prompt d right_data =
     [\<lparr>role = ''user'', msg_type = Some ''text'',
       content = context_block d @ concat (map (\<lambda>item. nl @ nl @ context_block item) right_data)\<rparr>]"

definition get_task_prompt :: "string \<Rightarrow> string \<Rightarrow> message list res" where
  "get_task_prompt instruction op =
     rbind (build_operation_prompt instruction op) (\<lambda>operation.
       Inr [\<lparr>role = ''user'', msg_type = Some ''text'',
             content = ''TASK:'' @ nl @ operation @ nl @ nl @ ''ANSWER:'' @ nl\<rparr>])"

text \<open>\<open>'system' in data[0]['role']\<close>: an \<open>IndexError\<close> on an empty list.\<close>

definition has_system :: "message list \<Rightarrow> bool res" where
  "has_system d = (case d of [] \<Rightarrow> Inl IndexError | m # _ \<Rightarrow> Inr (py_in ''system'' (role m)))"

definition get_prompt :: "string \<Rightarrow> message list \<Rightarrow> string \<Rightarrow> message list res" where
  "get_prompt instruction d op =
     rbind (has_system d) (\<lambda>sys.
     rbind (get_task_prompt instruction op) (\<lambda>task.
       Inr ((if sys then d else get_system_prompt @ d) @ task)))"

definition add_assistant_prompt :: "tokenizer \<Rightarrow> message list \<Rightarrow> string \<Rightarrow> message list \<times> string" where
  "add_assistant_prompt tk prompt output_text =
     (let appended = prompt @ [\<lparr>role = ''assistant'', msg_type = None, content = output_text\<rparr>]
      in (appended, apply_chat_template tk appended))"

text \<open>\<open>data if 'system' in data[0]['role'] else get_system_prompt() + data\<close>\<close>

definition with_system :: "message list \<Rightarrow> message list res" where
  "with_system d = rbind (has_system d) (\<lambda>sys. Inr (if sys then d else get_system_prompt @ d))"

section \<open>Contexts\<close>

record sem_input =
  data :: "message list"
  token_len :: int
  right_data :: "message list"

definition semantic_input :: "text_or_msgs \<Rightarrow> int \<Rightarrow> message list list \<Rightarrow> sem_input" where
  "semantic_input d tlen rights =
     \<lparr>data = (case d of TextData s \<Rightarrow> get_data_prompt (TextData s) [] | MsgData ms \<Rightarrow> ms),
      token_len = tlen, right_data = concat rights\<rparr>"

definition add_right :: "sem_input \<Rightarrow> message list \<Rightarrow> sem_input" where
  "add_right i v = i\<lparr>right_data := right_data i @ v\<rparr>"

text \<open>
  \<open>raw_request\<close> is the HTTP request object, known here by its identity. The executor of the
  state is the process-wide one and has no field.
\<close>

record exec_state =
  raw_request :: int
  pin_req_id :: "string option"
  st_predicate :: bool
  helper_score :: "rat option"
  idx :: int
  stage_id :: int
  retry_op_position :: int
  retry_max_tokens :: int

definition execution_state :: "int \<Rightarrow> exec_state" where
  "execution_state rr = \<lparr>raw_request = rr, pin_req_id = None, st_predicate = True,
     helper_score = None, idx = -1, stage_id = -1, retry_op_position = -1, retry_max_tokens = 0\<rparr>"

datatype out_entry =
    OutText string string
  | OutHelper string string rat
  | OutCascade string string "rat option" int
  | OutSearch nat string
  | OutData string "message list"

record sem_context =
  inp :: sem_input
  outputs :: "out_entry list"
  state :: exec_state

datatype retry_task_result = RetryTaskResult (rt_ctx: sem_context) (rt_op_index: nat) (rt_retain_budget: bool)

abbreviation ctx_data :: "sem_context \<Rightarrow> message list" where
  "ctx_data c \<equiv> data (inp c)"

abbreviation ctx_pin :: "sem_context \<Rightarrow> string option" where
  "ctx_pin c \<equiv> pin_req_id (state c)"

definition set_data :: "message list \<Rightarrow> sem_context \<Rightarrow> sem_context" where
  "set_data d c = c\<lparr>inp := inp c\<lparr>data := d\<rparr>\<rparr>"

definition set_right :: "message list \<Rightarrow> sem_context \<Rightarrow> sem_context" where
  "set_right d c = c\<lparr>inp := inp c\<lparr>right_data := d\<rparr>\<rparr>"

definition set_pin :: "string option \<Rightarrow> sem_context \<Rightarrow> sem_context" where
  "set_pin p c = c\<lparr>state := state c\<lparr>pin_req_id := p\<rparr>\<rparr>"

definition add_output :: "out_entry \<Rightarrow> sem_context \<Rightarrow> sem_context" where
  "add_output e c = c\<lparr>outputs := outputs c @ [e]\<rparr>"

lemma ctx_updates [simp]:
  "ctx_data (set_data d c) = d" "ctx_data (set_right d c) = ctx_data c"
  "ctx_data (set_pin p c) = ctx_data c" "ctx_data (add_output e c) = ctx_data c"
  "ctx_pin (set_data d c) = ctx_pin c" "ctx_pin (set_right d c) = ctx_pin c"
  "ctx_pin (set_pin p c) = p" "ctx_pin (add_output e c) = ctx_pin c"
  "right_data (inp (set_data d c)) = right_data (inp c)" "right_data (inp (set_right d c)) = d"
  "right_data (inp (set_pin p c)) = right_data (inp c)"
  "right_data (inp (add_output e c)) = right_data (inp c)"
  "outputs (set_data d c) = outputs c" "outputs (set_right d c) = outputs c"
  "outputs (set_pin p c) = outputs c" "outputs (add_output e c) = outputs c @ [e]"
  "helper_score (state (set_pin p c)) = helper_score (state c)"
  "state (set_data d c) = state c" "state (set_right d c) = state c"
  "state (add_output e c) = state c"
  by (simp_all add: set_data_def set_right_def set_pin_def add_output_def)

section \<open>Prompt shape\<close>

text \<open>
  Data is well shaped when it is not empty and no message after the first is a system
  message: the shape every reader produces and every operator keeps.
\<close>

definition is_system :: "message \<Rightarrow> bool" where
  "is_system m \<longleftrightarrow> py_in ''system'' (role m)"

definition data_wf :: "message list \<Rightarrow> bool" where
  "data_wf d \<longleftrightarrow> d \<noteq> [] \<and> (\<forall>m \<in> set (tl d). \<not> is_system m)"

definition sys_wf :: "message list \<Rightarrow> bool" where
  "sys_wf d \<longleftrightarrow> data_wf d \<and> is_system (hd d)"

lemma not_system_roles [simp]:
  "\<not> py_in ''system'' ''user''" "\<not> py_in ''system'' ''assistant''" "py_in ''system'' ''system''"
  by simp_all

lemma py_in_refl: "py_in s s"
  by (simp add: py_in_iff)

lemma has_system_ok: "data_wf d \<Longrightarrow> has_system d = Inr (is_system (hd d))"
  by (auto simp: data_wf_def has_system_def is_system_def split: list.splits)

lemma data_wf_append:
  "data_wf d \<Longrightarrow> \<forall>m \<in> set e. \<not> is_system m \<Longrightarrow> data_wf (d @ e)"
  by (cases d) (auto simp: data_wf_def)

lemma sys_wf_append:
  "sys_wf d \<Longrightarrow> \<forall>m \<in> set e. \<not> is_system m \<Longrightarrow> sys_wf (d @ e)"
  by (cases d) (auto simp: sys_wf_def data_wf_def)

lemma with_system_ok:
  assumes "data_wf d"
  shows "\<exists>d'. with_system d = Inr d' \<and> sys_wf d' \<and> (\<exists>p. d' = p @ d)"
  using assms
  by (cases d) (auto simp: with_system_def has_system_ok sys_wf_def data_wf_def get_system_prompt_def is_system_def)

lemma with_system_sys: "sys_wf d \<Longrightarrow> with_system d = Inr d"
  by (simp add: with_system_def has_system_ok sys_wf_def)

lemma get_task_prompt_shape:
  "get_task_prompt i op = Inr t \<Longrightarrow> \<exists>m. t = [m] \<and> \<not> is_system m"
  by (auto simp: get_task_prompt_def py_simps is_system_def)

lemma get_prompt_split:
  "get_prompt i d op = rbind (with_system d) (\<lambda>dp. rbind (get_task_prompt i op) (\<lambda>t. Inr (dp @ t)))"
  by (simp add: get_prompt_def with_system_def rbind_def split: sum.splits)

lemma operation_prompt_ok:
  "op \<in> {SEM_FILTER, SEM_JOIN, SEM_MAP, SEM_AGG, SEM_TOPK, SEM_CLASSIFY} \<Longrightarrow>
     \<exists>t. get_task_prompt i op = Inr [t] \<and> \<not> is_system t"
proof -
  assume "op \<in> {SEM_FILTER, SEM_JOIN, SEM_MAP, SEM_AGG, SEM_TOPK, SEM_CLASSIFY}"
  then have "\<exists>s. build_operation_prompt i op = Inr s"
    by (auto simp: build_operation_prompt_def py_in_refl)
  then show ?thesis by (auto simp: get_task_prompt_def is_system_def)
qed

lemma get_prompt_ok:
  assumes "data_wf d" "op \<in> {SEM_FILTER, SEM_JOIN, SEM_MAP, SEM_AGG, SEM_TOPK, SEM_CLASSIFY}"
  shows "\<exists>dp t. with_system d = Inr dp \<and> get_prompt i d op = Inr (dp @ [t]) \<and> sys_wf dp \<and> \<not> is_system t"
  using with_system_ok [OF assms(1)] operation_prompt_ok [OF assms(2), of i]
  by (auto simp: get_prompt_split)

lemma get_data_prompt_wf [simp]: "data_wf (get_data_prompt d r)"
  by (simp add: get_data_prompt_def data_wf_def)

lemma get_data_prompt_no_system: "\<forall>m \<in> set (get_data_prompt d r). \<not> is_system m"
  by (simp add: get_data_prompt_def is_system_def)

text \<open>The data with the system message in front, which is what the model is shown.\<close>

definition sysd :: "message list \<Rightarrow> message list" where
  "sysd d = (if is_system (hd d) then d else get_system_prompt @ d)"

lemma with_system_sysd: "data_wf d \<Longrightarrow> with_system d = Inr (sysd d)"
  by (simp add: with_system_def has_system_ok sysd_def)

lemma sys_wf_sysd: "data_wf d \<Longrightarrow> sys_wf (sysd d)"
  using with_system_ok [of d] by (auto simp: with_system_sysd)

lemma sysd_sys: "sys_wf d \<Longrightarrow> sysd d = d"
  by (simp add: sysd_def sys_wf_def)

lemma sysd_append: "d \<noteq> [] \<Longrightarrow> sysd (d @ e) = sysd d @ e"
  by (simp add: sysd_def)

lemma sysd_prefix: "d \<noteq> [] \<Longrightarrow> prefix (sysd d) (sysd (d @ e))"
  by (simp add: sysd_append)

lemma get_prompt_sysd:
  assumes "data_wf d" "op \<in> {SEM_FILTER, SEM_JOIN, SEM_MAP, SEM_AGG, SEM_TOPK, SEM_CLASSIFY}"
  shows "\<exists>t. get_prompt i d op = Inr (sysd d @ [t]) \<and> \<not> is_system t"
  using get_prompt_ok [OF assms, of i] with_system_sysd [OF assms(1)] by auto

lemma sys_wf_data [dest]: "sys_wf d \<Longrightarrow> data_wf d"
  by (simp add: sys_wf_def)

lemma data_wf_ne [dest]: "data_wf d \<Longrightarrow> d \<noteq> []"
  by (simp add: data_wf_def)

text \<open>A context is well shaped when its data is and its right data has no system message.\<close>

definition ctx_ok :: "sem_context \<Rightarrow> bool" where
  "ctx_ok c \<longleftrightarrow> data_wf (ctx_data c) \<and> (\<forall>m \<in> set (right_data (inp c)). \<not> is_system m)"

definition joined_data :: "sem_context \<Rightarrow> message list" where
  "joined_data c = ctx_data c @ right_data (inp c)"

lemma ctx_ok_joined: "ctx_ok c \<Longrightarrow> data_wf (joined_data c)"
  by (simp add: ctx_ok_def joined_data_def data_wf_append)

text \<open>The data of \<open>c'\<close> continues what the model has already been shown for \<open>c\<close>.\<close>

definition continues :: "sem_context \<Rightarrow> sem_context \<Rightarrow> bool" where
  "continues c c' \<longleftrightarrow> prefix (sysd (ctx_data c)) (sysd (ctx_data c'))"

lemma continues_refl [simp]: "continues c c"
  by (simp add: continues_def)

lemma continues_trans: "continues a b \<Longrightarrow> continues b c \<Longrightarrow> continues a c"
  by (auto simp: continues_def intro: prefix_order.trans)

lemma ctx_ok_updates [simp]:
  "ctx_ok (set_pin p c) = ctx_ok c" "ctx_ok (add_output e c) = ctx_ok c"
  "continues a (set_pin p c) = continues a c" "continues a (add_output e c) = continues a c"
  by (simp_all add: ctx_ok_def continues_def)

end
