(* ===== verification/Map_Estimator.thy ===== *)
theory Map_Estimator
  imports Py_Prelude
begin

text \<open>
  The estimator of output/input token ratios (\<open>kalypso/controller/map_estimator.py\<close>): ratios
  observed per operator position and their 95th percentile with a margin of ten percent.
  \<open>np.percentile\<close> is numpy's linear interpolation between the two nearest ranks.
\<close>

section \<open>Definitions\<close>

type_synonym estimator = "(int, rat list) dict"

definition estimator_instance :: "estimator option \<Rightarrow> estimator" where
  "estimator_instance inst = (case inst of None \<Rightarrow> [] | Some e \<Rightarrow> e)"

definition estimator_update :: "estimator \<Rightarrow> int \<Rightarrow> int \<Rightarrow> int \<Rightarrow> estimator" where
  "estimator_update est pos input_len output_len =
     (if input_len \<le> 0 then est
      else let ratio = of_int output_len / of_int input_len
           in AList.update pos (dget est pos [] @ [ratio]) est)"

definition np_percentile :: "rat list \<Rightarrow> rat \<Rightarrow> rat" where
  "np_percentile xs q =
     (let ys = sort xs;
          virtual = q / 100 * of_nat (length ys - 1);
          lo = nat \<lfloor>virtual\<rfloor>;
          hi = min (lo + 1) (length ys - 1);
          frac = virtual - of_nat lo
      in ys ! lo + (ys ! hi - ys ! lo) * frac)"

definition get_ratio :: "estimator \<Rightarrow> int \<Rightarrow> rat \<Rightarrow> rat option" where
  "get_ratio est pos percentile =
     (case map_of est pos of
        None \<Rightarrow> None
      | Some xs \<Rightarrow> Some (np_percentile xs percentile * (11 / 10)))"

definition estimator_reset :: "estimator \<Rightarrow> estimator" where
  "estimator_reset est = []"

section \<open>Bounds of the percentile\<close>

lemma interp_bounds:
  fixes a b f :: rat
  assumes "a \<le> b" "0 \<le> f" "f \<le> 1"
  shows "a \<le> a + (b - a) * f \<and> a + (b - a) * f \<le> b"
proof -
  have "0 \<le> (b - a) * f" using assms by simp
  moreover have "(b - a) * f \<le> (b - a) * 1" using assms by (intro mult_left_mono) auto
  ultimately show ?thesis by simp
qed

lemma percentile_rank:
  fixes q :: rat
  assumes "xs \<noteq> []" "0 \<le> q" "q \<le> 100"
  defines "v \<equiv> q / 100 * of_nat (length (xs :: rat list) - 1)"
  shows "nat \<lfloor>v\<rfloor> < length xs" "0 \<le> v - of_nat (nat \<lfloor>v\<rfloor>)" "v - of_nat (nat \<lfloor>v\<rfloor>) \<le> 1"
proof -
  have v: "0 \<le> v" using assms by simp
  have "v \<le> 1 * of_nat (length xs - 1)"
    unfolding v_def using assms(2,3) by (intro mult_right_mono) auto
  then have "\<lfloor>v\<rfloor> \<le> int (length xs - 1)" using floor_mono [of v "of_nat (length xs - 1)"] by simp
  then show "nat \<lfloor>v\<rfloor> < length xs" using assms(1) by (cases xs) auto
  have eq: "of_nat (nat \<lfloor>v\<rfloor>) = (of_int \<lfloor>v\<rfloor> :: rat)" using v by simp
  show "0 \<le> v - of_nat (nat \<lfloor>v\<rfloor>)" "v - of_nat (nat \<lfloor>v\<rfloor>) \<le> 1"
    unfolding eq by linarith+
qed

lemma percentile_within:
  assumes "xs \<noteq> []" "0 \<le> q" "q \<le> 100"
  shows "\<exists>lo\<in>set xs. \<exists>hi\<in>set xs. lo \<le> np_percentile xs q \<and> np_percentile xs q \<le> hi"
proof -
  let ?ys = "sort xs"
  let ?v = "q / 100 * of_nat (length xs - 1)"
  let ?lo = "nat \<lfloor>?v\<rfloor>"
  let ?hi = "min (?lo + 1) (length xs - 1)"
  note r = percentile_rank [OF assms]
  have hi: "?hi < length ?ys" using assms(1) by (cases xs) auto
  have lohi: "?lo \<le> ?hi" by (rule min.boundedI) (use r(1) in linarith)+
  have le: "?ys ! ?lo \<le> ?ys ! ?hi" using hi lohi by (intro sorted_nth_mono) auto
  have eq: "np_percentile xs q = ?ys ! ?lo + (?ys ! ?hi - ?ys ! ?lo) * (?v - of_nat ?lo)"
    by (simp only: np_percentile_def Let_def length_sort)
  have "?ys ! ?lo \<in> set xs" "?ys ! ?hi \<in> set xs"
    using nth_mem [of ?lo ?ys] nth_mem [OF hi] r(1) by (simp_all only: length_sort set_sort)
  then show ?thesis
    unfolding eq using interp_bounds [OF le r(2,3)] by blast
qed

text \<open>A position has an entry once it has a ratio, and no ratio is negative.\<close>

definition estimator_wf :: "estimator \<Rightarrow> bool" where
  "estimator_wf est \<longleftrightarrow> dwf est \<and> (\<forall>(p, xs) \<in> set est. xs \<noteq> [] \<and> (\<forall>x \<in> set xs. 0 \<le> x))"

lemma estimator_wf_lookup:
  "estimator_wf est \<Longrightarrow> map_of est p = Some xs \<Longrightarrow> xs \<noteq> [] \<and> (\<forall>x \<in> set xs. 0 \<le> x)"
  unfolding estimator_wf_def using map_of_SomeD by fastforce

lemma estimator_wf_update:
  assumes "estimator_wf est" "0 \<le> out"
  shows "estimator_wf (estimator_update est p i out)"
proof (cases "i \<le> 0")
  case True
  with assms(1) show ?thesis by (simp add: estimator_update_def)
next
  case False
  let ?xs = "dget est p [] @ [of_int out / of_int i]"
  have sub: "set (AList.update p v est) \<subseteq> insert (p, v) (set est)" for v by (induction est) auto
  have xs: "\<forall>x \<in> set ?xs. 0 \<le> x"
    using False assms estimator_wf_lookup [OF assms(1), of p] by (cases "map_of est p") (auto simp: dget_def)
  have "ys \<noteq> [] \<and> (\<forall>x \<in> set ys. 0 \<le> x)" if "(q, ys) \<in> set (AList.update p ?xs est)" for q ys
  proof (cases "ys = ?xs")
    case True
    then show ?thesis using xs by simp
  next
    case False
    then have "(q, ys) \<in> set est" using that sub [of ?xs] by blast
    then show ?thesis using assms(1) unfolding estimator_wf_def by blast
  qed
  moreover have "estimator_update est p i out = AList.update p ?xs est"
    using False by (simp add: estimator_update_def Let_def)
  moreover have "dwf (AList.update p ?xs est)" using assms(1) by (simp add: estimator_wf_def dwf_def distinct_update)
  ultimately show ?thesis unfolding estimator_wf_def by auto
qed

lemma estimator_wf_reset: "estimator_wf (estimator_reset est)"
  by (simp add: estimator_wf_def estimator_reset_def dwf_def)

lemma get_ratio_nonneg:
  assumes "estimator_wf est" "get_ratio est p q = Some r" "0 \<le> q" "q \<le> 100"
  shows "0 \<le> r"
proof -
  obtain xs where xs: "map_of est p = Some xs" "r = np_percentile xs q * (11 / 10)"
    using assms(2) by (auto simp: get_ratio_def split: option.splits)
  then have "xs \<noteq> []" "\<forall>x \<in> set xs. 0 \<le> x" using estimator_wf_lookup [OF assms(1)] by blast+
  then obtain lo where "0 \<le> lo" "lo \<le> np_percentile xs q" using percentile_within [OF _ assms(3,4)] by blast
  then show ?thesis using xs(2) by simp
qed

end
