(* ===== verification/Executor.thy ===== *)
theory Executor
  imports Py_Prog Pin_Registry Sem_Context Map_Estimator
begin

text \<open>
  The executor of language model calls (\<open>kalypso/execution/vllm_executor.py\<close>) and the world it
  runs in. The serving engine, the helper model, the index service and the clock are
  parameters (\<open>env\<close>): the engine and the clock may answer by the whole history of calls, the
  index service by the posts so far, the helper model by the request alone. The
  utility calls that unpin or abort a request are taken to succeed: the executor does not catch
  what they raise, and a failure of that call is not modelled. The world holds what the operators share: the history of engine calls, the registry of pinned requests, the
  ratio estimator and the counters of the cascade operators. An operation returns its value
  or its exception together with the world it leaves.
\<close>

section \<open>The world\<close>

record llm_request =
  rq_kind :: string
  rq_model :: string
  rq_prompt :: text_or_msgs
  rq_max_tokens :: int
  rq_temperature :: rat
  rq_seed :: int
  rq_top_p :: rat
  rq_frequency_penalty :: rat
  rq_repetition_penalty :: rat
  rq_priority :: int
  rq_pinned :: bool

text \<open>The decoded body of a response: its id, text and finish reason.\<close>

record response =
  rs_id :: string
  rs_text :: string
  rs_finish :: "string option"

text \<open>What was sent to the engine, with the answer of a request.\<close>

datatype event =
    EvRequest int llm_request "response res"
  | EvUnpin int string
  | EvAbort int string

record completion_result =
  cr_text :: string
  cr_request_id :: string
  cr_finish_reason :: string

record icp_stats =
  ic_called :: int
  ic_fallback :: int
  ic_accepted :: int
  ic_rejected :: int
  ic_helper_positive :: int
  ic_helper_negative :: int
  ic_fallback_accepted :: int
  ic_fallback_rejected :: int

record cascade_stats =
  cs_called :: int
  cs_fallback :: int
  cs_accepted :: int
  cs_rejected :: int
  cs_helper_accepted :: int
  cs_helper_rejected :: int
  cs_fallback_accepted :: int
  cs_fallback_rejected :: int

text \<open>The answer of the helper model of a cascade, with the log probabilities it was asked for.\<close>

record token_logprob =
  tl_token :: "string option"
  tl_logprob :: "rat option"

record first_token =
  ft_self :: token_logprob
  ft_top :: "token_logprob list"

record helper_choice =
  hc_content :: "string option"
  hc_logprobs :: "first_token list option option"

text \<open>Calls of the index service and its answers; \<open>NoReply\<close> is a failed connection.\<close>

datatype meta = MInt int | MData text_or_msgs

record ranked_row =
  rr_metadata :: "meta list"
  rr_score :: "rat option"

datatype icp_limit = TopK "int option" | Thresholds "rat option" "rat option"

datatype icp_post =
    PostBuild string int string "(int \<times> message list) list"
  | PostQuery string int string "string list" icp_limit

datatype icp_reply = Ok "ranked_row list" | Bad int | NoReply

record world =
  w_log :: "event list"
  w_registry :: registry
  w_estimator :: estimator
  w_icp :: icp_stats
  w_cascade :: cascade_stats
  w_delegated :: int
  w_posts :: "icp_post list"

record env =
  ev_tk :: tokenizer
  ev_model :: string
  ev_engine :: "event list \<Rightarrow> int \<Rightarrow> llm_request \<Rightarrow> response res"
  ev_clock :: "event list \<Rightarrow> rat"
  ev_helper :: "string \<Rightarrow> string \<Rightarrow> message list \<Rightarrow> int \<Rightarrow> bool \<Rightarrow> helper_choice list res"
  ev_exp :: "rat \<Rightarrow> rat"
  ev_icp :: "icp_post list \<Rightarrow> icp_post \<Rightarrow> icp_reply"

text \<open>A rational \<open>ev_exp x\<close> is the float \<open>math.exp\<close> returns at \<open>x\<close>.\<close>

type_synonym 'a prog = "(world, 'a) sprog"

section \<open>The executor\<close>

definition owner_key :: "int \<Rightarrow> string" where
  "owner_key rr = str_int rr"

definition build_request :: "env \<Rightarrow> string \<Rightarrow> text_or_msgs \<Rightarrow> int \<Rightarrow> bool \<Rightarrow> int \<Rightarrow> llm_request" where
  "build_request E kind prompt max_tokens pin priority =
     \<lparr>rq_kind = kind, rq_model = ev_model E, rq_prompt = prompt,
      rq_max_tokens = min max_tokens 16384, rq_temperature = 0, rq_seed = 42, rq_top_p = 1,
      rq_frequency_penalty = 1/2, rq_repetition_penalty = 13/10, rq_priority = priority,
      rq_pinned = pin\<rparr>"

text \<open>The call of the engine: the history grows by the request, whatever the answer.\<close>

definition call_engine :: "env \<Rightarrow> int \<Rightarrow> llm_request \<Rightarrow> response prog" where
  "call_engine E rr req w =
     (let answer = ev_engine E (w_log w) rr req
      in (answer, w\<lparr>w_log := w_log w @ [EvRequest rr req answer]\<rparr>))"

definition register_pin :: "env \<Rightarrow> int \<Rightarrow> string \<Rightarrow> int \<Rightarrow> string \<Rightarrow> world \<Rightarrow> world" where
  "register_pin E rr kind max_tokens request_id w =
     w\<lparr>w_registry := registry_add request_id kind max_tokens (Some (owner_key rr))
          (ev_clock E (w_log w)) (w_registry w)\<rparr>"

definition run_request :: "env \<Rightarrow> string \<Rightarrow> int \<Rightarrow> text_or_msgs \<Rightarrow> int \<Rightarrow> bool \<Rightarrow> int \<Rightarrow> completion_result prog" where
  "run_request E kind rr prompt max_tokens pin priority =
     pbind (call_engine E rr (build_request E kind prompt max_tokens pin priority)) (\<lambda>resp.
     pbind (if pin then pmodify (register_pin E rr kind max_tokens (rs_id resp)) else pret ()) (\<lambda>_.
     pret \<lparr>cr_text = rs_text resp, cr_request_id = rs_id resp,
           cr_finish_reason = (case rs_finish resp of None \<Rightarrow> '''' | Some f \<Rightarrow> f)\<rparr>))"

definition chatcomplete :: "env \<Rightarrow> int \<Rightarrow> message list \<Rightarrow> int \<Rightarrow> bool \<Rightarrow> int \<Rightarrow> completion_result prog" where
  "chatcomplete E rr prompt max_tokens pin priority =
     run_request E ''chat'' rr (MsgData prompt) max_tokens pin priority"

definition complete_text :: "env \<Rightarrow> int \<Rightarrow> string \<Rightarrow> int \<Rightarrow> bool \<Rightarrow> int \<Rightarrow> completion_result prog" where
  "complete_text E rr prompt max_tokens pin priority =
     run_request E ''completion'' rr (TextData prompt) max_tokens pin priority"

fun execute :: "env \<Rightarrow> int \<Rightarrow> text_or_msgs \<Rightarrow> int \<Rightarrow> bool \<Rightarrow> int \<Rightarrow> completion_result prog" where
  "execute E rr (TextData s) max_tokens pin priority = complete_text E rr s max_tokens pin priority"
| "execute E rr (MsgData ms) max_tokens pin priority = chatcomplete E rr ms max_tokens pin priority"

definition unpin :: "int \<Rightarrow> string \<Rightarrow> unit prog" where
  "unpin rr request_id =
     pbind (pmodify (\<lambda>w. w\<lparr>w_log := w_log w @ [EvUnpin rr request_id]\<rparr>)) (\<lambda>_.
     pmodify (\<lambda>w. w\<lparr>w_registry := snd (registry_remove request_id (w_registry w))\<rparr>))"

definition abort :: "int \<Rightarrow> string \<Rightarrow> unit prog" where
  "abort rr request_id = pmodify (\<lambda>w. w\<lparr>w_log := w_log w @ [EvAbort rr request_id]\<rparr>)"

section \<open>The registry mirrors the engine\<close>

text \<open>
  The pin and unpin calls the engine has seen, in order: a request sent with the pin flag
  and answered pins its id.
\<close>

fun event_pins :: "event \<Rightarrow> pin_call list" where
  "event_pins (EvRequest rr req (Inr resp)) = (if rq_pinned req then [Pin (rs_id resp)] else [])"
| "event_pins (EvRequest rr req (Inl e)) = []"
| "event_pins (EvUnpin rr i) = [Unpin i]"
| "event_pins (EvAbort rr i) = []"

definition pin_calls :: "world \<Rightarrow> pin_call list" where
  "pin_calls w = concat (map event_pins (w_log w))"

definition mirrored :: "world \<Rightarrow> bool" where
  "mirrored w \<longleftrightarrow> registry_inv (w_registry w) \<and> registry_ids (w_registry w) = held_after (pin_calls w)"

lemma mirrored_tracks: "mirrored w \<longleftrightarrow> reg.tracks (pin_calls w) (w_registry w)"
  by (simp add: mirrored_def reg.tracks_def)

lemma run_request_mirrored [keeps_intros]: "keeps mirrored (run_request E kind rr p mx pin pr)"
  unfolding keeps_def
proof (intro allI impI)
  fix w assume m: "mirrored w"
  let ?req = "build_request E kind p mx pin pr"
  show "mirrored (snd (run_request E kind rr p mx pin pr w))"
  proof (cases "ev_engine E (w_log w) rr ?req")
    case (Inl e)
    with m show ?thesis
      by (simp add: run_request_def pbind_apply call_engine_def Let_def mirrored_def pin_calls_def)
  next
    case (Inr resp)
    show ?thesis
    proof (cases pin)
      case True
      then have "rq_pinned ?req" by (simp add: build_request_def)
      with Inr m True reg.tracks_hold [of "pin_calls w" "w_registry w" "rs_id resp"
          "(kind, mx, Some (owner_key rr), t)" for t] show ?thesis
        by (simp add: mirrored_tracks run_request_def pbind_apply call_engine_def Let_def
            register_pin_def pin_calls_def)
    next
      case False
      then have "\<not> rq_pinned ?req" by (simp add: build_request_def)
      with Inr m False show ?thesis
        by (simp add: run_request_def pbind_apply call_engine_def Let_def mirrored_def pin_calls_def)
    qed
  qed
qed

lemma execute_mirrored [keeps_intros]: "keeps mirrored (execute E rr p mx pin pr)"
  by (cases p) (simp_all add: chatcomplete_def complete_text_def run_request_mirrored)

lemma unpin_mirrored [keeps_intros]: "keeps mirrored (unpin rr i)"
  unfolding keeps_def
proof (intro allI impI)
  fix w assume "mirrored w"
  with reg.tracks_drop [of "pin_calls w" "w_registry w" i] show "mirrored (snd (unpin rr i w))"
    by (simp add: mirrored_tracks unpin_def pbind_apply pin_calls_def)
qed

lemma abort_mirrored [keeps_intros]: "keeps mirrored (abort rr i)"
  by (simp add: keeps_def abort_def mirrored_def pin_calls_def)

end
