(* ===== verification/Sem_Base.thy ===== *)
theory Sem_Base
  imports Executor
begin

text \<open>
  Physical operators: their attributes, their behaviour classes and the common end of every
  operator call (\<open>kalypso/sem_ops/base.py\<close>), with the constructors of the operator classes
  (\<open>filters.py\<close>, \<open>map.py\<close>, \<open>classify.py\<close>, \<open>joins.py\<close>, \<open>reducers.py\<close>). An operator object
  is a value: the attributes of its base class and its class with the attributes of that class.
\<close>

section \<open>Operators\<close>

datatype op_behavior = TUPLE_INDEPENDENT | BLOCKING | JOINING

record cascade_cfg =
  cc_instruction :: string
  cc_model_name :: string
  cc_api_base :: string
  cc_max_tokens :: int
  cc_temperature :: rat
  cc_seed :: int
  cc_low :: "rat option"
  cc_high :: "rat option"

record icp_cfg =
  right_table :: "sem_context list"
  service_address :: string
  service_port :: int
  top_k :: "int option"
  icp_low :: "rat option"
  icp_high :: "rat option"
  cp_id :: string

datatype op_kind =
    SemFilter string int
  | ICPFilter string rat rat int
  | CascadeOperator cascade_cfg
  | SemMap string
  | SemClassify "string list" int string
  | IndexedSearch icp_cfg
  | CartesianProduct "sem_context list"
  | IndexedCartesianProduct icp_cfg
  | SemAgg string int nat
  | SemTopK string int int nat

record phys_op =
  kind :: op_kind
  position :: int
  predicate :: bool
  pin :: bool
  unpin_flag :: bool
  negate :: bool

fun kind_behavior :: "op_kind \<Rightarrow> op_behavior" where
  "kind_behavior (CartesianProduct _) = JOINING"
| "kind_behavior (IndexedCartesianProduct _) = JOINING"
| "kind_behavior (SemAgg _ _ _) = BLOCKING"
| "kind_behavior (SemTopK _ _ _ _) = BLOCKING"
| "kind_behavior _ = TUPLE_INDEPENDENT"

definition behavior :: "phys_op \<Rightarrow> op_behavior" where
  "behavior op = kind_behavior (kind op)"

definition class_str :: "string \<Rightarrow> string" where
  "class_str name = ''<class '' @ sq @ ''vllm.kalypso.sem_ops.'' @ name @ sq @ ''>''"

section \<open>Constructors\<close>

definition base_op :: "op_kind \<Rightarrow> int \<Rightarrow> bool \<Rightarrow> phys_op" where
  "base_op k pos pred =
     \<lparr>kind = k, position = pos, predicate = pred, pin = False, unpin_flag = False, negate = False\<rparr>"

definition sem_filter_init :: "string \<Rightarrow> int \<Rightarrow> int \<Rightarrow> phys_op" where
  "sem_filter_init instruction max_tokens pos = base_op (SemFilter instruction max_tokens) pos True"

definition icp_filter_init ::
  "string \<Rightarrow> rat option \<Rightarrow> rat option \<Rightarrow> int \<Rightarrow> int \<Rightarrow> phys_op res" where
  "icp_filter_init instruction low high max_tokens pos =
     (case (low, high) of
        (Some l, Some h) \<Rightarrow>
          if l > h then Inl ValueError
          else Inr (base_op (ICPFilter instruction l h max_tokens) pos True)
      | _ \<Rightarrow> Inl ValueError)"

text \<open>\<open>a or b or ... or d\<close> on strings: the first that is neither \<open>None\<close> nor empty.\<close>

fun first_truthy :: "string option list \<Rightarrow> string \<Rightarrow> string" where
  "first_truthy [] d = d"
| "first_truthy (Some (c # s) # xs) d = c # s"
| "first_truthy (_ # xs) d = first_truthy xs d"

record environ =
  SEMOPS_CASCADE_MODEL :: "string option"
  SEMOPS_ICP_VLLM_MODEL :: "string option"
  SEMOPS_CASCADE_API_BASE :: "string option"
  SEMOPS_ICP_VLLM_API_BASE :: "string option"
  VLLM_8B_API_BASE :: "string option"

definition cascade_init ::
  "environ \<Rightarrow> string \<Rightarrow> string option \<Rightarrow> string option \<Rightarrow> int option \<Rightarrow> int \<Rightarrow> rat option \<Rightarrow> rat option \<Rightarrow>
   int \<Rightarrow> phys_op res" where
  "cascade_init os instruction model_name api_base api_port max_tokens low high pos =
     (let cfg =
        \<lparr>cc_instruction = instruction,
         cc_model_name = first_truthy [model_name, SEMOPS_CASCADE_MODEL os, SEMOPS_ICP_VLLM_MODEL os]
           ''meta-llama/Llama-3.1-8B-Instruct'',
         cc_api_base = first_truthy
           [api_base, SEMOPS_CASCADE_API_BASE os, SEMOPS_ICP_VLLM_API_BASE os, VLLM_8B_API_BASE os]
           (case api_port of
              Some p \<Rightarrow> ''http://localhost:'' @ str_int p @ ''/v1''
            | None \<Rightarrow> ''http://localhost:8004/v1''),
         cc_max_tokens = max_tokens, cc_temperature = 0, cc_seed = 42,
         cc_low = low, cc_high = high\<rparr>
      in if (low = None) \<noteq> (high = None) then Inl ValueError
         else (case (low, high) of
             (Some l, Some h) \<Rightarrow>
               if l > h then Inl ValueError else Inr (base_op (CascadeOperator cfg) pos True)
           | _ \<Rightarrow> Inr (base_op (CascadeOperator cfg) pos True)))"

definition sem_map_init :: "string \<Rightarrow> int \<Rightarrow> phys_op" where
  "sem_map_init instruction pos = base_op (SemMap instruction) pos False"

definition sem_classify_init :: "tokenizer \<Rightarrow> string list \<Rightarrow> int \<Rightarrow> phys_op res" where
  "sem_classify_init tk classes pos =
     (if classes = [] then Inl ValueError
      else let max_tokens = Max (set (map (\<lambda>g. token_length tk (TextData g)) classes)) + 1;
               instruction = nl @ nl @ ''Choose exactly one class from the list below.'' @ nl @
                 ''Class: '' @ py_join '', '' classes @ nl @ ''Answer with the class name only:''
           in Inr (base_op (SemClassify classes max_tokens instruction) pos False))"

text \<open>\<open>cp_id or f"icp:{position}:{id(self)}"\<close>; \<open>id(self)\<close> is an argument.\<close>

definition icp_config ::
  "sem_context list \<Rightarrow> string \<Rightarrow> int \<Rightarrow> int option \<Rightarrow> rat option \<Rightarrow> rat option \<Rightarrow> string option \<Rightarrow> int \<Rightarrow> int \<Rightarrow> icp_cfg" where
  "icp_config table addr port k low high cpid pos self_id =
     \<lparr>right_table = table, service_address = addr, service_port = port, top_k = k,
      icp_low = low, icp_high = high,
      cp_id = first_truthy [cpid] (''icp:'' @ str_int pos @ '':'' @ str_int self_id)\<rparr>"

definition indexed_search_init :: "icp_cfg \<Rightarrow> int \<Rightarrow> phys_op" where
  "indexed_search_init cfg pos = base_op (IndexedSearch cfg) pos False"

definition cartesian_init :: "sem_context list \<Rightarrow> int \<Rightarrow> phys_op" where
  "cartesian_init table pos = base_op (CartesianProduct table) pos False"

definition indexed_cartesian_init :: "icp_cfg \<Rightarrow> int \<Rightarrow> phys_op" where
  "indexed_cartesian_init cfg pos = base_op (IndexedCartesianProduct cfg) pos False"

definition sem_agg_init :: "string \<Rightarrow> int \<Rightarrow> phys_op" where
  "sem_agg_init instruction pos = base_op (SemAgg instruction 8192 8) pos False"

definition sem_topk_init :: "string \<Rightarrow> int \<Rightarrow> int \<Rightarrow> phys_op" where
  "sem_topk_init instruction k pos = base_op (SemTopK instruction k 5 20) pos False"

lemma behavior_inits [simp]:
  "behavior (sem_filter_init i m p) = TUPLE_INDEPENDENT"
  "behavior (sem_map_init i p) = TUPLE_INDEPENDENT"
  "behavior (indexed_search_init cfg p) = TUPLE_INDEPENDENT"
  "behavior (cartesian_init t p) = JOINING"
  "behavior (indexed_cartesian_init cfg p) = JOINING"
  "behavior (sem_agg_init i p) = BLOCKING"
  "behavior (sem_topk_init i k p) = BLOCKING"
  by (simp_all add: behavior_def base_op_def sem_filter_init_def sem_map_init_def
      indexed_search_init_def cartesian_init_def indexed_cartesian_init_def sem_agg_init_def
      sem_topk_init_def)

section \<open>The end of a call\<close>

text \<open>
  What a call hands to its stage: a verdict, the context itself (which is truthy), or the
  retry signal. The context is returned beside it, since the call mutates it.
\<close>

datatype op_result = Verdict bool | SameCtx | RETRY_TASK

datatype op_output = BoolOut bool | TextOut string

definition predicate_passed :: "phys_op \<Rightarrow> string \<Rightarrow> bool" where
  "predicate_passed op verdict =
     (let passed = \<not> py_in ''false'' (py_lower (py_strip verdict))
      in if negate op then \<not> passed else passed)"

definition output_passed :: "phys_op \<Rightarrow> op_output \<Rightarrow> bool" where
  "output_passed op out = (case out of BoolOut b \<Rightarrow> b | TextOut s \<Rightarrow> predicate_passed op s)"

definition unpin_ctx :: "sem_context \<Rightarrow> sem_context prog" where
  "unpin_ctx ctx =
     (case ctx_pin ctx of
        None \<Rightarrow> pret ctx
      | Some r \<Rightarrow> pbind (unpin (raw_request (state ctx)) r) (\<lambda>_. pret (set_pin None ctx)))"

definition handle_output :: "phys_op \<Rightarrow> sem_context \<Rightarrow> op_output \<Rightarrow> (op_result \<times> sem_context) prog" where
  "handle_output op ctx out =
     (let passed = output_passed op out
      in pbind (if unpin_flag op \<or> \<not> passed then unpin_ctx ctx else pret ctx) (\<lambda>ctx.
         pret (if predicate op then Verdict passed else SameCtx, ctx)))"

lemma unpin_ctx_mirrored [keeps_intros]: "keeps mirrored (unpin_ctx ctx)"
  unfolding unpin_ctx_def by (intro keeps_intros)

lemma handle_output_mirrored [keeps_intros]: "keeps mirrored (handle_output op ctx out)"
  unfolding handle_output_def Let_def by (intro keeps_intros)

text \<open>The effect of the end of a call, spelled out.\<close>

lemma unpin_ctx_total: "\<exists>w'. unpin_ctx ctx w = (Inr (set_pin None ctx), w')"
proof (cases "ctx_pin ctx")
  case None
  then have "set_pin None ctx = ctx" by (cases ctx) (auto simp: set_pin_def)
  with None show ?thesis by (simp add: unpin_ctx_def)
qed (simp add: unpin_ctx_def pbind_apply unpin_def)

lemma handle_output_total:
  "\<exists>w'. handle_output op ctx out w =
     (Inr (if predicate op then Verdict (output_passed op out) else SameCtx,
           if unpin_flag op \<or> \<not> output_passed op out then set_pin None ctx else ctx), w')"
  using unpin_ctx_total [of ctx w] by (auto simp: handle_output_def Let_def)

section \<open>A concrete environment\<close>

text \<open>
  An engine that answers every request with the same text under a fresh id, a tokenizer
  with one token per character and services that do not answer.
\<close>

definition demo_env :: "string \<Rightarrow> env" where
  "demo_env answer =
     \<lparr>ev_tk = \<lparr>tk_encode = map (\<lambda>_. 0), tk_chat_template = (\<lambda>ms. concat (map content ms))\<rparr>,
      ev_model = ''m'',
      ev_engine = (\<lambda>log rr req. Inr \<lparr>rs_id = ''r'' @ nat_digits (length log), rs_text = answer,
                                     rs_finish = Some ''stop''\<rparr>),
      ev_clock = (\<lambda>log. of_nat (length log)),
      ev_helper = (\<lambda>m b ms mx th. Inl RuntimeError), ev_exp = (\<lambda>x. 1 / 2),
      ev_icp = (\<lambda>posts p. NoReply)\<rparr>"

definition demo_world :: world where
  "demo_world =
     \<lparr>w_log = [], w_registry = [], w_estimator = [],
      w_icp = \<lparr>ic_called = 0, ic_fallback = 0, ic_accepted = 0, ic_rejected = 0,
        ic_helper_positive = 0, ic_helper_negative = 0, ic_fallback_accepted = 0,
        ic_fallback_rejected = 0\<rparr>,
      w_cascade = \<lparr>cs_called = 0, cs_fallback = 0, cs_accepted = 0, cs_rejected = 0,
        cs_helper_accepted = 0, cs_helper_rejected = 0, cs_fallback_accepted = 0,
        cs_fallback_rejected = 0\<rparr>,
      w_delegated = 0, w_posts = []\<rparr>"

definition demo_ctx :: sem_context where
  "demo_ctx = \<lparr>inp = semantic_input (TextData ''a claim'') 2 [], outputs = [], state = execution_state 1\<rparr>"

lemma demo_ctx_ok: "ctx_ok demo_ctx"
  by (simp add: demo_ctx_def ctx_ok_def semantic_input_def)

lemma demo_world_mirrored: "mirrored demo_world"
  by (simp add: mirrored_def demo_world_def pin_calls_def)

lemma demo_execute [simp]:
  "fst (execute (demo_env answer) rr p mx b pr w) =
     Inr \<lparr>cr_text = answer, cr_request_id = ''r'' @ nat_digits (length (w_log w)), cr_finish_reason = ''stop''\<rparr>"
  by (cases p) (auto simp: chatcomplete_def complete_text_def run_request_def pbind_apply
      call_engine_def Let_def demo_env_def)

lemma demo_ctx_simps [simp]:
  "ctx_pin demo_ctx = None" "right_data (inp demo_ctx) = []" "raw_request (state demo_ctx) = 1"
  "retry_op_position (state demo_ctx) = -1" "helper_score (state demo_ctx) = None"
  "outputs demo_ctx = []"
  by (simp_all add: demo_ctx_def execution_state_def semantic_input_def)

end
