(* ===== verification/Sem_Filters.thy ===== *)
theory Sem_Filters
  imports Sem_Base
begin

text \<open>
  The predicate operators (\<open>kalypso/sem_ops/filters.py\<close>): \<open>SemFilter\<close> asks the main model,
  \<open>ICPFilter\<close> decides by the retrieval score outside two thresholds and asks the main model
  between them, and \<open>CascadeOperator\<close> asks a helper model first and falls back to the main
  model when the helper's probability lies between two thresholds.
\<close>

section \<open>SemFilter\<close>

text \<open>The data part and the full prompt; a joined context asks the join question.\<close>

definition build_prompts :: "string \<Rightarrow> sem_context \<Rightarrow> (message list \<times> message list) res" where
  "build_prompts instruction ctx =
     (if right_data (inp ctx) \<noteq> []
      then let joined = ctx_data ctx @ right_data (inp ctx)
           in rbind (with_system joined) (\<lambda>dp.
              rbind (get_prompt instruction joined SEM_JOIN) (\<lambda>fp. Inr (dp, fp)))
      else rbind (with_system (ctx_data ctx)) (\<lambda>dp.
           rbind (get_prompt instruction (ctx_data ctx) SEM_FILTER) (\<lambda>fp. Inr (dp, fp))))"

definition prompt_tokens :: "tokenizer \<Rightarrow> message list \<Rightarrow> int" where
  "prompt_tokens tk prompt = token_length tk (TextData (apply_chat_template tk prompt))"

definition filter_estimate_tokens :: "env \<Rightarrow> string \<Rightarrow> int \<Rightarrow> sem_context \<Rightarrow> int res" where
  "filter_estimate_tokens E instruction max_tokens ctx =
     rbind (build_prompts instruction ctx) (\<lambda>(_, prompt).
       Inr (prompt_tokens (ev_tk E) prompt + max_tokens))"

definition clear_right :: "sem_context \<Rightarrow> sem_context" where
  "clear_right ctx = (if right_data (inp ctx) \<noteq> [] then set_right [] ctx else ctx)"

definition filter_run_single ::
  "env \<Rightarrow> phys_op \<Rightarrow> string \<Rightarrow> int \<Rightarrow> int \<Rightarrow> sem_context \<Rightarrow> (op_result \<times> sem_context) prog" where
  "filter_run_single E op instruction max_tokens priority ctx =
     pbind (plift (build_prompts instruction ctx)) (\<lambda>(_, prompt).
     pbind (execute E (raw_request (state ctx)) (MsgData prompt) max_tokens (pin op) priority) (\<lambda>out.
       let ctx = (if pin op then set_pin (Some (cr_request_id out)) ctx else ctx);
           verdict = py_lower (py_strip (cr_text out));
           ctx = add_output (OutText (class_str ''filters.SemFilter'') verdict)
                   (clear_right (set_data (butlast prompt) ctx))
       in handle_output op ctx (TextOut verdict)))"

section \<open>ICPFilter\<close>

definition icp_reset_stats :: "icp_stats \<Rightarrow> icp_stats" where
  "icp_reset_stats s =
     \<lparr>ic_called = 0, ic_fallback = 0, ic_accepted = 0, ic_rejected = 0, ic_helper_positive = 0,
      ic_helper_negative = 0, ic_fallback_accepted = 0, ic_fallback_rejected = 0\<rparr>"

definition icp_record :: "string \<Rightarrow> bool \<Rightarrow> icp_stats \<Rightarrow> icp_stats" where
  "icp_record resolved_by passed s =
     (let s = s\<lparr>ic_called := ic_called s + 1\<rparr>;
          s = (if passed then s\<lparr>ic_accepted := ic_accepted s + 1\<rparr>
               else s\<lparr>ic_rejected := ic_rejected s + 1\<rparr>)
      in if resolved_by = ''icp_helper_positive''
         then s\<lparr>ic_helper_positive := ic_helper_positive s + 1\<rparr>
         else if resolved_by = ''icp_helper_negative''
         then s\<lparr>ic_helper_negative := ic_helper_negative s + 1\<rparr>
         else if resolved_by = ''icp_oracle_fallback''
         then let s = s\<lparr>ic_fallback := ic_fallback s + 1\<rparr>
              in if passed then s\<lparr>ic_fallback_accepted := ic_fallback_accepted s + 1\<rparr>
                 else s\<lparr>ic_fallback_rejected := ic_fallback_rejected s + 1\<rparr>
         else s)"

text \<open>The oracle inside an \<open>ICPFilter\<close> is a fresh \<open>SemFilter\<close> without pin flags.\<close>

definition icp_oracle :: "phys_op \<Rightarrow> string \<Rightarrow> int \<Rightarrow> phys_op" where
  "icp_oracle op instruction max_tokens = sem_filter_init instruction max_tokens (position op)"

definition icp_estimate_tokens :: "env \<Rightarrow> string \<Rightarrow> rat \<Rightarrow> rat \<Rightarrow> int \<Rightarrow> sem_context \<Rightarrow> int res" where
  "icp_estimate_tokens E instruction low high max_tokens ctx =
     (case helper_score (state ctx) of
        Some score \<Rightarrow>
          if score \<ge> high \<or> score \<le> low then Inr 1
          else filter_estimate_tokens E instruction max_tokens ctx
      | None \<Rightarrow> filter_estimate_tokens E instruction max_tokens ctx)"

definition icp_finish ::
  "phys_op \<Rightarrow> string \<Rightarrow> rat \<Rightarrow> bool \<Rightarrow> sem_context \<Rightarrow> (op_result \<times> sem_context) prog" where
  "icp_finish op resolved_by score passed ctx =
     pbind (pmodify (\<lambda>w. w\<lparr>w_icp := icp_record resolved_by passed (w_icp w)\<rparr>)) (\<lambda>_.
       handle_output op
         (add_output (OutHelper (class_str ''filters.ICPFilter'') resolved_by score) ctx)
         (BoolOut passed))"

definition icp_filter_call ::
  "env \<Rightarrow> phys_op \<Rightarrow> string \<Rightarrow> rat \<Rightarrow> rat \<Rightarrow> int \<Rightarrow> int \<Rightarrow> sem_context \<Rightarrow> (op_result \<times> sem_context) prog" where
  "icp_filter_call E op instruction low high max_tokens priority ctx =
     (case helper_score (state ctx) of
        None \<Rightarrow> praise ValueError
      | Some score \<Rightarrow>
          if score \<ge> high then icp_finish op ''icp_helper_positive'' score True ctx
          else if score \<le> low then icp_finish op ''icp_helper_negative'' score False ctx
          else pbind (filter_run_single E (icp_oracle op instruction max_tokens) instruction max_tokens
                        priority ctx) (\<lambda>(r, ctx).
               icp_finish op ''icp_oracle_fallback'' score (r = Verdict True) ctx))"

section \<open>CascadeOperator\<close>

definition cascade_reset_stats :: "cascade_stats \<Rightarrow> cascade_stats" where
  "cascade_reset_stats s =
     \<lparr>cs_called = 0, cs_fallback = 0, cs_accepted = 0, cs_rejected = 0, cs_helper_accepted = 0,
      cs_helper_rejected = 0, cs_fallback_accepted = 0, cs_fallback_rejected = 0\<rparr>"

definition cascade_record :: "string \<Rightarrow> bool \<Rightarrow> cascade_stats \<Rightarrow> cascade_stats" where
  "cascade_record resolved_by passed s =
     (let s = s\<lparr>cs_called := cs_called s + 1\<rparr>;
          s = (if passed then s\<lparr>cs_accepted := cs_accepted s + 1\<rparr>
               else s\<lparr>cs_rejected := cs_rejected s + 1\<rparr>)
      in if resolved_by = ''main''
         then let s = s\<lparr>cs_fallback := cs_fallback s + 1\<rparr>
              in if passed then s\<lparr>cs_fallback_accepted := cs_fallback_accepted s + 1\<rparr>
                 else s\<lparr>cs_fallback_rejected := cs_fallback_rejected s + 1\<rparr>
         else if passed then s\<lparr>cs_helper_accepted := cs_helper_accepted s + 1\<rparr>
         else s\<lparr>cs_helper_rejected := cs_helper_rejected s + 1\<rparr>)"

text \<open>The two markers of a word start, as UTF-8 bytes: U+0120 and U+2581.\<close>

fun py_replace :: "string \<Rightarrow> string \<Rightarrow> nat \<Rightarrow> string \<Rightarrow> string" where
  "py_replace old new skip [] = []"
| "py_replace old new (Suc k) (c # s) = py_replace old new k s"
| "py_replace old new 0 (c # s) =
     (if take (length old) (c # s) = old then new @ py_replace old new (length old - 1) s
      else c # py_replace old new 0 s)"

definition normalize_logprob_token :: "string option \<Rightarrow> string" where
  "normalize_logprob_token t =
     (case t of
        None \<Rightarrow> ''''
      | Some s \<Rightarrow> py_lower (py_strip (py_replace [CHR 0xE2, CHR 0x96, CHR 0x81] '' '' 0
                   (py_replace [CHR 0xC4, CHR 0xA0] '' '' 0 s))))"

record helper_probs =
  hp_top_token :: string
  hp_top_prob :: "rat option"
  hp_true_prob :: rat
  hp_false_prob :: rat

definition add_prob :: "env \<Rightarrow> token_logprob \<Rightarrow> (string, rat) dict \<Rightarrow> (string, rat) dict" where
  "add_prob E item probs =
     (let token = normalize_logprob_token (tl_token item) in
      case tl_logprob item of
        Some lp \<Rightarrow>
          if token = ''true'' \<or> token = ''false''
          then AList.update token (max (dget probs token 0) (ev_exp E lp)) probs
          else probs
      | None \<Rightarrow> probs)"

definition extract_first_token_probs :: "env \<Rightarrow> helper_choice list \<Rightarrow> helper_probs option" where
  "extract_first_token_probs E choices =
     (case choices of
        [] \<Rightarrow> None
      | choice # _ \<Rightarrow>
          (case hc_logprobs choice of
             Some (Some (first # _)) \<Rightarrow>
               (let items = ft_top first @ (if tl_token (ft_self first) \<noteq> None then [ft_self first] else []);
                    probs = fold (add_prob E) items [];
                    true_prob = dget probs ''true'' 0;
                    false_prob = dget probs ''false'' 0;
                    normalized = (if true_prob > 0 \<and> false_prob > 0
                                  then true_prob / (true_prob + false_prob) else true_prob)
                in Some \<lparr>hp_top_token = normalize_logprob_token (tl_token (ft_self first)),
                         hp_top_prob = map_option (ev_exp E) (tl_logprob (ft_self first)),
                         hp_true_prob = normalized, hp_false_prob = false_prob\<rparr>)
           | _ \<Rightarrow> None))"

definition call_vllm :: "env \<Rightarrow> cascade_cfg \<Rightarrow> message list \<Rightarrow> (string \<times> helper_probs option) res" where
  "call_vllm E cfg messages =
     (let use_thresholds = cc_low cfg \<noteq> None \<and> cc_high cfg \<noteq> None
      in rbind (ev_helper E (''hosted_vllm/'' @ cc_model_name cfg) (cc_api_base cfg) messages
                 (cc_max_tokens cfg) use_thresholds) (\<lambda>choices.
         case choices of
           [] \<Rightarrow> Inr ('''', None)
         | choice # _ \<Rightarrow>
             Inr (case hc_content choice of None \<Rightarrow> '''' | Some c \<Rightarrow> c,
                  if use_thresholds then extract_first_token_probs E choices else None)))"

definition fallback_to_main ::
  "env \<Rightarrow> phys_op \<Rightarrow> cascade_cfg \<Rightarrow> message list \<Rightarrow> int \<Rightarrow> sem_context \<Rightarrow> (string \<times> sem_context) prog" where
  "fallback_to_main E op cfg prompt priority ctx =
     pbind (pmodify (\<lambda>w. w\<lparr>w_delegated := w_delegated w + 1\<rparr>)) (\<lambda>_.
     pbind (execute E (raw_request (state ctx)) (MsgData prompt) (cc_max_tokens cfg) (pin op) priority) (\<lambda>out.
     pret (py_lower (py_strip (cr_text out)),
           if pin op then set_pin (Some (cr_request_id out)) ctx else ctx)))"

text \<open>
  \<open>None\<close> when the helper gives no usable answer; otherwise the decision, if any, and the
  probability of a positive answer.
\<close>

definition resolve_with_thresholds ::
  "cascade_cfg \<Rightarrow> helper_probs option \<Rightarrow> (bool option \<times> rat) option" where
  "resolve_with_thresholds cfg probs =
     (case (cc_low cfg, cc_high cfg, probs) of
        (Some low, Some high, Some hp) \<Rightarrow>
          if hp_top_token hp \<noteq> ''true'' \<and> hp_top_token hp \<noteq> ''false'' then None
          else if hp_true_prob hp \<ge> high then Some (Some True, hp_true_prob hp)
          else if hp_true_prob hp \<le> low then Some (Some False, hp_true_prob hp)
          else Some (None, hp_true_prob hp)
      | _ \<Rightarrow> None)"

definition cascade_finish ::
  "phys_op \<Rightarrow> message list \<Rightarrow> string \<Rightarrow> bool \<Rightarrow> string \<Rightarrow> rat option \<Rightarrow> sem_context \<Rightarrow>
   (op_result \<times> sem_context) prog" where
  "cascade_finish op prompt verdict passed resolved_by positive_prob ctx =
     (let ctx = clear_right (set_data (butlast prompt) ctx);
          passed = (if negate op then \<not> passed else passed)
      in pbind (pmodify (\<lambda>w. w\<lparr>w_cascade := cascade_record resolved_by passed (w_cascade w)\<rparr>)) (\<lambda>_.
         pbind (pget w_delegated) (\<lambda>n.
         handle_output op (add_output (OutCascade verdict resolved_by positive_prob n) ctx)
           (BoolOut passed))))"

definition cascade_call ::
  "env \<Rightarrow> phys_op \<Rightarrow> cascade_cfg \<Rightarrow> int \<Rightarrow> sem_context \<Rightarrow> (op_result \<times> sem_context) prog" where
  "cascade_call E op cfg priority ctx =
     pbind (plift (build_prompts (cc_instruction cfg) ctx)) (\<lambda>(_, prompt).
     pbind (plift (call_vllm E cfg prompt)) (\<lambda>(text, probs).
       let verdict = py_lower (py_strip text) in
       if cc_low cfg = None \<and> cc_high cfg = None
       then cascade_finish op prompt verdict (\<not> py_in ''false'' verdict) ''helper'' None ctx
       else case resolve_with_thresholds cfg probs of
           Some (Some passed, p) \<Rightarrow> cascade_finish op prompt verdict passed ''helper'' (Some p) ctx
         | resolved \<Rightarrow>
             pbind (fallback_to_main E op cfg prompt priority ctx) (\<lambda>(verdict, ctx).
               cascade_finish op prompt verdict (\<not> py_in ''false'' verdict) ''main''
                 (map_option snd resolved) ctx)))"

definition cascade_estimate_tokens :: "env \<Rightarrow> cascade_cfg \<Rightarrow> sem_context \<Rightarrow> int res" where
  "cascade_estimate_tokens E cfg ctx =
     filter_estimate_tokens E (cc_instruction cfg) (cc_max_tokens cfg) ctx"

section \<open>Pins\<close>

lemmas keeps_lets = Let_def case_prod_unfold

lemma filter_run_single_mirrored [keeps_intros]:
  "keeps mirrored (filter_run_single E op i mx pr ctx)"
  unfolding filter_run_single_def Let_def by (intro keeps_intros)

lemma keeps_stats [keeps_intros]:
  "keeps mirrored (pmodify (\<lambda>w. w\<lparr>w_icp := f w\<rparr>))"
  "keeps mirrored (pmodify (\<lambda>w. w\<lparr>w_cascade := g w\<rparr>))"
  "keeps mirrored (pmodify (\<lambda>w. w\<lparr>w_delegated := h w\<rparr>))"
  "keeps mirrored (pmodify (\<lambda>w. w\<lparr>w_estimator := k w\<rparr>))"
  "keeps mirrored (pmodify (\<lambda>w. w\<lparr>w_posts := l w\<rparr>))"
  by (simp_all add: keeps_def mirrored_def pin_calls_def)

lemma icp_filter_mirrored [keeps_intros]:
  "keeps mirrored (icp_filter_call E op i low high mx pr ctx)"
  unfolding icp_filter_call_def icp_finish_def by (intro keeps_intros)

lemma cascade_mirrored [keeps_intros]: "keeps mirrored (cascade_call E op cfg pr ctx)"
  unfolding cascade_call_def cascade_finish_def fallback_to_main_def Let_def
  by (intro keeps_intros)

section \<open>Prompts and contexts\<close>

lemma build_prompts_ok:
  assumes "ctx_ok ctx"
  shows "\<exists>t. build_prompts i ctx = Inr (sysd (joined_data ctx), sysd (joined_data ctx) @ [t]) \<and> \<not> is_system t"
proof -
  have wf: "data_wf (joined_data ctx)" using assms by (rule ctx_ok_joined)
  obtain t where t: "get_prompt i (joined_data ctx) SEM_JOIN = Inr (sysd (joined_data ctx) @ [t])" "\<not> is_system t"
    using get_prompt_sysd [OF wf, of SEM_JOIN i] by auto
  obtain u where u: "get_prompt i (joined_data ctx) SEM_FILTER = Inr (sysd (joined_data ctx) @ [u])" "\<not> is_system u"
    using get_prompt_sysd [OF wf, of SEM_FILTER i] by auto
  show ?thesis
    using t u with_system_sysd [OF wf]
    by (cases "right_data (inp ctx) = []") (simp_all add: build_prompts_def Let_def joined_data_def)
qed

text \<open>The context after a predicate: the data is what was shown, the right side is consumed.\<close>

lemma shown_ctx:
  assumes "ctx_ok ctx"
  shows "ctx_ok (clear_right (set_data (sysd (joined_data ctx)) ctx))"
    "continues ctx (clear_right (set_data (sysd (joined_data ctx)) ctx))"
    "right_data (inp (clear_right (set_data d ctx))) = []"
proof -
  have wf: "sys_wf (sysd (joined_data ctx))" using assms by (intro sys_wf_sysd ctx_ok_joined)
  have ne: "ctx_data ctx \<noteq> []" using assms by (auto simp: ctx_ok_def)
  show r: "right_data (inp (clear_right (set_data d ctx))) = []" for d
    by (simp add: clear_right_def)
  have d: "ctx_data (clear_right (set_data d ctx)) = d" for d
    by (simp add: clear_right_def)
  show "ctx_ok (clear_right (set_data (sysd (joined_data ctx)) ctx))"
    using wf by (simp add: ctx_ok_def r d sys_wf_data)
  show "continues ctx (clear_right (set_data (sysd (joined_data ctx)) ctx))"
    unfolding continues_def d sysd_sys [OF wf] unfolding joined_data_def by (rule sysd_prefix [OF ne])
qed

lemma clear_right_commutes [simp]:
  "clear_right (set_data d (set_pin p c)) = set_pin p (clear_right (set_data d c))"
  by (simp add: clear_right_def set_data_def set_pin_def set_right_def)

lemma handle_output_result:
  assumes "handle_output op ctx out w = (Inr (r, ctx'), w')"
  shows "r = (if predicate op then Verdict (output_passed op out) else SameCtx)"
    "ctx' = (if unpin_flag op \<or> \<not> output_passed op out then set_pin None ctx else ctx)"
  using assms handle_output_total [of op ctx out w] by auto

definition good_step :: "sem_context \<Rightarrow> (op_result \<times> sem_context) res \<times> world \<Rightarrow> bool" where
  "good_step ctx out \<longleftrightarrow> (case fst out of Inl e \<Rightarrow> True | Inr (r, ctx') \<Rightarrow> ctx_ok ctx' \<and> continues ctx ctx')"

lemma good_step_handle:
  "ctx_ok c \<Longrightarrow> continues ctx c \<Longrightarrow> good_step ctx (handle_output op c out w)"
  using handle_output_total [of op c out w] by (auto simp: good_step_def)

lemma good_step_bind:
  assumes "\<And>a w'. p w = (Inr a, w') \<Longrightarrow> good_step ctx (f a w')"
  shows "good_step ctx (pbind p f w)"
  using assms by (auto simp: pbind_def good_step_def split: prod.splits sum.splits)

lemma filter_good:
  assumes "ctx_ok ctx"
  shows "good_step ctx (filter_run_single E op i mx pr ctx w)"
proof -
  obtain t where b: "build_prompts i ctx = Inr (sysd (joined_data ctx), sysd (joined_data ctx) @ [t])"
    using build_prompts_ok [OF assms] by blast
  show ?thesis
    unfolding filter_run_single_def b Let_def
    using shown_ctx [OF assms]
    by (intro good_step_bind) (auto intro!: good_step_bind good_step_handle)
qed

lemma icp_finish_good:
  "ctx_ok c \<Longrightarrow> continues ctx c \<Longrightarrow> good_step ctx (icp_finish op rb sc b c w)"
  unfolding icp_finish_def by (intro good_step_bind good_step_handle) simp_all

lemma good_step_Inr:
  "good_step ctx out \<Longrightarrow> out = (Inr (r, c), w') \<Longrightarrow> ctx_ok c \<and> continues ctx c"
  by (simp add: good_step_def)

lemma good_step_Inl [simp]: "good_step ctx (Inl e, w)"
  by (simp add: good_step_def)

lemma icp_good:
  assumes "ctx_ok ctx"
  shows "good_step ctx (icp_filter_call E op i low high mx pr ctx w)"
  unfolding icp_filter_call_def
  using assms good_step_Inr [OF filter_good [OF assms]]
  by (auto intro!: icp_finish_good good_step_bind split: option.split)

lemma cascade_finish_good:
  assumes "ctx_ok c" "ctx_data c = ctx_data ctx" "inp c = inp ctx"
  shows "good_step ctx (cascade_finish op (sysd (joined_data ctx) @ [t]) v b rb p c w)"
proof -
  have j: "joined_data ctx = joined_data c" using assms by (simp add: joined_data_def)
  have "continues ctx (clear_right (set_data (sysd (joined_data c)) c))"
    using shown_ctx(2) [OF assms(1)] assms(2) by (simp add: continues_def)
  with shown_ctx(1) [OF assms(1)] show ?thesis
    unfolding cascade_finish_def Let_def j by (intro good_step_bind good_step_handle) auto
qed

lemma fallback_ctx:
  "fallback_to_main E op cfg pr prio ctx w = (Inr (v, c), w') \<Longrightarrow> \<exists>p. c = set_pin p ctx \<or> c = ctx"
  by (auto simp: fallback_to_main_def py_simps split: if_splits)

lemma cascade_good:
  assumes "ctx_ok ctx"
  shows "good_step ctx (cascade_call E op cfg pr ctx w)"
proof -
  obtain t where b: "build_prompts (cc_instruction cfg) ctx =
      Inr (sysd (joined_data ctx), sysd (joined_data ctx) @ [t])"
    using build_prompts_ok [OF assms] by blast
  have fb: "ctx_ok c \<and> ctx_data c = ctx_data ctx \<and> inp c = inp ctx"
    if "fallback_to_main E op cfg q prio ctx w = (Inr (v, c), w')" for q prio w v c w'
    using fallback_ctx [OF that] assms by (auto simp: set_pin_def ctx_ok_def)
  show ?thesis
    unfolding cascade_call_def b Let_def
    by (auto intro!: good_step_bind cascade_finish_good assms dest: fb split: option.split)
qed

end
