(* ===== verification/Sem_Map.thy ===== *)
theory Sem_Map
  imports Sem_Filters
begin

text \<open>
  The generating operators: \<open>SemMap\<close> (\<open>kalypso/sem_ops/map.py\<close>) with its retry at the full
  token limit, and \<open>SemClassify\<close> (\<open>kalypso/sem_ops/classify.py\<close>).
\<close>

section \<open>SemMap\<close>

definition MAX_TOKEN_LIMIT :: int where
  "MAX_TOKEN_LIMIT = 8192"

definition planned_max_tokens :: "estimator \<Rightarrow> phys_op \<Rightarrow> sem_context \<Rightarrow> int \<Rightarrow> int" where
  "planned_max_tokens est op ctx prompt_token_len =
     (if retry_op_position (state ctx) = position op \<and> retry_max_tokens (state ctx) > 0
      then retry_max_tokens (state ctx)
      else case get_ratio est (position op) 95 of
          None \<Rightarrow> prompt_token_len
        | Some ratio \<Rightarrow>
            if ratio \<noteq> 0 then py_int (ratio * of_int prompt_token_len) else prompt_token_len)"

definition map_build_prompt :: "string \<Rightarrow> sem_context \<Rightarrow> message list res" where
  "map_build_prompt instruction ctx = get_prompt instruction (ctx_data ctx) SEM_MAP"

definition map_estimate_tokens :: "env \<Rightarrow> estimator \<Rightarrow> phys_op \<Rightarrow> string \<Rightarrow> sem_context \<Rightarrow> int res" where
  "map_estimate_tokens E est op instruction ctx =
     rbind (map_build_prompt instruction ctx) (\<lambda>prompt.
       let n = prompt_tokens (ev_tk E) prompt in Inr (n + planned_max_tokens est op ctx n))"

definition set_retry :: "int \<Rightarrow> int \<Rightarrow> sem_context \<Rightarrow> sem_context" where
  "set_retry pos mx ctx =
     ctx\<lparr>state := state ctx\<lparr>retry_op_position := pos, retry_max_tokens := mx\<rparr>\<rparr>"

text \<open>Drop an older pin of the same context when it is not the new request itself.\<close>

definition unpin_previous :: "int \<Rightarrow> string option \<Rightarrow> string \<Rightarrow> unit prog" where
  "unpin_previous rr previous request_id =
     (case previous of
        Some p \<Rightarrow> if p \<noteq> request_id then unpin rr p else pret ()
      | None \<Rightarrow> pret ())"

definition map_retry ::
  "phys_op \<Rightarrow> string option \<Rightarrow> completion_result \<Rightarrow> sem_context \<Rightarrow> (op_result \<times> sem_context) prog" where
  "map_retry op previous out ctx =
     pbind (if pin op
            then pbind (unpin (raw_request (state ctx)) (cr_request_id out)) (\<lambda>_.
                 pbind (unpin_previous (raw_request (state ctx)) previous (cr_request_id out)) (\<lambda>_.
                 pret (set_pin None ctx)))
            else pret ctx) (\<lambda>ctx.
     pret (RETRY_TASK, set_retry (position op) MAX_TOKEN_LIMIT ctx))"

definition map_finish_pin ::
  "phys_op \<Rightarrow> string option \<Rightarrow> completion_result \<Rightarrow> sem_context \<Rightarrow> sem_context prog" where
  "map_finish_pin op previous out ctx =
     (if pin op
      then pbind (unpin_previous (raw_request (state ctx)) previous (cr_request_id out)) (\<lambda>_.
           pret (set_pin (Some (cr_request_id out)) ctx))
      else if unpin_flag op \<and> ctx_pin ctx \<noteq> None \<and> ctx_pin ctx \<noteq> Some ''''
      then unpin_ctx ctx
      else pret ctx)"

definition map_success ::
  "env \<Rightarrow> phys_op \<Rightarrow> string option \<Rightarrow> message list \<Rightarrow> int \<Rightarrow> completion_result \<Rightarrow> sem_context \<Rightarrow>
   (op_result \<times> sem_context) prog" where
  "map_success E op previous prompt input_len out ctx =
     (let ctx = (if retry_op_position (state ctx) = position op then set_retry (-1) 0 ctx else ctx);
          (appended, appended_str) = add_assistant_prompt (ev_tk E) prompt (cr_text out);
          ctx = set_data appended ctx
      in pbind (pmodify (\<lambda>w. w\<lparr>w_estimator := estimator_update (w_estimator w) (position op) input_len
               (token_length (ev_tk E) (TextData appended_str) - input_len)\<rparr>)) (\<lambda>_.
         pbind (map_finish_pin op previous out
                  (add_output (OutText (class_str ''map.SemMap'') (cr_text out)) ctx)) (\<lambda>ctx.
         pret (SameCtx, ctx))))"

definition map_run_single ::
  "env \<Rightarrow> phys_op \<Rightarrow> string \<Rightarrow> int \<Rightarrow> sem_context \<Rightarrow> (op_result \<times> sem_context) prog" where
  "map_run_single E op instruction priority ctx =
     (let previous = (if pin op then ctx_pin ctx else None) in
      pbind (plift (map_build_prompt instruction ctx)) (\<lambda>prompt.
      let input_len = prompt_tokens (ev_tk E) prompt in
      pbind (pget (\<lambda>w. planned_max_tokens (w_estimator w) op ctx input_len)) (\<lambda>max_tokens.
      pbind (execute E (raw_request (state ctx)) (MsgData prompt) max_tokens (pin op) priority) (\<lambda>out.
      if cr_finish_reason out = ''length'' \<and> max_tokens < MAX_TOKEN_LIMIT
      then map_retry op previous out ctx
      else map_success E op previous prompt input_len out ctx))))"

text \<open>\<open>result.output[-1].get(str(self.__class__), "")\<close>\<close>

definition map_last_text :: "sem_context \<Rightarrow> string" where
  "map_last_text ctx =
     (if outputs ctx = [] then ''''
      else case last (outputs ctx) of
          OutText c t \<Rightarrow> if c = class_str ''map.SemMap'' then t else ''''
        | _ \<Rightarrow> '''')"

definition map_call ::
  "env \<Rightarrow> phys_op \<Rightarrow> string \<Rightarrow> int \<Rightarrow> sem_context \<Rightarrow> (op_result \<times> sem_context) prog" where
  "map_call E op instruction priority ctx =
     pbind (map_run_single E op instruction priority ctx) (\<lambda>(r, ctx).
       if r = RETRY_TASK then pret (RETRY_TASK, ctx)
       else handle_output op ctx (TextOut (map_last_text ctx)))"

text \<open>The blocking mode runs the operator until it is not asked to retry: \<open>None\<close> if it never ends.\<close>

partial_function (option) map_run_blocking_single ::
  "env \<Rightarrow> phys_op \<Rightarrow> string \<Rightarrow> sem_context \<Rightarrow> world \<Rightarrow> ((op_result \<times> sem_context) res \<times> world) option" where
  "map_run_blocking_single E op instruction ctx w =
     (case map_run_single E op instruction 0 ctx w of
        (r, w') \<Rightarrow>
          (case r of
             Inl e \<Rightarrow> Some (Inl e, w')
           | Inr p \<Rightarrow>
               if fst p = RETRY_TASK then map_run_blocking_single E op instruction (snd p) w'
               else Some (Inr p, w')))"

declare map_run_blocking_single.simps [code]

section \<open>SemClassify\<close>

definition classify_build_prompts :: "string \<Rightarrow> sem_context \<Rightarrow> (message list \<times> message list) res" where
  "classify_build_prompts instruction ctx =
     rbind (with_system (ctx_data ctx)) (\<lambda>dp.
     rbind (get_prompt instruction (ctx_data ctx) SEM_FILTER) (\<lambda>fp. Inr (dp, fp)))"

definition classify_estimate_tokens :: "env \<Rightarrow> string \<Rightarrow> int \<Rightarrow> sem_context \<Rightarrow> int res" where
  "classify_estimate_tokens E instruction max_tokens ctx =
     rbind (classify_build_prompts instruction ctx) (\<lambda>(_, prompt).
       Inr (prompt_tokens (ev_tk E) prompt + max_tokens))"

text \<open>The first class whose name occurs in the answer, or the empty string.\<close>

definition pick_class :: "string list \<Rightarrow> string \<Rightarrow> string" where
  "pick_class classes answer =
     (case find (\<lambda>g. py_in (py_lower g) answer) classes of None \<Rightarrow> '''' | Some g \<Rightarrow> g)"

definition classify_call ::
  "env \<Rightarrow> phys_op \<Rightarrow> string list \<Rightarrow> int \<Rightarrow> string \<Rightarrow> int \<Rightarrow> sem_context \<Rightarrow> (op_result \<times> sem_context) prog" where
  "classify_call E op classes max_tokens instruction priority ctx =
     pbind (plift (classify_build_prompts instruction ctx)) (\<lambda>(data_part, prompt).
     pbind (execute E (raw_request (state ctx)) (MsgData data_part) 1 (pin op) priority) (\<lambda>data_result.
     pbind (execute E (raw_request (state ctx)) (MsgData prompt) max_tokens False priority) (\<lambda>out.
       let answer = py_lower (py_strip (cr_text out));
           ctx = add_output (OutText (class_str ''classify.SemClassify'') (pick_class classes answer))
                   (set_data (butlast prompt) ctx)
       in pbind (if pin op then pret (set_pin (Some (cr_request_id data_result)) ctx)
                 else if unpin_flag op then unpin_ctx ctx else pret ctx) (\<lambda>ctx.
          handle_output op ctx (TextOut answer)))))"

section \<open>Pins and contexts\<close>

lemma unpin_previous_mirrored [keeps_intros]: "keeps mirrored (unpin_previous rr p r)"
  unfolding unpin_previous_def by (intro keeps_intros)

lemma map_run_single_mirrored [keeps_intros]: "keeps mirrored (map_run_single E op i pr ctx)"
  unfolding map_run_single_def Let_def map_retry_def map_success_def map_finish_pin_def by (intro keeps_intros)

lemma map_call_mirrored [keeps_intros]: "keeps mirrored (map_call E op i pr ctx)"
  unfolding map_call_def by (intro keeps_intros)

lemma classify_mirrored [keeps_intros]: "keeps mirrored (classify_call E op cl mx i pr ctx)"
  unfolding classify_call_def Let_def by (intro keeps_intros)

lemma ctx_ok_retry [simp]:
  "ctx_ok (set_retry p m c) = ctx_ok c" "continues a (set_retry p m c) = continues a c"
  "ctx_data (set_retry p m c) = ctx_data c" "right_data (inp (set_retry p m c)) = right_data (inp c)"
  by (simp_all add: ctx_ok_def continues_def set_retry_def)

lemma good_step_ret [simp]: "good_step ctx (Inr (r, c), w) \<longleftrightarrow> ctx_ok c \<and> continues ctx c"
  by (simp add: good_step_def)

lemma unpin_ctx_result: "unpin_ctx c w = (Inr c', w') \<Longrightarrow> c' = set_pin None c"
  using unpin_ctx_total [of c w] by auto

lemma map_finish_pin_ctx:
  "map_finish_pin op prev out c w = (Inr c', w') \<Longrightarrow> \<exists>p. c' = set_pin p c \<or> c' = c"
  by (auto simp: map_finish_pin_def py_simps split: if_splits dest: unpin_ctx_result)

lemma map_retry_ctx:
  "map_retry op prev out c w = (Inr (r, c'), w') \<Longrightarrow>
     r = RETRY_TASK \<and> (\<exists>p. c' = set_retry (position op) MAX_TOKEN_LIMIT (set_pin p c) \<or>
                          c' = set_retry (position op) MAX_TOKEN_LIMIT c)"
  by (auto simp: map_retry_def py_simps split: if_splits)

lemma map_prompt_ok:
  "ctx_ok ctx \<Longrightarrow> \<exists>t. map_build_prompt i ctx = Inr (sysd (ctx_data ctx) @ [t]) \<and> \<not> is_system t"
  unfolding map_build_prompt_def by (rule get_prompt_sysd) (auto simp: ctx_ok_def)

lemma extended_ctx:
  assumes "ctx_ok ctx" "\<not> is_system t" "\<not> is_system u"
    "right_data (inp c) = right_data (inp ctx)" "ctx_data c = sysd (ctx_data ctx) @ [t] @ [u]"
  shows "ctx_ok c \<and> continues ctx c"
proof -
  have wf: "sys_wf (sysd (ctx_data ctx))" using assms(1) by (auto simp: ctx_ok_def intro: sys_wf_sysd)
  then have "sys_wf (ctx_data c)" unfolding assms(5) using assms(2,3) by (intro sys_wf_append) auto
  then show ?thesis
    using assms(1,4) by (auto simp: ctx_ok_def continues_def sysd_sys assms(5))
qed

lemma map_success_good:
  assumes ok: "ctx_ok ctx" and t: "\<not> is_system t"
  shows "good_step ctx (map_success E op prev (sysd (ctx_data ctx) @ [t]) n out ctx w)"
proof -
  let ?c = "if retry_op_position (state ctx) = position op then set_retry (-1) 0 ctx else ctx"
  let ?msg = "\<lparr>role = ''assistant'', msg_type = None, content = cr_text out\<rparr>"
  let ?d = "add_output (OutText (class_str ''map.SemMap'') (cr_text out))
     (set_data (sysd (ctx_data ctx) @ [t] @ [?msg]) ?c)"
  have "ctx_ok ?d \<and> continues ctx ?d"
    by (rule extended_ctx [OF ok t, of ?msg]) (simp_all add: is_system_def)
  moreover have "c' = ?d \<or> (\<exists>p. c' = set_pin p ?d)"
    if "map_finish_pin op prev out ?d w = (Inr c', w')" for c' w w'
    using map_finish_pin_ctx [OF that] by blast
  ultimately have "good_step ctx (pbind (map_finish_pin op prev out ?d) (\<lambda>ctx. pret (SameCtx, ctx)) w)" for w
    by (intro good_step_bind) (fastforce simp: good_step_def)
  then show ?thesis
    by (simp add: map_success_def add_assistant_prompt_def Let_def)
qed

lemma map_retry_good: "ctx_ok ctx \<Longrightarrow> good_step ctx (map_retry op prev out ctx w)"
  by (auto simp: good_step_def dest: map_retry_ctx split: sum.splits) (metis fst_conv map_retry_ctx
      ctx_ok_retry(1,2) ctx_ok_updates(1,3) continues_refl prod.collapse)+

lemma map_run_single_good:
  assumes "ctx_ok ctx"
  shows "good_step ctx (map_run_single E op i pr ctx w)"
proof -
  obtain t where t: "map_build_prompt i ctx = Inr (sysd (ctx_data ctx) @ [t])" "\<not> is_system t"
    using map_prompt_ok [OF assms] by blast
  show ?thesis
    unfolding map_run_single_def t(1) Let_def
    using map_success_good [OF assms t(2)] map_retry_good [OF assms]
    by (intro good_step_bind) (auto intro!: good_step_bind)
qed

lemma map_good:
  assumes "ctx_ok ctx"
  shows "good_step ctx (map_call E op i pr ctx w)"
  unfolding map_call_def
  using good_step_Inr [OF map_run_single_good [OF assms]]
  by (intro good_step_bind) (auto intro!: good_step_handle)

lemma classify_good:
  assumes "ctx_ok ctx"
  shows "good_step ctx (classify_call E op cl mx i pr ctx w)"
proof -
  have wf: "data_wf (ctx_data ctx)" using assms by (simp add: ctx_ok_def)
  obtain t where t: "get_prompt i (ctx_data ctx) SEM_FILTER = Inr (sysd (ctx_data ctx) @ [t])"
    using get_prompt_sysd [OF wf, of SEM_FILTER i] by auto
  have sw: "sys_wf (sysd (ctx_data ctx))" using wf by (rule sys_wf_sysd)
  have c: "ctx_ok (set_data (sysd (ctx_data ctx)) ctx)" "continues ctx (set_data (sysd (ctx_data ctx)) ctx)"
    using assms sw by (auto simp: ctx_ok_def continues_def sysd_sys)
  show ?thesis
    unfolding classify_call_def classify_build_prompts_def with_system_sysd [OF wf] t Let_def
    using c by (auto intro!: good_step_bind good_step_handle dest!: unpin_ctx_result split: if_splits)
qed

section \<open>The retry\<close>

definition requests :: "world \<Rightarrow> nat" where
  "requests w = length [e \<leftarrow> w_log w. (case e of EvRequest rr req a \<Rightarrow> True | _ \<Rightarrow> False)]"

lemma requests_execute: "requests (snd (execute E rr p mx b pr w)) = Suc (requests w)"
  by (cases p) (auto simp: chatcomplete_def complete_text_def run_request_def pbind_apply
      call_engine_def Let_def requests_def register_pin_def split: sum.splits)

abbreviation quiet :: "nat \<Rightarrow> 'a prog \<Rightarrow> bool" where
  "quiet k \<equiv> keeps (\<lambda>w. requests w = k)"

lemma quiet_unpin [keeps_intros]: "quiet k (unpin rr i)"
  by (simp add: keeps_def unpin_def pbind_apply requests_def)

lemma quiet_unpin_ctx [keeps_intros]: "quiet k (unpin_ctx c)"
  unfolding unpin_ctx_def by (intro keeps_intros)

lemma quiet_unpin_previous [keeps_intros]: "quiet k (unpin_previous rr p r)"
  unfolding unpin_previous_def by (intro keeps_intros)

lemma quiet_estimator [keeps_intros]: "quiet k (pmodify (\<lambda>w. w\<lparr>w_estimator := f w\<rparr>))"
  by (simp add: keeps_def requests_def)

lemma quiet_map_tail [keeps_intros]:
  "quiet k (map_retry op prev out c)" "quiet k (map_success E op prev pr n out c)"
  unfolding map_retry_def map_success_def map_finish_pin_def Let_def by (intro keeps_intros)+

lemma requests_map_run: "requests (snd (map_run_single E op i pr ctx w)) \<le> Suc (requests w)"
proof (cases "map_build_prompt i ctx")
  case (Inr prompt)
  let ?mx = "planned_max_tokens (w_estimator w) op ctx (prompt_tokens (ev_tk E) prompt)"
  let ?x = "execute E (raw_request (state ctx)) (MsgData prompt) ?mx (pin op) pr"
  have k: "requests (snd (?x w)) = Suc (requests w)" by (rule requests_execute)
  have t: "requests (snd (f (snd (?x w)))) = Suc (requests w)"
    if "quiet (Suc (requests w)) f" for f :: "(op_result \<times> sem_context) prog"
    using keepsD [OF that, of "snd (?x w)"] k by simp
  show ?thesis
    unfolding map_run_single_def Inr Let_def
    using k t [OF quiet_map_tail(1)] t [OF quiet_map_tail(2)]
    by (cases "fst (?x w)") (auto simp: pbind_apply simp del: execute.simps)
qed (simp add: map_run_single_def Let_def)

lemma map_success_no_retry:
  "map_success E op prev prompt n out ctx w = (Inr (r, c), w') \<Longrightarrow> r = SameCtx"
  by (auto simp: map_success_def Let_def py_simps split: prod.splits)

lemma map_retry_sets:
  assumes "map_run_single E op i pr ctx w = (Inr (RETRY_TASK, c), w')"
  shows "retry_op_position (state c) = position op \<and> retry_max_tokens (state c) = MAX_TOKEN_LIMIT"
proof -
  obtain prev out w1 where "map_retry op prev out ctx w1 = (Inr (RETRY_TASK, c), w')"
    using assms map_success_no_retry
    by (auto simp: map_run_single_def Let_def py_simps split: if_splits) blast+
  then show ?thesis by (auto simp: set_retry_def dest!: map_retry_ctx)
qed

lemma map_no_second_retry:
  assumes "retry_op_position (state ctx) = position op" "retry_max_tokens (state ctx) = MAX_TOKEN_LIMIT"
    "map_run_single E op i pr ctx w = (Inr (r, c), w')"
  shows "r = SameCtx"
proof -
  have "planned_max_tokens est op ctx n = MAX_TOKEN_LIMIT" for est n
    using assms(1,2) by (simp add: planned_max_tokens_def MAX_TOKEN_LIMIT_def)
  with assms(3) show ?thesis
    by (auto simp: map_run_single_def Let_def py_simps dest: map_success_no_retry)
qed


lemma map_blocking_two_rounds:
  "\<exists>r w'. map_run_blocking_single E op i ctx w = Some (r, w') \<and>
     requests w' \<le> requests w + 2 \<and> (\<forall>c. r \<noteq> Inr (RETRY_TASK, c))"
proof -
  obtain r1 w1 where 1: "map_run_single E op i 0 ctx w = (r1, w1)" by (cases "map_run_single E op i 0 ctx w")
  have n1: "requests w1 \<le> Suc (requests w)" using requests_map_run [of E op i 0 ctx w] 1 by simp
  show ?thesis
  proof (cases "\<exists>c. r1 = Inr (RETRY_TASK, c)")
    case False
    then show ?thesis
      using 1 n1 by (subst map_run_blocking_single.simps) (auto split: sum.splits)
  next
    case True
    then obtain c where c: "r1 = Inr (RETRY_TASK, c)" by blast
    obtain r2 w2 where 2: "map_run_single E op i 0 c w1 = (r2, w2)" by (cases "map_run_single E op i 0 c w1")
    have n2: "requests w2 \<le> Suc (requests w1)" using requests_map_run [of E op i 0 c w1] 2 by simp
    have nr: "\<forall>r c'. r2 = Inr (r, c') \<longrightarrow> r = SameCtx"
      using map_no_second_retry [of c op E i 0 w1] map_retry_sets [of E op i 0 ctx w c w1] 1 2 c by auto
    have "map_run_blocking_single E op i c w1 = Some (r2, w2)"
      using nr by (subst map_run_blocking_single.simps) (auto simp: 2 split: sum.splits)
    then have "map_run_blocking_single E op i ctx w = Some (r2, w2)"
      by (subst map_run_blocking_single.simps) (simp add: 1 c)
    then show ?thesis using n1 n2 nr by auto
  qed
qed


section \<open>What a map call leaves pinned\<close>

lemma unpin_ids: "registry_ids (w_registry (snd (unpin rr i w))) = registry_ids (w_registry w) - {i}"
  by (simp add: unpin_def pbind_apply)

lemma map_last_text_add [simp]:
  "map_last_text (add_output (OutText (class_str ''map.SemMap'') t) c) = t"
  by (simp add: map_last_text_def)

lemma map_last_text_pin [simp]: "map_last_text (set_pin p c) = map_last_text c"
  by (simp add: map_last_text_def)

lemma map_success_pinned:
  assumes "pin op" "map_success E op prev prompt n out ctx w = (Inr (r, c), w')"
  shows "ctx_pin c = Some (cr_request_id out) \<and> map_last_text c = cr_text out"
  using assms by (auto simp: map_success_def map_finish_pin_def Let_def py_simps split: prod.splits)

lemma map_run_answer:
  assumes "map_run_single E op i pr ctx w = (Inr (SameCtx, c), w')"
  obtains prompt mx prev n out w1 where
    "map_build_prompt i ctx = Inr prompt"
    "execute E (raw_request (state ctx)) (MsgData prompt) mx (pin op) pr w = (Inr out, w1)"
    "map_success E op prev prompt n out ctx w1 = (Inr (SameCtx, c), w')"
  using assms by (auto simp: map_run_single_def Let_def py_simps simp del: execute.simps
      split: if_splits dest: map_retry_ctx)

section \<open>Properties\<close>

text \<open>
  The blocking mode of \<open>SemMap\<close> always returns, after at most two requests: the second
  attempt runs at the full token limit and is never retried.
\<close>

theorem map_blocking_terminates:
  "\<exists>r w'. map_run_blocking_single E op i ctx w = Some (r, w') \<and>
     requests w' \<le> requests w + 2 \<and> (\<forall>c. r \<noteq> Inr (RETRY_TASK, c))"
  by (rule map_blocking_two_rounds)

text \<open>
  C24. What a pinning \<open>SemMap\<close> leaves pinned: after a call that is not retried, the context is
  pinned to the request it made exactly when the mapped text does not contain the word
  ``false'' in any case. A mapped text that mentions ``false'' drops the pin although the
  operator is not a predicate.
\<close>

theorem map_pin_after_call:
  assumes "pin op" "\<not> unpin_flag op" "\<not> negate op"
    "map_call E op i pr ctx w = (Inr (r, c), w')" "r \<noteq> RETRY_TASK"
  shows "\<exists>out w1 prompt mx. execute E (raw_request (state ctx)) (MsgData prompt) mx True pr w = (Inr out, w1) \<and>
    ctx_pin c = (if py_in ''false'' (py_lower (py_strip (cr_text out))) then None
                 else Some (cr_request_id out))"
proof -
  obtain r0 c0 w0 where 0: "map_run_single E op i pr ctx w = (Inr (r0, c0), w0)" "r0 \<noteq> RETRY_TASK"
    "handle_output op c0 (TextOut (map_last_text c0)) w0 = (Inr (r, c), w')"
    using assms(4,5) by (auto simp: map_call_def py_simps split: if_splits)
  then have "r0 = SameCtx"
    by (auto simp: map_run_single_def Let_def py_simps split: if_splits
        dest: map_success_no_retry map_retry_ctx)
  with 0(1) have run: "map_run_single E op i pr ctx w = (Inr (SameCtx, c0), w0)" by simp
  then obtain prompt mx prev n out w1 where x:
    "execute E (raw_request (state ctx)) (MsgData prompt) mx (pin op) pr w = (Inr out, w1)"
    "map_success E op prev prompt n out ctx w1 = (Inr (SameCtx, c0), w0)"
    by (rule map_run_answer)
  have p: "ctx_pin c0 = Some (cr_request_id out)" "map_last_text c0 = cr_text out"
    using map_success_pinned [OF assms(1) x(2)] by auto
  have "ctx_pin c = (if py_in ''false'' (py_lower (py_strip (cr_text out))) then None
      else Some (cr_request_id out))"
    using handle_output_result(2) [OF 0(3)] p assms(2,3)
    by (auto simp: output_passed_def predicate_passed_def)
  with x(1) assms(1) show ?thesis by auto
qed

definition demo_map :: phys_op where
  "demo_map = (sem_map_init ''summarise'' 0)\<lparr>pin := True\<rparr>"

theorem map_pin_after_call_witness:
  "\<exists>r c w'. map_call (demo_env ''It is false.'') demo_map ''summarise'' 0 demo_ctx demo_world = (Inr (r, c), w') \<and>
     r = SameCtx \<and> ctx_pin c = None"
proof -
  have "\<exists>c w'. map_call (demo_env ''It is false.'') demo_map ''summarise'' 0 demo_ctx demo_world =
      (Inr (SameCtx, c), w')"
  proof -
    obtain t where t: "map_build_prompt ''summarise'' demo_ctx = Inr (sysd (ctx_data demo_ctx) @ [t])"
      using map_prompt_ok [OF demo_ctx_ok] by blast
    have "\<exists>c w'. map_run_single (demo_env ''It is false.'') demo_map ''summarise'' 0 demo_ctx demo_world =
        (Inr (SameCtx, c), w')"
      unfolding map_run_single_def t
      by (simp add: pbind_apply demo_map_def sem_map_init_def base_op_def map_success_def
          add_assistant_prompt_def map_finish_pin_def unpin_previous_def Let_def del: execute.simps)
    then obtain c w' where "map_run_single (demo_env ''It is false.'') demo_map ''summarise'' 0 demo_ctx demo_world =
        (Inr (SameCtx, c), w')" by blast
    then show ?thesis
      using handle_output_total [of demo_map c "TextOut (map_last_text c)" w']
      by (auto simp: map_call_def demo_map_def sem_map_init_def base_op_def)
  qed
  then obtain c w' where c: "map_call (demo_env ''It is false.'') demo_map ''summarise'' 0 demo_ctx demo_world =
      (Inr (SameCtx, c), w')" by blast
  moreover have "pin demo_map" "\<not> unpin_flag demo_map" "\<not> negate demo_map"
    by (simp_all add: demo_map_def sem_map_init_def base_op_def)
  ultimately obtain out w1 prompt mx where
    x: "execute (demo_env ''It is false.'') 1 (MsgData prompt) mx True 0 demo_world = (Inr out, w1)"
    "ctx_pin c = (if py_in ''false'' (py_lower (py_strip (cr_text out))) then None
                 else Some (cr_request_id out))"
    using map_pin_after_call [OF _ _ _ c] by fastforce
  have "cr_text out = ''It is false.''"
    using x(1) demo_execute [of "''It is false.''" 1 "MsgData prompt" mx True 0 demo_world]
    by (simp del: demo_execute execute.simps)
  moreover have "py_in ''false'' (py_lower (py_strip ''It is false.''))" by code_simp
  ultimately have "ctx_pin c = None" using x(2) by simp
  with c show ?thesis by blast
qed

end
