(* ===== verification/Sem_Joins.thy ===== *)
theory Sem_Joins
  imports Sem_Map
begin

text \<open>
  The join operators (\<open>kalypso/sem_ops/joins.py\<close>): the cartesian product, the product against
  the rows an index service retrieves, and the retrieval operator that appends the rows to
  the context. The index service is the parameter \<open>ev_icp\<close>; the calls made to it are logged.
\<close>

section \<open>CartesianProduct\<close>

definition cp_child :: "sem_context \<Rightarrow> message list \<Rightarrow> rat option \<Rightarrow> int \<Rightarrow> sem_context" where
  "cp_child ctx right score i =
     \<lparr>inp = add_right (semantic_input (MsgData (ctx_data ctx)) (-1) []) right, outputs = [],
      state = (execution_state (raw_request (state ctx)))\<lparr>helper_score := score, idx := i\<rparr>\<rparr>"

definition cartesian_call :: "sem_context list \<Rightarrow> sem_context \<Rightarrow> sem_context list" where
  "cartesian_call table ctx = map (\<lambda>right. cp_child ctx (ctx_data right) None (-1)) table"

section \<open>The index service\<close>

definition post_icp :: "env \<Rightarrow> icp_post \<Rightarrow> icp_reply prog" where
  "post_icp E p w =
     (case ev_icp E (w_posts w) p of
        NoReply \<Rightarrow> (Inl RequestException, w\<lparr>w_posts := w_posts w @ [p]\<rparr>)
      | r \<Rightarrow> (Inr r, w\<lparr>w_posts := w_posts w @ [p]\<rparr>))"

definition indexed_rows :: "icp_cfg \<Rightarrow> (int \<times> message list) list" where
  "indexed_rows cfg = map (\<lambda>(i, c). (int i, ctx_data c)) (enumerate 0 (right_table cfg))"

definition raise_for_status :: "icp_reply \<Rightarrow> ranked_row list res" where
  "raise_for_status r = (case r of Ok rows \<Rightarrow> Inr rows | _ \<Rightarrow> Inl RequestException)"

definition build_remote_index :: "env \<Rightarrow> icp_cfg \<Rightarrow> unit prog" where
  "build_remote_index E cfg =
     (if right_table cfg = [] then pret ()
      else pbind (post_icp E (PostBuild (service_address cfg) (service_port cfg) (cp_id cfg) (indexed_rows cfg)))
             (\<lambda>r. pbind (plift (raise_for_status r)) (\<lambda>_. pret ())))"

definition query_post :: "icp_cfg \<Rightarrow> string list \<Rightarrow> icp_post" where
  "query_post cfg left_row =
     PostQuery (service_address cfg) (service_port cfg) (cp_id cfg) left_row
       (if icp_low cfg \<noteq> None \<or> icp_high cfg \<noteq> None then Thresholds (icp_low cfg) (icp_high cfg)
        else TopK (top_k cfg))"

definition query_retrieval :: "env \<Rightarrow> icp_cfg \<Rightarrow> string list \<Rightarrow> ranked_row list prog" where
  "query_retrieval E cfg left_row =
     pbind (post_icp E (query_post cfg left_row)) (\<lambda>response.
       case response of
         Ok rows \<Rightarrow> pret rows
       | _ \<Rightarrow> pbind (build_remote_index E cfg) (\<lambda>_.
              pbind (post_icp E (query_post cfg left_row)) (\<lambda>retry.
              plift (raise_for_status retry))))"

definition query_text_from_data :: "message list \<Rightarrow> string" where
  "query_text_from_data d =
     (case find (\<lambda>m. py_strip (content m) \<noteq> '''') (rev d) of
        Some m \<Rightarrow> py_strip (content m)
      | None \<Rightarrow> py_strip (py_str (MsgData d)))"

fun meta_data :: "meta \<Rightarrow> text_or_msgs" where
  "meta_data (MInt i) = TextData (str_int i)"
| "meta_data (MData d) = d"

section \<open>IndexedCartesianProduct\<close>

text \<open>The rows of the right table themselves, with score zero, when the service fails.\<close>

definition fallback_rows :: "icp_cfg \<Rightarrow> ranked_row list" where
  "fallback_rows cfg =
     map (\<lambda>(i, d). \<lparr>rr_metadata = [MInt i, MData (MsgData d)], rr_score = Some 0\<rparr>) (indexed_rows cfg)"

fun icp_children :: "sem_context \<Rightarrow> ranked_row list \<Rightarrow> sem_context list" where
  "icp_children ctx [] = []"
| "icp_children ctx (row # rows) =
     (case rr_metadata row of
        _ # d # _ \<Rightarrow>
          cp_child ctx (get_data_prompt (meta_data d) []) (rr_score row) (idx (state ctx)) # icp_children ctx rows
      | _ \<Rightarrow> icp_children ctx rows)"

definition indexed_cartesian_call :: "env \<Rightarrow> icp_cfg \<Rightarrow> sem_context \<Rightarrow> sem_context list prog" where
  "indexed_cartesian_call E cfg ctx w =
     (case query_retrieval E cfg [query_text_from_data (ctx_data ctx)] w of
        (Inr rows, w') \<Rightarrow> (Inr (icp_children ctx rows), w')
      | (Inl e, w') \<Rightarrow>
          if e = RequestException \<and> right_table cfg \<noteq> []
          then (Inr (icp_children ctx (fallback_rows cfg)), w')
          else (Inl e, w'))"

section \<open>IndexedSearch\<close>

definition search_estimate_tokens :: "env \<Rightarrow> sem_context \<Rightarrow> int" where
  "search_estimate_tokens E ctx =
     max 1 (token_length (ev_tk E) (TextData (query_text_from_data (ctx_data ctx))))"

fun retrieved_contexts :: "nat \<Rightarrow> ranked_row list \<Rightarrow> string list" where
  "retrieved_contexts rank [] = []"
| "retrieved_contexts rank (row # rows) =
     (case rr_metadata row of
        doc_id # text # _ \<Rightarrow>
          (''['' @ str_int (int rank) @ ''] Document ID: '' @ py_str (meta_data doc_id) @ nl @
           py_str (meta_data text)) # retrieved_contexts (Suc rank) rows
      | _ \<Rightarrow> retrieved_contexts (Suc rank) rows)"

definition indexed_search_call :: "env \<Rightarrow> icp_cfg \<Rightarrow> sem_context \<Rightarrow> (op_result \<times> sem_context) prog" where
  "indexed_search_call E cfg ctx =
     pbind (query_retrieval E cfg [query_text_from_data (ctx_data ctx)]) (\<lambda>rows.
       let retrieved = retrieved_contexts 1 rows in
       if retrieved = [] then pret (SameCtx, ctx)
       else pret (SameCtx,
         add_output (OutSearch (length retrieved) (cp_id cfg))
           (set_data (ctx_data ctx @ get_data_prompt (TextData (py_join (nl @ nl) retrieved)) []) ctx)))"

section \<open>Pins, shapes and counts\<close>

lemma post_icp_keeps [keeps_intros]:
  "keeps mirrored (post_icp E p)" "quiet k (post_icp E p)"
  by (simp_all add: keeps_def post_icp_def mirrored_def pin_calls_def requests_def split: icp_reply.splits)

lemma keeps_reply [keeps_intros]:
  "(\<And>rows. keeps I (p rows)) \<Longrightarrow> (\<And>n. keeps I (q n)) \<Longrightarrow> keeps I s \<Longrightarrow>
     keeps I (case r of Ok rows \<Rightarrow> p rows | Bad n \<Rightarrow> q n | NoReply \<Rightarrow> s)"
  by (cases r) auto

lemma query_retrieval_keeps [keeps_intros]:
  "keeps mirrored (query_retrieval E cfg l)" "quiet k (query_retrieval E cfg l)"
  unfolding query_retrieval_def build_remote_index_def by (intro keeps_intros)+

lemma indexed_search_keeps [keeps_intros]:
  "keeps mirrored (indexed_search_call E cfg ctx)" "quiet k (indexed_search_call E cfg ctx)"
  unfolding indexed_search_call_def Let_def by (intro keeps_intros)+

lemma search_good:
  assumes "ctx_ok ctx"
  shows "good_step ctx (indexed_search_call E cfg ctx w)"
proof -
  have ne: "ctx_data ctx \<noteq> []" and wf: "data_wf (ctx_data ctx)" using assms by (auto simp: ctx_ok_def)
  have "ctx_ok (set_data (ctx_data ctx @ get_data_prompt d []) ctx)" for d
    using assms get_data_prompt_no_system [of d "[]"] by (auto simp: ctx_ok_def intro: data_wf_append)
  moreover have "continues ctx (set_data (ctx_data ctx @ get_data_prompt d []) ctx)" for d
    using sysd_prefix [OF ne] by (simp add: continues_def)
  ultimately show ?thesis
    unfolding indexed_search_call_def Let_def using assms by (auto intro!: good_step_bind)
qed

lemma cp_child_simps [simp]:
  "ctx_data (cp_child ctx r s i) = ctx_data ctx" "right_data (inp (cp_child ctx r s i)) = r"
  "ctx_pin (cp_child ctx r s i) = None" "helper_score (state (cp_child ctx r s i)) = s"
  "raw_request (state (cp_child ctx r s i)) = raw_request (state ctx)"
  "outputs (cp_child ctx r s i) = []"
  by (simp_all add: cp_child_def add_right_def semantic_input_def execution_state_def)

lemma cp_child_ok:
  "ctx_ok ctx \<Longrightarrow> \<forall>m \<in> set r. \<not> is_system m \<Longrightarrow> ctx_ok (cp_child ctx r s i)"
  by (simp add: ctx_ok_def)

lemma cp_child_data_ok: "ctx_ok ctx \<Longrightarrow> ctx_ok (cp_child ctx (get_data_prompt d r) s i)"
  using get_data_prompt_no_system by (intro cp_child_ok)

lemma icp_children_ok: "ctx_ok ctx \<Longrightarrow> c \<in> set (icp_children ctx rows) \<Longrightarrow> ctx_ok c"
  by (induction ctx rows rule: icp_children.induct)
     (auto split: list.splits intro: cp_child_data_ok)

lemma fallback_children:
  "icp_children ctx (fallback_rows cfg) =
     map (\<lambda>right. cp_child ctx (get_data_prompt (MsgData (ctx_data right)) []) (Some 0) (idx (state ctx)))
       (right_table cfg)"
proof -
  have "icp_children ctx (map (\<lambda>(i, d). \<lparr>rr_metadata = [MInt i, MData (MsgData d)], rr_score = Some 0\<rparr>)
      (map (\<lambda>(i, c). (int i, ctx_data c)) (enumerate n t))) =
     map (\<lambda>right. cp_child ctx (get_data_prompt (MsgData (ctx_data right)) []) (Some 0) (idx (state ctx))) t"
    for n t
    by (induction t arbitrary: n) simp_all
  then show ?thesis by (simp add: fallback_rows_def indexed_rows_def)
qed

lemma outage_product:
  assumes "right_table cfg \<noteq> []" "\<And>posts p. ev_icp E posts p = NoReply"
  shows "\<exists>w'. indexed_cartesian_call E cfg ctx w = (Inr (icp_children ctx (fallback_rows cfg)), w')"
  using assms by (simp add: indexed_cartesian_call_def query_retrieval_def pbind_apply post_icp_def)

section \<open>Properties\<close>

text \<open>
  When the index service cannot be reached, the indexed product of a non-empty right
  table is the full product in table order, one child per right row with score zero and no
  pin.
\<close>

theorem icp_outage_full_product:
  assumes "right_table cfg \<noteq> []" "\<And>posts p. ev_icp E posts p = NoReply"
  shows "\<exists>w'. indexed_cartesian_call E cfg ctx w =
     (Inr (map (\<lambda>right. cp_child ctx (get_data_prompt (MsgData (ctx_data right)) []) (Some 0)
            (idx (state ctx))) (right_table cfg)), w')"
  using outage_product [OF assms] by (simp add: fallback_children)

definition demo_icp :: icp_cfg where
  "demo_icp = icp_config [demo_ctx] ''127.0.0.1'' 8000 (Some 5) None None (Some ''cp'') 1 7"

theorem icp_outage_full_product_witness:
  "\<exists>cs w'. indexed_cartesian_call (demo_env ''x'') demo_icp demo_ctx demo_world = (Inr cs, w') \<and> length cs = 1"
proof -
  have "right_table demo_icp = [demo_ctx]" by (simp add: demo_icp_def icp_config_def)
  moreover have "ev_icp (demo_env ''x'') posts p = NoReply" for posts p
    by (simp add: demo_env_def)
  ultimately show ?thesis
    using icp_outage_full_product [of demo_icp "demo_env ''x''" demo_ctx demo_world] by fastforce
qed

text \<open>
  C25. After such an outage an \<open>ICPFilter\<close> whose lower threshold is at least zero, below its
  upper one, rejects every pair without asking the model: the join is empty.
\<close>

theorem icp_outage_rejects_all:
  assumes "right_table cfg \<noteq> []" "\<And>posts p. ev_icp E posts p = NoReply"
    "0 \<le> low" "0 < high" "predicate op"
    "indexed_cartesian_call E cfg ctx w = (Inr cs, w')"
  shows "\<forall>c \<in> set cs. \<exists>c' w''. icp_filter_call E op i low high mx pr c w' = (Inr (Verdict False, c'), w'') \<and>
    requests w'' = requests w'"
proof
  fix c assume "c \<in> set cs"
  then have sc: "helper_score (state c) = Some 0"
    using assms(6) outage_product [OF assms(1,2), of ctx w] by (auto simp: fallback_children)
  have eq: "icp_filter_call E op i low high mx pr c w' = icp_finish op ''icp_helper_negative'' 0 False c w'"
    using assms(3,4) by (simp add: icp_filter_call_def sc)
  have q: "quiet (requests w') (icp_finish op ''icp_helper_negative'' 0 False c)"
    unfolding icp_finish_def handle_output_def Let_def
    by (intro keeps_intros keeps_modify) (simp add: requests_def)
  have "\<exists>c' w''. icp_finish op ''icp_helper_negative'' 0 False c w' = (Inr (Verdict False, c'), w'')"
    unfolding icp_finish_def
    using handle_output_total [of op "add_output (OutHelper (class_str ''filters.ICPFilter'') ''icp_helper_negative'' 0) c"
        "BoolOut False" "w'\<lparr>w_icp := icp_record ''icp_helper_negative'' False (w_icp w')\<rparr>"] assms(5)
    by (auto simp: output_passed_def)
  then show "\<exists>c' w''. icp_filter_call E op i low high mx pr c w' = (Inr (Verdict False, c'), w'') \<and>
      requests w'' = requests w'"
    unfolding eq using keepsD [OF q, of w'] by force
qed

theorem icp_outage_rejects_all_witness:
  "\<exists>cs w'. indexed_cartesian_call (demo_env ''TRUE'') demo_icp demo_ctx demo_world = (Inr cs, w') \<and> cs \<noteq> [] \<and>
     (\<forall>c \<in> set cs. \<exists>c' w''. icp_filter_call (demo_env ''TRUE'')
        (base_op (ICPFilter ''p'' (1/5) (4/5) 8) 1 True) ''p'' (1/5) (4/5) 8 0 c w' = (Inr (Verdict False, c'), w''))"
proof -
  let ?E = "demo_env ''TRUE''"
  have t: "right_table demo_icp = [demo_ctx]" by (simp add: demo_icp_def icp_config_def)
  have n: "ev_icp ?E posts p = NoReply" for posts p by (simp add: demo_env_def)
  obtain cs w' where cs: "indexed_cartesian_call ?E demo_icp demo_ctx demo_world = (Inr cs, w')" "cs \<noteq> []"
    using n t by (simp add: indexed_cartesian_call_def query_retrieval_def pbind_apply post_icp_def fallback_children)
  show ?thesis
    using icp_outage_rejects_all [of demo_icp ?E "1/5" "4/5" "base_op (ICPFilter ''p'' (1/5) (4/5) 8) 1 True"
        demo_ctx demo_world cs w' "''p''" 8 0] cs n t
    by (fastforce simp: base_op_def)
qed

end
