(* ===== verification/Sem_Ops.thy ===== *)
theory Sem_Ops
  imports Sem_Joins
begin

text \<open>
  The operator interface a stage relies on: the dispatch of a call and of a token estimate
  to the operator classes, the contract every call keeps (pins mirrored in the registry,
  well-shaped contexts, prompts that continue earlier prompts) as a locale, and the counters
  of the cascade operators.
\<close>

section \<open>Dispatch\<close>

text \<open>
  A stage calls \<open>op(ctx, priority=...)\<close>; the join and blocking classes do not accept a
  priority and raise a \<open>TypeError\<close>.
\<close>

definition op_call :: "env \<Rightarrow> phys_op \<Rightarrow> int \<Rightarrow> sem_context \<Rightarrow> (op_result \<times> sem_context) prog" where
  "op_call E op priority ctx =
     (case kind op of
        SemFilter i mx \<Rightarrow> filter_run_single E op i mx priority ctx
      | ICPFilter i low high mx \<Rightarrow> icp_filter_call E op i low high mx priority ctx
      | CascadeOperator cfg \<Rightarrow> cascade_call E op cfg priority ctx
      | SemMap i \<Rightarrow> map_call E op i priority ctx
      | SemClassify classes mx i \<Rightarrow> classify_call E op classes mx i priority ctx
      | IndexedSearch cfg \<Rightarrow> indexed_search_call E cfg ctx
      | CartesianProduct table \<Rightarrow> praise TypeError
      | IndexedCartesianProduct cfg \<Rightarrow> praise TypeError
      | SemAgg i mx c \<Rightarrow> praise TypeError
      | SemTopK i k mx c \<Rightarrow> praise TypeError)"

definition estimate_tokens :: "env \<Rightarrow> estimator \<Rightarrow> phys_op \<Rightarrow> sem_context \<Rightarrow> int res" where
  "estimate_tokens E est op ctx =
     (case kind op of
        SemFilter i mx \<Rightarrow> filter_estimate_tokens E i mx ctx
      | ICPFilter i low high mx \<Rightarrow> icp_estimate_tokens E i low high mx ctx
      | CascadeOperator cfg \<Rightarrow> cascade_estimate_tokens E cfg ctx
      | SemMap i \<Rightarrow> map_estimate_tokens E est op i ctx
      | SemClassify classes mx i \<Rightarrow> classify_estimate_tokens E i mx ctx
      | IndexedSearch cfg \<Rightarrow> Inr (search_estimate_tokens E ctx)
      | _ \<Rightarrow> Inl AttributeError)"

text \<open>A join operator expands one context into many.\<close>

definition fanout_call :: "env \<Rightarrow> phys_op \<Rightarrow> sem_context \<Rightarrow> sem_context list prog" where
  "fanout_call E op ctx =
     (case kind op of
        CartesianProduct table \<Rightarrow> pret (cartesian_call table ctx)
      | IndexedCartesianProduct cfg \<Rightarrow> indexed_cartesian_call E cfg ctx
      | _ \<Rightarrow> praise TypeError)"

section \<open>The contract of an operator\<close>

locale tuple_operators =
  fixes call :: "'op \<Rightarrow> int \<Rightarrow> sem_context \<Rightarrow> (op_result \<times> sem_context) prog"
  assumes pins: "keeps mirrored (call op pr ctx)"
    and shape: "ctx_ok ctx \<Longrightarrow> good_step ctx (call op pr ctx w)"
lemma op_call_mirrored: "keeps mirrored (op_call E op pr ctx)"
  unfolding op_call_def by (cases "kind op") (auto intro: keeps_intros)

lemma op_call_good: "ctx_ok ctx \<Longrightarrow> good_step ctx (op_call E op pr ctx w)"
  unfolding op_call_def
  by (cases "kind op") (simp_all add: filter_good icp_good cascade_good map_good classify_good search_good)

interpretation sem_ops: tuple_operators "op_call E" for E
  by unfold_locales (simp_all add: op_call_mirrored op_call_good)

section \<open>The counters\<close>

definition icp_ok :: "icp_stats \<Rightarrow> bool" where
  "icp_ok s \<longleftrightarrow> ic_called s = ic_accepted s + ic_rejected s \<and>
     ic_called s = ic_helper_positive s + ic_helper_negative s + ic_fallback s \<and>
     ic_fallback s = ic_fallback_accepted s + ic_fallback_rejected s \<and>
     ic_accepted s = ic_helper_positive s + ic_fallback_accepted s"

definition cascade_ok :: "cascade_stats \<Rightarrow> bool" where
  "cascade_ok s \<longleftrightarrow> cs_called s = cs_accepted s + cs_rejected s \<and>
     cs_called s = cs_helper_accepted s + cs_helper_rejected s + cs_fallback s \<and>
     cs_fallback s = cs_fallback_accepted s + cs_fallback_rejected s \<and>
     cs_accepted s = cs_helper_accepted s + cs_fallback_accepted s"

definition stats_ok :: "world \<Rightarrow> bool" where
  "stats_ok w \<longleftrightarrow> icp_ok (w_icp w) \<and> cascade_ok (w_cascade w)"

lemma icp_record_ok:
  "icp_ok s \<Longrightarrow> icp_ok (icp_record ''icp_helper_positive'' True s)"
  "icp_ok s \<Longrightarrow> icp_ok (icp_record ''icp_helper_negative'' False s)"
  "icp_ok s \<Longrightarrow> icp_ok (icp_record ''icp_oracle_fallback'' b s)"
  by (simp_all add: icp_ok_def icp_record_def Let_def)

lemma cascade_record_ok: "cascade_ok s \<Longrightarrow> cascade_ok (cascade_record rb b s)"
  by (auto simp: cascade_ok_def cascade_record_def Let_def)

lemma reset_stats_ok: "icp_ok (icp_reset_stats s)" "cascade_ok (cascade_reset_stats t)"
  by (simp_all add: icp_ok_def icp_reset_stats_def cascade_ok_def cascade_reset_stats_def)

lemma run_request_stats [keeps_intros]: "keeps stats_ok (run_request E k rr p mx b pr)"
  by (auto simp: keeps_def run_request_def pbind_apply call_engine_def Let_def stats_ok_def
      register_pin_def split: sum.splits)

lemma execute_stats [keeps_intros]: "keeps stats_ok (execute E rr p mx b pr)"
  by (cases p) (simp_all add: chatcomplete_def complete_text_def run_request_stats)

lemma unpin_stats [keeps_intros]: "keeps stats_ok (unpin rr i)" "keeps stats_ok (unpin_ctx c)"
    "keeps stats_ok (unpin_previous rr p r)"
proof -
  show u: "keeps stats_ok (unpin rr i)" for rr i
    by (simp add: keeps_def unpin_def pbind_apply stats_ok_def)
  show "keeps stats_ok (unpin_ctx c)" "keeps stats_ok (unpin_previous rr p r)"
    unfolding unpin_ctx_def unpin_previous_def by (intro keeps_intros u)+
qed

lemma handle_output_stats [keeps_intros]: "keeps stats_ok (handle_output op c out)"
  unfolding handle_output_def Let_def by (intro keeps_intros)

lemma other_stats [keeps_intros]:
  "keeps stats_ok (pmodify (\<lambda>w. w\<lparr>w_delegated := h w\<rparr>))"
  "keeps stats_ok (pmodify (\<lambda>w. w\<lparr>w_estimator := k w\<rparr>))"
  "keeps stats_ok (post_icp E p)"
  by (simp_all add: keeps_def stats_ok_def post_icp_def split: icp_reply.splits)

lemma filter_stats [keeps_intros]: "keeps stats_ok (filter_run_single E op i mx pr ctx)"
  unfolding filter_run_single_def Let_def by (intro keeps_intros)

lemma icp_finish_stats:
  "keeps stats_ok (icp_finish op ''icp_helper_positive'' sc True c)"
  "keeps stats_ok (icp_finish op ''icp_helper_negative'' sc False c)"
  "keeps stats_ok (icp_finish op ''icp_oracle_fallback'' sc b c)"
  unfolding icp_finish_def by (intro keeps_intros keeps_modify; simp add: stats_ok_def icp_record_ok)+

lemma icp_stats [keeps_intros]: "keeps stats_ok (icp_filter_call E op i low high mx pr ctx)"
  unfolding icp_filter_call_def by (intro keeps_intros icp_finish_stats)

lemma cascade_stats [keeps_intros]: "keeps stats_ok (cascade_call E op cfg pr ctx)"
proof -
  have "keeps stats_ok (cascade_finish op q v b rb p c)" for q v b rb p c
    unfolding cascade_finish_def Let_def
    by (intro keeps_intros keeps_modify; simp add: stats_ok_def cascade_record_ok)
  then show ?thesis
    unfolding cascade_call_def fallback_to_main_def Let_def by (intro keeps_intros)
qed

lemma map_stats [keeps_intros]: "keeps stats_ok (map_call E op i pr ctx)"
  unfolding map_call_def map_run_single_def map_retry_def map_success_def map_finish_pin_def Let_def
  by (intro keeps_intros)

lemma classify_stats [keeps_intros]: "keeps stats_ok (classify_call E op cl mx i pr ctx)"
  unfolding classify_call_def Let_def by (intro keeps_intros)

lemma search_stats [keeps_intros]: "keeps stats_ok (indexed_search_call E cfg ctx)"
  unfolding indexed_search_call_def query_retrieval_def build_remote_index_def Let_def
  by (intro keeps_intros)

lemma op_call_stats: "keeps stats_ok (op_call E op pr ctx)"
  unfolding op_call_def by (cases "kind op") (auto intro: keeps_intros)

section \<open>Properties\<close>

text \<open>
  C18. The registry of pinned requests mirrors the engine across every operator call, also
  one that raises: a request id is registered exactly when the engine's last pin or unpin
  about it was a pin.
\<close>

theorem op_call_registry:
  assumes "registry_inv (w_registry w)" "registry_ids (w_registry w) = held_after (pin_calls w)"
    "op_call E op pr ctx w = (r, w')"
  shows "registry_ids (w_registry w') = held_after (pin_calls w')"
  using keepsD [OF op_call_mirrored, of w E op pr ctx] assms by (simp add: mirrored_def)

definition demo_filter :: phys_op where
  "demo_filter = (sem_filter_init ''is it true'' 8 0)\<lparr>pin := True\<rparr>"

theorem op_call_registry_witness:
  "registry_inv (w_registry demo_world) \<and> registry_ids (w_registry demo_world) = held_after (pin_calls demo_world) \<and>
   (\<exists>r w'. op_call (demo_env ''TRUE'') demo_filter 0 demo_ctx demo_world = (r, w') \<and>
     registry_ids (w_registry w') = held_after (pin_calls w'))"
proof -
  have m: "registry_inv (w_registry demo_world)" "registry_ids (w_registry demo_world) = held_after (pin_calls demo_world)"
    using demo_world_mirrored by (simp_all add: mirrored_def)
  obtain r w' where "op_call (demo_env ''TRUE'') demo_filter 0 demo_ctx demo_world = (r, w')"
    by (cases "op_call (demo_env ''TRUE'') demo_filter 0 demo_ctx demo_world")
  with op_call_registry [OF m, of "demo_env ''TRUE''" demo_filter 0 demo_ctx] m show ?thesis by blast
qed

text \<open>
  C27. The counters of both cascade operators add up across every operator call: each call
  is accepted or rejected, resolved by the helper or by the fallback, and the parts agree.
\<close>

theorem op_call_counters:
  assumes "icp_ok (w_icp w)" "cascade_ok (w_cascade w)" "op_call E op pr ctx w = (r, w')"
  shows "icp_ok (w_icp w') \<and> cascade_ok (w_cascade w')"
  using keepsD [OF op_call_stats, of w E op pr ctx] assms by (simp add: stats_ok_def)

theorem op_call_counters_witness:
  "\<exists>r w'. op_call (demo_env ''TRUE'') (base_op (ICPFilter ''p'' 0 1 8) 1 True) 0
     (demo_ctx\<lparr>state := (state demo_ctx)\<lparr>helper_score := Some 1\<rparr>\<rparr>) demo_world = (r, w') \<and>
     ic_called (w_icp w') = 1 \<and> icp_ok (w_icp w')"
proof -
  let ?op = "base_op (ICPFilter ''p'' 0 1 8) 1 True"
  let ?ctx = "demo_ctx\<lparr>state := (state demo_ctx)\<lparr>helper_score := Some 1\<rparr>\<rparr>"
  obtain r w' where x: "op_call (demo_env ''TRUE'') ?op 0 ?ctx demo_world = (r, w')"
    by (cases "op_call (demo_env ''TRUE'') ?op 0 ?ctx demo_world")
  then have "ic_called (w_icp w') = 1"
    by (auto simp: op_call_def base_op_def icp_filter_call_def icp_finish_def handle_output_def
        output_passed_def demo_world_def icp_record_def Let_def)
  moreover have "icp_ok (w_icp demo_world)" "cascade_ok (w_cascade demo_world)"
    by (simp_all add: icp_ok_def cascade_ok_def demo_world_def)
  ultimately show ?thesis using op_call_counters [OF _ _ x] x by blast
qed

end
