(* ===== verification/Plan_Parse.thy ===== *)
theory Plan_Parse
  imports Sem_Ops
begin

text \<open>
  Parsing a query (\<open>SemanticPlan.parse_ops\<close> of \<open>kalypso/controller/plan.py\<close>): logical operators
  with their JSON arguments become physical operators, then the pin and unpin flags are set
  on the chains of tuple-independent operators. The arguments of a node are a record with one
  field per key the parser reads: \<open>None\<close> when the key is absent, and for the keys whose explicit
  null differs from absence an option inside. Loading the right table is an argument.
\<close>

section \<open>Logical operators\<close>

record op_args =
  a_prompt :: "string option"
  a_instruction :: "string option"
  a_classes :: "string list option"
  a_k :: "int option"
  a_cascade :: "bool option"
  a_llm_cascade :: "bool option"
  a_cascade_model :: "string option"
  a_cascade_api_base :: "string option"
  a_cascade_port :: "int option"
  a_cascade_max_tokens :: "int option"
  a_cascade_low :: "rat option option"
  a_cascade_high :: "rat option option"
  a_low :: "rat option"
  a_high :: "rat option"
  a_icp :: "bool option"
  a_icp_oracle_fallback :: "bool option"
  a_right_table :: "string option"
  a_icp_address :: "string option"
  a_icp_port :: "int option"
  a_icp_top_k :: "int option option"
  a_icp_low :: "rat option"
  a_icp_high :: "rat option"
  a_icp_cp_id :: "string option"
  a_icp_oracle_instruction :: "string option"
  a_icp_oracle_max_tokens :: "int option"

record logical_op =
  lo_name :: string
  lo_args :: op_args

record parse_env =
  pe_tk :: tokenizer
  pe_os :: environ
  pe_load :: "string \<Rightarrow> sem_context list res"
  pe_ident :: "nat \<Rightarrow> int"

text \<open>\<open>args[key]\<close>\<close>

definition arg :: "'a option \<Rightarrow> 'a res" where
  "arg x = (case x of None \<Rightarrow> Inl KeyError | Some v \<Rightarrow> Inr v)"

definition flag :: "bool option \<Rightarrow> bool" where
  "flag x = (case x of None \<Rightarrow> False | Some b \<Rightarrow> b)"

definition or_default :: "'a option \<Rightarrow> 'a \<Rightarrow> 'a" where
  "or_default x d = (case x of None \<Rightarrow> d | Some v \<Rightarrow> v)"

definition use_cascade :: "op_args \<Rightarrow> bool" where
  "use_cascade a \<longleftrightarrow> flag (a_cascade a) \<or> flag (a_llm_cascade a)"

definition parse_cascade :: "parse_env \<Rightarrow> op_args \<Rightarrow> string \<Rightarrow> nat \<Rightarrow> phys_op res" where
  "parse_cascade P a instruction i =
     cascade_init (pe_os P) instruction (a_cascade_model a) (a_cascade_api_base a) (a_cascade_port a)
       (or_default (a_cascade_max_tokens a) 8)
       (or_default (a_cascade_low a) (a_low a)) (or_default (a_cascade_high a) (a_high a)) (int i)"

definition parse_right_table :: "parse_env \<Rightarrow> op_args \<Rightarrow> sem_context list res" where
  "parse_right_table P a = (case a_right_table a of None \<Rightarrow> Inr [] | Some path \<Rightarrow> pe_load P path)"

definition parse_icp_config :: "parse_env \<Rightarrow> op_args \<Rightarrow> sem_context list \<Rightarrow> nat \<Rightarrow> icp_cfg" where
  "parse_icp_config P a table i =
     icp_config table (or_default (a_icp_address a) ''127.0.0.1'') (or_default (a_icp_port a) 8000)
       (or_default (a_icp_top_k a) (Some 5)) (a_icp_low a) (a_icp_high a) (a_icp_cp_id a) (int i)
       (pe_ident P i)"

definition parse_product :: "parse_env \<Rightarrow> op_args \<Rightarrow> nat \<Rightarrow> phys_op res" where
  "parse_product P a i =
     rbind (parse_right_table P a) (\<lambda>table.
       Inr (if a_icp a = Some True
            then indexed_cartesian_init (parse_icp_config P a table i) (int i)
            else cartesian_init table (int i)))"

definition parse_oracle :: "op_args \<Rightarrow> nat \<Rightarrow> phys_op res" where
  "parse_oracle a i =
     (let instruction = first_truthy [a_icp_oracle_instruction a, a_instruction a] '''' in
      if instruction = '''' then Inl ValueError
      else icp_filter_init instruction (a_icp_low a) (a_icp_high a)
             (or_default (a_icp_oracle_max_tokens a) 8) (int i))"

definition parse_join_filter :: "parse_env \<Rightarrow> op_args \<Rightarrow> nat \<Rightarrow> phys_op res" where
  "parse_join_filter P a i =
     (if use_cascade a then rbind (arg (a_instruction a)) (\<lambda>ins. parse_cascade P a ins i)
      else if a_icp a = Some True \<and> a_icp_low a \<noteq> None \<and> a_icp_high a \<noteq> None then parse_oracle a i
      else rbind (arg (a_instruction a)) (\<lambda>ins. Inr (sem_filter_init ins 8 (int i))))"

definition parse_op :: "parse_env \<Rightarrow> nat \<Rightarrow> logical_op \<Rightarrow> phys_op list res" where
  "parse_op P i node =
     (let name = lo_name node; a = lo_args node in
      if name = SEM_FILTER then
        rbind (arg (a_prompt a)) (\<lambda>ins.
          if use_cascade a then rbind (parse_cascade P a ins i) (\<lambda>op. Inr [op])
          else Inr [sem_filter_init ins 8 (int i)])
      else if name = SEM_MAP then
        rbind (arg (a_prompt a)) (\<lambda>ins. Inr [sem_map_init ins (int i)])
      else if py_in name SEM_CLASSIFY then
        rbind (arg (a_classes a)) (\<lambda>cl.
        rbind (sem_classify_init (pe_tk P) cl (int i)) (\<lambda>op. Inr [op]))
      else if name = SEM_AGG then
        rbind (arg (a_instruction a)) (\<lambda>ins. Inr [sem_agg_init ins (int i)])
      else if name = SEM_TOPK then
        rbind (arg (a_instruction a)) (\<lambda>ins.
        rbind (arg (a_k a)) (\<lambda>k. Inr [sem_topk_init ins k (int i)]))
      else if name = JOIN then
        rbind (parse_product P a i) (\<lambda>cp.
        rbind (parse_join_filter P a i) (\<lambda>flt. Inr [cp, flt]))
      else if name = CARTESIAN_PRODUCT then
        rbind (parse_product P a i) (\<lambda>cp.
          if flag (a_icp_oracle_fallback a) then rbind (parse_oracle a i) (\<lambda>flt. Inr [cp, flt])
          else Inr [cp])
      else if name = INDEXED_SEARCH then
        rbind (parse_right_table P a) (\<lambda>table.
          Inr [indexed_search_init (parse_icp_config P a table i) (int i)])
      else Inl ValueError)"

primrec parse_all :: "parse_env \<Rightarrow> nat \<Rightarrow> logical_op list \<Rightarrow> phys_op list res" where
  "parse_all P i [] = Inr []"
| "parse_all P i (node # rest) =
     rbind (parse_op P i node) (\<lambda>ops. rbind (parse_all P (Suc i) rest) (\<lambda>more. Inr (ops @ more)))"

section \<open>Pin and unpin flags\<close>

definition reset_flags :: "phys_op list \<Rightarrow> phys_op list" where
  "reset_flags ops = map (\<lambda>op. op\<lparr>pin := False, unpin_flag := False\<rparr>) ops"

definition set_pin_flag :: "nat \<Rightarrow> phys_op list \<Rightarrow> phys_op list" where
  "set_pin_flag i ops = ops[i := (ops ! i)\<lparr>pin := True\<rparr>]"

definition set_unpin_flag :: "nat \<Rightarrow> phys_op list \<Rightarrow> phys_op list" where
  "set_unpin_flag i ops = ops[i := (ops ! i)\<lparr>unpin_flag := True\<rparr>]"

text \<open>A chain is the list of the positions of its operators.\<close>

definition finalize_chain :: "op_behavior option \<Rightarrow> nat list \<Rightarrow> phys_op list \<Rightarrow> phys_op list" where
  "finalize_chain next_behavior chain ops =
     (if chain = [] then ops
      else if next_behavior = Some JOINING then set_pin_flag (hd chain) ops
      else if next_behavior = None \<and> length chain > 1
      then set_unpin_flag (last chain) (set_pin_flag (hd chain) ops)
      else ops)"

definition pin_step :: "nat \<Rightarrow> nat list \<times> phys_op list \<Rightarrow> nat list \<times> phys_op list" where
  "pin_step i st =
     (case st of (chain, ops) \<Rightarrow>
        let next_behavior = (if i + 1 < length ops then Some (behavior (ops ! (i + 1))) else None) in
        if behavior (ops ! i) = TUPLE_INDEPENDENT
        then let chain = chain @ [i] in
             if next_behavior \<noteq> Some TUPLE_INDEPENDENT
             then ([], finalize_chain next_behavior chain ops)
             else (chain, ops)
        else ([], ops))"

definition apply_pin_unpin :: "bool \<Rightarrow> phys_op list \<Rightarrow> phys_op list res" where
  "apply_pin_unpin virtual_pinning ops =
     (let ops = reset_flags ops in
      if \<not> virtual_pinning then Inr ops
      else let ops = snd (fold pin_step [0..<length ops] ([], ops))
           in if \<exists>op \<in> set ops. pin op \<and> unpin_flag op then Inl AssertionError else Inr ops)"

definition parse_ops :: "parse_env \<Rightarrow> bool \<Rightarrow> logical_op list \<Rightarrow> phys_op list res" where
  "parse_ops P virtual_pinning logical_ops =
     rbind (parse_all P 0 logical_ops) (apply_pin_unpin virtual_pinning)"

section \<open>Which operators are flagged\<close>

text \<open>
  \<open>ti ops i\<close>: position \<open>i\<close> holds a tuple-independent operator. \<open>pin_run ops i e\<close>: a maximal run
  of them from \<open>i\<close> to before \<open>e\<close> feeds a join, or ends the query and has more than one operator.
\<close>

definition ti :: "phys_op list \<Rightarrow> nat \<Rightarrow> bool" where
  "ti ops i \<longleftrightarrow> i < length ops \<and> behavior (ops ! i) = TUPLE_INDEPENDENT"

definition pin_run :: "phys_op list \<Rightarrow> nat \<Rightarrow> nat \<Rightarrow> bool" where
  "pin_run ops i e \<longleftrightarrow> i < e \<and> (\<forall>j. i \<le> j \<and> j < e \<longrightarrow> ti ops j) \<and> (i = 0 \<or> \<not> ti ops (i - 1)) \<and>
     (e < length ops \<and> behavior (ops ! e) = JOINING \<or> e = length ops \<and> e - i > 1)"

definition ends_query :: "phys_op list \<Rightarrow> nat \<Rightarrow> bool" where
  "ends_query ops i \<longleftrightarrow> Suc i = length ops \<and> 0 < i \<and> ti ops i \<and> ti ops (i - 1)"

lemma behavior_flags [simp]:
  "behavior (op\<lparr>pin := b\<rparr>) = behavior op" "behavior (op\<lparr>unpin_flag := b\<rparr>) = behavior op"
  by (simp_all add: behavior_def)

lemma set_flags_nth:
  "i < length ops \<Longrightarrow> set_pin_flag k ops ! i = (if i = k then (ops ! i)\<lparr>pin := True\<rparr> else ops ! i)"
  "i < length ops \<Longrightarrow> set_unpin_flag k ops ! i = (if i = k then (ops ! i)\<lparr>unpin_flag := True\<rparr> else ops ! i)"
  "length (set_pin_flag k ops) = length ops" "length (set_unpin_flag k ops) = length ops"
  by (auto simp: set_pin_flag_def set_unpin_flag_def nth_list_update)

text \<open>What the loop has established after \<open>k\<close> operators of \<open>ops\<close>; \<open>s\<close> starts the open chain.\<close>

definition pin_inv :: "phys_op list \<Rightarrow> nat \<Rightarrow> nat list \<times> phys_op list \<Rightarrow> bool" where
  "pin_inv ops k st \<longleftrightarrow> (case st of (chain, cur) \<Rightarrow>
     (\<exists>s\<le>k. chain = [s..<k] \<and> (\<forall>j. s \<le> j \<and> j < k \<longrightarrow> ti ops j) \<and> (s < k \<longrightarrow> ti ops k) \<and>
        (s = 0 \<or> \<not> ti ops (s - 1) \<or> \<not> ti ops s)) \<and>
     length cur = length ops \<and>
     (\<forall>i<length ops. behavior (cur ! i) = behavior (ops ! i) \<and> kind (cur ! i) = kind (ops ! i) \<and>
        (pin (cur ! i) \<longleftrightarrow> (\<exists>e\<le>k. pin_run ops i e)) \<and>
        (unpin_flag (cur ! i) \<longleftrightarrow> k = length ops \<and> ends_query ops i)))"

lemma pin_inv_start: "pin_inv ops 0 ([], reset_flags ops)"
  by (auto simp: pin_inv_def reset_flags_def pin_run_def ends_query_def behavior_def)

lemma run_start_unique:
  fixes P :: "nat \<Rightarrow> bool"
  assumes "s < e" "\<forall>j. s \<le> j \<and> j < e \<longrightarrow> P j" "s = 0 \<or> \<not> P (s - 1)"
    "i < e" "\<forall>j. i \<le> j \<and> j < e \<longrightarrow> P j" "i = 0 \<or> \<not> P (i - 1)"
  shows "i = s"
proof -
  have False if "a < b" "b < e" "\<forall>j. a \<le> j \<and> j < e \<longrightarrow> P j" "b = 0 \<or> \<not> P (b - 1)" for a b
  proof -
    have "a \<le> b - 1 \<and> b - 1 < e" using that(1,2) by linarith
    with that(3) have "P (b - 1)" by blast
    with that(1,4) show False by simp
  qed
  with assms show ?thesis by (metis linorder_neqE_nat)
qed

lemma finalize_chain_nth:
  assumes "s \<le> k" "k < length cur" "i < length cur"
  shows "length (finalize_chain nb [s..<Suc k] cur) = length cur"
    "kind (finalize_chain nb [s..<Suc k] cur ! i) = kind (cur ! i)"
    "pin (finalize_chain nb [s..<Suc k] cur ! i) \<longleftrightarrow>
       pin (cur ! i) \<or> i = s \<and> (nb = Some JOINING \<or> nb = None \<and> s < k)"
    "unpin_flag (finalize_chain nb [s..<Suc k] cur ! i) \<longleftrightarrow>
       unpin_flag (cur ! i) \<or> i = k \<and> nb = None \<and> s < k"
  using assms by (auto simp: finalize_chain_def set_flags_nth hd_append simp del: upt_Suc)

lemma pin_inv_step:
  assumes k: "k < length ops" and inv: "pin_inv ops k st"
  shows "pin_inv ops (Suc k) (pin_step k st)"
proof -
  obtain chain cur where st: "st = (chain, cur)" by (cases st)
  from inv obtain s where s: "s \<le> k" "chain = [s..<k]" "\<forall>j. s \<le> j \<and> j < k \<longrightarrow> ti ops j"
      "s < k \<longrightarrow> ti ops k" "s = 0 \<or> \<not> ti ops (s - 1) \<or> \<not> ti ops s"
    and len: "length cur = length ops"
    and cur: "\<And>i. i < length ops \<Longrightarrow> behavior (cur ! i) = behavior (ops ! i) \<and> kind (cur ! i) = kind (ops ! i) \<and>
        (pin (cur ! i) \<longleftrightarrow> (\<exists>e\<le>k. pin_run ops i e)) \<and> \<not> unpin_flag (cur ! i)"
    using k unfolding st pin_inv_def by auto
  let ?nb = "if k + 1 < length cur then Some (behavior (cur ! (k + 1))) else None"
  have nb: "?nb = (if Suc k < length ops then Some (behavior (ops ! Suc k)) else None)"
    using cur [of "Suc k"] len by auto
  have upto: "(\<exists>e\<le>Suc k. pin_run ops i e) \<longleftrightarrow> (\<exists>e\<le>k. pin_run ops i e) \<or> pin_run ops i (Suc k)" for i
    by (metis le_Suc_eq)
  show ?thesis
  proof (cases "ti ops k")
    case False
    then have "\<not> pin_run ops i (Suc k)" for i by (auto simp: pin_run_def)
    moreover have "\<not> ends_query ops i" if "Suc k = length ops" for i
      using False that unfolding ends_query_def by (metis nat.inject)
    moreover have "pin_step k st = ([], cur)"
      using False cur [OF k] k by (auto simp: pin_step_def st ti_def Let_def)
    ultimately show ?thesis
      using False cur len upto by (auto simp: pin_inv_def intro!: exI [of _ "Suc k"])
  next
    case True
    have start: "s = 0 \<or> \<not> ti ops (s - 1)" using s True by (cases "s = k") auto
    have run: "\<forall>j. s \<le> j \<and> j < Suc k \<longrightarrow> ti ops j" using s(3) True by (auto simp: less_Suc_eq)
    have app: "chain @ [k] = [s..<Suc k]" using s(1,2) by simp
    have bk: "behavior (cur ! k) = TUPLE_INDEPENDENT" using True cur [OF k] by (simp add: ti_def)
    show ?thesis
    proof (cases "?nb = Some TUPLE_INDEPENDENT")
      case True
      then have tk: "ti ops (Suc k)" using nb by (auto simp: ti_def split: if_splits)
      then have "\<not> pin_run ops i (Suc k)" for i by (auto simp: pin_run_def ti_def)
      moreover have "Suc k \<noteq> length ops" using tk by (auto simp: ti_def)
      moreover have "pin_step k st = ([s..<Suc k], cur)"
        using True bk app by (simp add: pin_step_def st Let_def del: upt_Suc)
      ultimately show ?thesis
        unfolding pin_inv_def using s(1) run tk start cur len upto
        by (auto simp del: upt_Suc intro!: exI [of _ s])
    next
      case False
      have step: "pin_step k st = ([], finalize_chain ?nb [s..<Suc k] cur)"
        using False bk app by (simp add: pin_step_def st Let_def del: upt_Suc)
      have notti: "\<not> ti ops (Suc k)" using False nb by (auto simp: ti_def)
      have newpin: "pin_run ops i (Suc k) \<longleftrightarrow> i = s \<and> (?nb = Some JOINING \<or> ?nb = None \<and> s < k)" for i
      proof -
        have "pin_run ops s (Suc k) \<longleftrightarrow> ?nb = Some JOINING \<or> ?nb = None \<and> s < k"
          unfolding nb pin_run_def using run start s(1) k by auto
        moreover have "i = s" if "pin_run ops i (Suc k)"
          by (rule run_start_unique [of s "Suc k" "ti ops" i]) (use that run start s(1) in \<open>auto simp: pin_run_def\<close>)
        ultimately show ?thesis by auto
      qed
      have prev: "ti ops (k - 1) \<longleftrightarrow> s < k" if "0 < k"
      proof
        assume "s < k"
        then have "s \<le> k - 1 \<and> k - 1 < Suc k" by linarith
        with run show "ti ops (k - 1)" by blast
      next
        assume "ti ops (k - 1)"
        with start s(1) that show "s < k" by (cases "s = k") auto
      qed
      have newunpin: "Suc k = length ops \<and> ends_query ops i \<longleftrightarrow> i = k \<and> ?nb = None \<and> s < k" for i
      proof (cases "Suc k = length ops \<and> i = k")
        case True
        with \<open>ti ops k\<close> prev s(1) show ?thesis unfolding nb ends_query_def by auto
      next
        case False
        with k show ?thesis unfolding nb ends_query_def by auto
      qed
      show ?thesis
        unfolding pin_inv_def step
        using finalize_chain_nth [OF s(1), of cur] k len cur notti upto newpin newunpin
        by (auto simp: behavior_def simp del: upt_Suc intro!: exI [of _ "Suc k"])
    qed
  qed
qed

lemma pin_inv_loop: "k \<le> length ops \<Longrightarrow> pin_inv ops k (fold pin_step [0..<k] ([], reset_flags ops))"
  by (induction k) (simp_all add: pin_inv_start pin_inv_step)

lemma pin_flags_disjoint: "pin_run ops i e \<Longrightarrow> e \<le> length ops \<Longrightarrow> \<not> ends_query ops i"
  by (auto simp: pin_run_def ends_query_def)

lemma apply_pin_unpin_result:
  "\<exists>ops'. apply_pin_unpin True ops = Inr ops' \<and> pin_inv ops (length ops) ([], ops')"
proof -
  obtain chain cur where st: "fold pin_step [0..<length ops] ([], reset_flags ops) = (chain, cur)"
    by (cases "fold pin_step [0..<length ops] ([], reset_flags ops)")
  have inv: "pin_inv ops (length ops) (chain, cur)" using pin_inv_loop [of "length ops" ops] st by simp
  then have len: "length cur = length ops" and flags: "\<And>i. i < length ops \<Longrightarrow>
      (pin (cur ! i) \<longleftrightarrow> (\<exists>e\<le>length ops. pin_run ops i e)) \<and> (unpin_flag (cur ! i) \<longleftrightarrow> ends_query ops i)"
    by (auto simp: pin_inv_def)
  have "\<not> (\<exists>op \<in> set cur. pin op \<and> unpin_flag op)"
    using flags len pin_flags_disjoint by (metis in_set_conv_nth)
  moreover have "pin_inv ops (length ops) ([], cur)"
    using inv unfolding pin_inv_def ti_def by auto
  ultimately show ?thesis
    using st by (auto simp: apply_pin_unpin_def reset_flags_def)
qed

section \<open>Properties\<close>

text \<open>
  C12. Virtual pinning never raises and flags exactly the right operators: the first of each
  maximal run of tuple-independent operators that feeds a join, or that ends the query with
  more than one operator, is pinned; the last of a run that ends the query with more than one
  operator is unpinned; no operator is both, and nothing else about the operators changes.
\<close>

theorem pin_flags_correct:
  "\<exists>ops'. apply_pin_unpin True ops = Inr ops' \<and> length ops' = length ops \<and>
     (\<forall>i<length ops. kind (ops' ! i) = kind (ops ! i) \<and>
        (pin (ops' ! i) \<longleftrightarrow> (\<exists>e\<le>length ops. pin_run ops i e)) \<and>
        (unpin_flag (ops' ! i) \<longleftrightarrow> ends_query ops i) \<and> \<not> (pin (ops' ! i) \<and> unpin_flag (ops' ! i)))"
  using apply_pin_unpin_result [of ops] pin_flags_disjoint [of ops]
  unfolding pin_inv_def by auto

theorem pin_flags_correct_witness:
  "\<exists>ops'. apply_pin_unpin True [sem_filter_init ''p'' 8 0, sem_map_init ''m'' 1] = Inr ops' \<and>
     pin (ops' ! 0) \<and> unpin_flag (ops' ! 1)"
proof -
  let ?ops = "[sem_filter_init ''p'' 8 0, sem_map_init ''m'' 1]"
  have "ti ?ops 0" "ti ?ops 1" by (simp_all add: ti_def)
  then have "pin_run ?ops 0 2" "ends_query ?ops 1"
    by (auto simp: pin_run_def ends_query_def less_2_cases_iff)
  then show ?thesis
    using pin_flags_correct [of ?ops]
    by (metis One_nat_def Suc_1 lessI length_Cons list.size(3) order_refl zero_less_Suc)
qed

text \<open>
  Every substring of ``sem_classify'' that no other branch claims is taken for a
  classification: a node named ``sem'', which is not an operator, parses like one with the
  same arguments named ``sem_classify''.
\<close>

theorem classify_substring:
  "''sem'' \<notin> set OPERATOR_LIST \<and>
   parse_op P i \<lparr>lo_name = ''sem'', lo_args = a\<rparr> = parse_op P i \<lparr>lo_name = SEM_CLASSIFY, lo_args = a\<rparr>"
  by (simp add: parse_op_def op_names OPERATOR_LIST_def)

end
