(* ===== verification/KV_Budget.thy ===== *)
theory KV_Budget
  imports Py_Prelude
begin

text \<open>
  The KV-cache byte ledger \<open>KVMemoryManager\<close> of \<open>vllm/kalypso/budget.py\<close>: per-stage
  capacities with a protected minimum and a maximum, bytes in use and tasks in flight,
  borrowing capacity between stages, and the global (blocking) account.

  Every method takes the condition lock for its whole body, so each is one atomic
  transition of the record; a method that waits on the condition returns \<open>None\<close>
  where it would wait. The tokenizer and the model configuration are parameters.
\<close>

section \<open>Model configuration\<close>

record model_config =
  num_hidden_layers :: int
  num_attention_heads :: int
  num_key_value_heads :: "int option"
  hidden_size :: int

datatype torch_dtype = Float16 | BFloat16 | Float32 | OtherDtype

fun dtype_bytes :: "torch_dtype \<Rightarrow> int res" where
  "dtype_bytes Float16 = Inr 2"
| "dtype_bytes BFloat16 = Inr 2"
| "dtype_bytes Float32 = Inr 4"
| "dtype_bytes OtherDtype = Inl KeyError"

definition compute_bytes_per_token :: "model_config \<Rightarrow> torch_dtype \<Rightarrow> int res" where
  "compute_bytes_per_token cfg dtype =
     (let num_layers = num_hidden_layers cfg;
          num_kv_heads = (case num_key_value_heads cfg of
              None \<Rightarrow> num_attention_heads cfg | Some h \<Rightarrow> h)
      in if num_attention_heads cfg = 0 then Inl ZeroDivisionError
         else let head_dim = hidden_size cfg div num_attention_heads cfg
              in rbind (dtype_bytes dtype)
                   (\<lambda>b. Inr (2 * num_layers * num_kv_heads * head_dim * b)))"

section \<open>State\<close>

record kv_mgr =
  bytes_per_token :: int
  kv_capacity :: int
  global_used :: int
  stage_capacity :: "(int, rat) dict"
  stage_min_capacity :: "(int, rat) dict"
  stage_max_capacity :: "(int, rat) dict"
  stage_used :: "(int, int) dict"
  stage_inflight :: "(int, int) dict"

definition kv_mgr_init :: "int \<Rightarrow> int \<Rightarrow> kv_mgr" where
  "kv_mgr_init bpt kv_cap =
     \<lparr>bytes_per_token = bpt, kv_capacity = kv_cap, global_used = 0,
      stage_capacity = [], stage_min_capacity = [], stage_max_capacity = [],
      stage_used = [], stage_inflight = []\<rparr>"

text \<open>The process-wide singleton: \<open>init\<close> fails when it exists, \<open>get_instance\<close> when it does not.\<close>

definition mgr_init_instance :: "kv_mgr option \<Rightarrow> kv_mgr \<Rightarrow> kv_mgr option res" where
  "mgr_init_instance inst m = (case inst of Some _ \<Rightarrow> Inl RuntimeError | None \<Rightarrow> Inr (Some m))"

definition mgr_get_instance :: "kv_mgr option \<Rightarrow> kv_mgr res" where
  "mgr_get_instance inst = (case inst of None \<Rightarrow> Inl RuntimeError | Some m \<Rightarrow> Inr m)"

section \<open>Stage capacities\<close>

definition register_stage ::
  "kv_mgr \<Rightarrow> int \<Rightarrow> rat \<Rightarrow> rat option \<Rightarrow> rat option \<Rightarrow> int option \<Rightarrow> kv_mgr" where
  "register_stage m stage_id fraction min_fraction max_fraction min_capacity_bytes =
     (let min_fraction = (case min_fraction of None \<Rightarrow> fraction | Some f \<Rightarrow> f);
          max_fraction = (case max_fraction of None \<Rightarrow> fraction | Some f \<Rightarrow> f);
          cap = of_int (kv_capacity m) * fraction;
          min_cap = of_int (kv_capacity m) * min_fraction;
          min_cap = (case min_capacity_bytes of None \<Rightarrow> min_cap | Some b \<Rightarrow> max min_cap (of_int b))
      in m\<lparr>stage_capacity := AList.update stage_id cap (stage_capacity m),
           stage_min_capacity := AList.update stage_id (min min_cap cap) (stage_min_capacity m),
           stage_max_capacity :=
             AList.update stage_id (of_int (kv_capacity m) * max_fraction) (stage_max_capacity m),
           stage_used := AList.update stage_id 0 (stage_used m),
           stage_inflight := AList.update stage_id 0 (stage_inflight m)\<rparr>)"

definition last_stage_id :: "kv_mgr \<Rightarrow> int option" where
  "last_stage_id m =
     (if stage_capacity m = [] then None else Some (Max (set (dkeys (stage_capacity m)))))"

definition quantum_of :: "kv_mgr \<Rightarrow> rat \<Rightarrow> int" where
  "quantum_of m quantum_fraction = max 1 (py_int (of_int (kv_capacity m) * quantum_fraction))"

text \<open>\<open>caps[src] -= delta; caps[dst] += delta\<close>\<close>

definition move_capacity :: "(int, rat) dict \<Rightarrow> int \<Rightarrow> int \<Rightarrow> rat \<Rightarrow> (int, rat) dict res" where
  "move_capacity caps src dst delta =
     rbind (dadd caps src (- delta)) (\<lambda>caps'. dadd caps' dst delta)"

definition donor_ids :: "kv_mgr \<Rightarrow> int \<Rightarrow> int option \<Rightarrow> int list" where
  "donor_ids m receiver_id donor_hint =
     (let hinted = (case donor_hint of None \<Rightarrow> [] | Some h \<Rightarrow> if h \<noteq> receiver_id then [h] else [])
      in hinted @ [s \<leftarrow> dkeys (stage_capacity m). s \<notin> set hinted \<and> s \<noteq> receiver_id])"

text \<open>The loop over the donors: the first with something to lend lends one quantum.\<close>

primrec borrow_loop :: "kv_mgr \<Rightarrow> int \<Rightarrow> rat \<Rightarrow> rat \<Rightarrow> int \<Rightarrow> int list \<Rightarrow> (bool \<times> kv_mgr) res" where
  "borrow_loop m receiver_id receiver_cap receiver_max quantum [] = Inr (False, m)"
| "borrow_loop m receiver_id receiver_cap receiver_max quantum (donor_id # rest) =
     (let donor_cap = dget (stage_capacity m) donor_id 0;
          donor_min = dget (stage_min_capacity m) donor_id donor_cap;
          donor_used = dget (stage_used m) donor_id 0;
          donor_floor = max donor_min (of_int donor_used);
          borrowable = donor_cap - donor_floor;
          delta = min (of_int quantum) (min borrowable (receiver_max - receiver_cap))
      in if borrowable \<le> 0 \<or> delta \<le> 0
         then borrow_loop m receiver_id receiver_cap receiver_max quantum rest
         else rbind (move_capacity (stage_capacity m) donor_id receiver_id delta)
                (\<lambda>caps. Inr (True, m\<lparr>stage_capacity := caps\<rparr>)))"

definition rebalance_stage_capacity ::
  "kv_mgr \<Rightarrow> int \<Rightarrow> int option \<Rightarrow> rat \<Rightarrow> (bool \<times> kv_mgr) res" where
  "rebalance_stage_capacity m receiver_id donor_hint quantum_fraction =
     (let quantum = quantum_of m quantum_fraction;
          receiver_cap = dget (stage_capacity m) receiver_id 0;
          receiver_max = dget (stage_max_capacity m) receiver_id receiver_cap
      in if receiver_cap \<ge> receiver_max then Inr (False, m)
         else borrow_loop m receiver_id receiver_cap receiver_max quantum
                (donor_ids m receiver_id donor_hint))"

definition return_stage_capacity ::
  "kv_mgr \<Rightarrow> int \<Rightarrow> rat \<Rightarrow> bool \<Rightarrow> (bool \<times> kv_mgr) res" where
  "return_stage_capacity m stage_id quantum_fraction force_return =
     (let quantum = quantum_of m quantum_fraction;
          cur_cap = dget (stage_capacity m) stage_id 0;
          min_cap = dget (stage_min_capacity m) stage_id cur_cap;
          cur_used = dget (stage_used m) stage_id 0;
          floor = (if force_return then of_int cur_used else max min_cap (of_int cur_used));
          releasable = cur_cap - floor
      in if releasable \<le> 0 then Inr (False, m)
         else case last_stage_id m of
             None \<Rightarrow> Inr (False, m)
           | Some receiver_id \<Rightarrow>
               if receiver_id = stage_id then Inr (False, m)
               else let receiver_cap = dget (stage_capacity m) receiver_id 0;
                        receiver_max = dget (stage_max_capacity m) receiver_id receiver_cap;
                        growable = receiver_max - receiver_cap;
                        delta = min (of_int quantum) (min releasable growable)
                    in if growable \<le> 0 \<or> delta \<le> 0 then Inr (False, m)
                       else rbind (move_capacity (stage_capacity m) stage_id receiver_id delta)
                              (\<lambda>caps. Inr (True, m\<lparr>stage_capacity := caps\<rparr>)))"

section \<open>Stage admission\<close>

definition can_admit_stage :: "kv_mgr \<Rightarrow> int \<Rightarrow> int \<Rightarrow> bool res" where
  "can_admit_stage m stage_id budget =
     (case (map_of (stage_used m) stage_id, map_of (stage_capacity m) stage_id) of
        (Some u, Some c) \<Rightarrow> Inr (of_int (u + budget) \<le> c)
      | _ \<Rightarrow> Inl KeyError)"

text \<open>\<open>used[s] += budget; inflight[s] += 1\<close>\<close>

definition charge_stage :: "kv_mgr \<Rightarrow> int \<Rightarrow> int \<Rightarrow> kv_mgr res" where
  "charge_stage m stage_id budget =
     rbind (dadd (stage_used m) stage_id budget) (\<lambda>used.
     rbind (dadd (stage_inflight m) stage_id 1) (\<lambda>infl.
     Inr (m\<lparr>stage_used := used, stage_inflight := infl\<rparr>)))"

definition try_allocate_stage :: "kv_mgr \<Rightarrow> int \<Rightarrow> int \<Rightarrow> (bool \<times> kv_mgr) res" where
  "try_allocate_stage m stage_id budget =
     rbind (can_admit_stage m stage_id budget) (\<lambda>ok.
       if \<not> ok then Inr (False, m)
       else rbind (charge_stage m stage_id budget) (\<lambda>m'. Inr (True, m')))"

text \<open>\<open>allocate_stage\<close> waits on the condition until the stage admits: \<open>None\<close> while it waits.\<close>

definition allocate_stage :: "kv_mgr \<Rightarrow> int \<Rightarrow> int \<Rightarrow> kv_mgr option res" where
  "allocate_stage m stage_id budget =
     rbind (can_admit_stage m stage_id budget) (\<lambda>ok.
       if \<not> ok then Inr None
       else rbind (charge_stage m stage_id budget) (\<lambda>m'. Inr (Some m')))"

definition force_allocate_stage :: "kv_mgr \<Rightarrow> int \<Rightarrow> int \<Rightarrow> kv_mgr res" where
  "force_allocate_stage m stage_id budget = charge_stage m stage_id budget"

definition release_stage :: "kv_mgr \<Rightarrow> int \<Rightarrow> int \<Rightarrow> kv_mgr res" where
  "release_stage m stage_id budget =
     (case (map_of (stage_used m) stage_id, map_of (stage_inflight m) stage_id) of
        (Some u, Some n) \<Rightarrow>
          Inr (m\<lparr>stage_used := AList.update stage_id (if u - budget < 0 then 0 else u - budget) (stage_used m),
                 stage_inflight := AList.update stage_id (if n - 1 < 0 then 0 else n - 1) (stage_inflight m)\<rparr>)
      | _ \<Rightarrow> Inl KeyError)"

definition stage_inflight_of :: "kv_mgr \<Rightarrow> int \<Rightarrow> int" where
  "stage_inflight_of m stage_id = dget (stage_inflight m) stage_id 0"

definition stage_usage :: "kv_mgr \<Rightarrow> int \<Rightarrow> int \<times> int" where
  "stage_usage m stage_id =
     (dget (stage_used m) stage_id 0, py_int (dget (stage_capacity m) stage_id 0))"

section \<open>Global account\<close>

definition can_admit :: "kv_mgr \<Rightarrow> int \<Rightarrow> bool" where
  "can_admit m budget \<longleftrightarrow> global_used m + budget \<le> kv_capacity m"

text \<open>\<open>allocate\<close> waits while the account is full.\<close>

definition allocate_global :: "kv_mgr \<Rightarrow> int \<Rightarrow> kv_mgr option" where
  "allocate_global m budget =
     (if global_used m + budget > kv_capacity m then None
      else Some (m\<lparr>global_used := global_used m + budget\<rparr>))"

definition release_global :: "kv_mgr \<Rightarrow> int \<Rightarrow> kv_mgr" where
  "release_global m budget =
     m\<lparr>global_used := (if global_used m - budget < 0 then 0 else global_used m - budget)\<rparr>"


section \<open>Well-formedness and safety\<close>

text \<open>
  All five dictionaries have the same keys in the same order. A stage is safe when the
  bytes in use are non-negative and fit its capacity.
\<close>

definition mgr_wf :: "kv_mgr \<Rightarrow> bool" where
  "mgr_wf m \<longleftrightarrow> dwf (stage_capacity m) \<and>
     dkeys (stage_min_capacity m) = dkeys (stage_capacity m) \<and>
     dkeys (stage_max_capacity m) = dkeys (stage_capacity m) \<and>
     dkeys (stage_used m) = dkeys (stage_capacity m) \<and>
     dkeys (stage_inflight m) = dkeys (stage_capacity m)"

definition registered :: "kv_mgr \<Rightarrow> int \<Rightarrow> bool" where
  "registered m s \<longleftrightarrow> s \<in> set (dkeys (stage_capacity m))"

abbreviation used_of :: "kv_mgr \<Rightarrow> int \<Rightarrow> int" where
  "used_of m s \<equiv> dget (stage_used m) s 0"

abbreviation cap_of :: "kv_mgr \<Rightarrow> int \<Rightarrow> rat" where
  "cap_of m s \<equiv> dget (stage_capacity m) s 0"

definition mgr_safe :: "kv_mgr \<Rightarrow> bool" where
  "mgr_safe m \<longleftrightarrow> (\<forall>s. registered m s \<longrightarrow> 0 \<le> used_of m s \<and> of_int (used_of m s) \<le> cap_of m s)"

lemma wf_used_Some:
  "mgr_wf m \<Longrightarrow> registered m s \<Longrightarrow> map_of (stage_used m) s = Some (used_of m s)"
  unfolding mgr_wf_def registered_def by (metis dkeys_map_of dget_Some)

lemma wf_cap_Some:
  "registered m s \<Longrightarrow> map_of (stage_capacity m) s = Some (cap_of m s)"
  unfolding registered_def by (metis dkeys_map_of dget_Some)

lemma wf_inflight_Some:
  "mgr_wf m \<Longrightarrow> registered m s \<Longrightarrow>
     map_of (stage_inflight m) s = Some (dget (stage_inflight m) s 0)"
  unfolding mgr_wf_def registered_def by (metis dkeys_map_of dget_Some)

lemma not_registered_defaults:
  assumes "mgr_wf m" "\<not> registered m s"
  shows "dget (stage_capacity m) s v = v" "dget (stage_min_capacity m) s v = v"
    "dget (stage_max_capacity m) s v = v" "dget (stage_used m) s w = w"
  using assms by (auto simp: mgr_wf_def registered_def map_of_dkeys [symmetric] simp del: set_map)
     (metis dget_None map_of_dkeys set_map)+

lemma move_capacity_present:
  assumes "src \<in> set (dkeys caps)" "dst \<in> set (dkeys caps)" "src \<noteq> dst"
  shows "move_capacity caps src dst delta =
     Inr (AList.update dst (dget caps dst 0 + delta) (AList.update src (dget caps src 0 - delta) caps))"
proof -
  obtain u v where "map_of caps src = Some u" "map_of caps dst = Some v"
    using assms by (metis dkeys_map_of)
  with assms(3) show ?thesis
    by (simp add: move_capacity_def dadd_def)
qed

lemma dsum_move_capacity:
  assumes "move_capacity caps src dst delta = Inr caps'"
  shows "dsum caps' = dsum caps"
proof -
  from assms obtain u v c1 where u: "map_of caps src = Some u"
    and c1: "c1 = AList.update src (u + - delta) caps"
    and v: "map_of c1 dst = Some v" and c2: "caps' = AList.update dst (v + delta) c1"
    by (auto simp: move_capacity_def py_simps)
  have "dsum c1 = dsum caps - delta"
    using u by (simp add: c1 dsum_update_present)
  then show ?thesis
    using v by (simp add: c2 dsum_update_present)
qed


section \<open>Moving capacity between stages\<close>

text \<open>
  \<open>lends m m' src dst floor\<close>: capacity went from \<open>src\<close> to \<open>dst\<close> without pushing
  \<open>src\<close> below \<open>floor\<close> or \<open>dst\<close> above its maximum, and nothing else changed.
\<close>

definition max_of :: "kv_mgr \<Rightarrow> int \<Rightarrow> rat" where
  "max_of m s = dget (stage_max_capacity m) s (cap_of m s)"

definition floor_of :: "kv_mgr \<Rightarrow> int \<Rightarrow> rat" where
  "floor_of m s = max (dget (stage_min_capacity m) s (cap_of m s)) (of_int (used_of m s))"

definition lends :: "kv_mgr \<Rightarrow> kv_mgr \<Rightarrow> int \<Rightarrow> int \<Rightarrow> rat \<Rightarrow> bool" where
  "lends m m' src dst flr \<longleftrightarrow>
     (\<exists>delta caps. 0 < delta \<and> src \<noteq> dst \<and> registered m src \<and> registered m dst \<and>
        delta \<le> cap_of m src - flr \<and> delta \<le> max_of m dst - cap_of m dst \<and>
        move_capacity (stage_capacity m) src dst delta = Inr caps \<and>
        m' = m\<lparr>stage_capacity := caps\<rparr>)"

lemma lendsE:
  assumes "lends m m' src dst flr"
  obtains delta where "0 < delta" "src \<noteq> dst" "registered m src" "registered m dst"
    "delta \<le> cap_of m src - flr" "delta \<le> max_of m dst - cap_of m dst"
    "m' = m\<lparr>stage_capacity := AList.update dst (cap_of m dst + delta)
        (AList.update src (cap_of m src - delta) (stage_capacity m))\<rparr>"
  using assms unfolding lends_def registered_def
  by (metis Inr_inject move_capacity_present)

lemma lendsI:
  assumes "0 < delta" "src \<noteq> dst" "registered m src" "registered m dst"
    "delta \<le> cap_of m src - flr" "delta \<le> max_of m dst - cap_of m dst"
    "move_capacity (stage_capacity m) src dst delta = Inr caps"
  shows "lends m (m\<lparr>stage_capacity := caps\<rparr>) src dst flr"
  unfolding lends_def by (rule exI [of _ delta], rule exI [of _ caps]) (simp add: assms)

lemma lends_frame:
  assumes "lends m m' src dst flr"
  shows "stage_used m' = stage_used m" "stage_inflight m' = stage_inflight m"
    "stage_min_capacity m' = stage_min_capacity m" "stage_max_capacity m' = stage_max_capacity m"
    "kv_capacity m' = kv_capacity m" "dkeys (stage_capacity m') = dkeys (stage_capacity m)"
    "bytes_per_token m' = bytes_per_token m" "global_used m' = global_used m"
  using assms
  by (auto elim!: lendsE simp: dkeys_update_present update_keys registered_def simp del: set_map)

lemma lends_wf:
  assumes "mgr_wf m" "lends m m' src dst flr"
  shows "mgr_wf m'"
  using assms(1) by (simp add: mgr_wf_def lends_frame [OF assms(2)] dwf_def)

lemma lends_sum: "lends m m' src dst flr \<Longrightarrow> dsum (stage_capacity m') = dsum (stage_capacity m)"
  by (auto simp: lends_def dsum_move_capacity)

lemma lends_cap:
  assumes "lends m m' src dst flr"
  shows "cap_of m' src < cap_of m src" "flr \<le> cap_of m' src"
    "cap_of m dst < cap_of m' dst" "cap_of m' dst \<le> max_of m dst"
    "s \<noteq> src \<Longrightarrow> s \<noteq> dst \<Longrightarrow> cap_of m' s = cap_of m s"
  using assms by (auto elim!: lendsE)

lemma lends_safe:
  assumes "mgr_safe m" "lends m m' src dst flr" "of_int (used_of m src) \<le> flr"
  shows "mgr_safe m'"
  unfolding mgr_safe_def
proof (intro allI impI)
  fix s assume "registered m' s"
  then have reg: "registered m s" by (simp add: registered_def lends_frame [OF assms(2)])
  with assms(1) have s: "0 \<le> used_of m s" "of_int (used_of m s) \<le> cap_of m s"
    by (auto simp: mgr_safe_def)
  have "of_int (used_of m s) \<le> cap_of m' s"
    using s lends_cap [OF assms(2)] assms(3) by (cases "s = src"; cases "s = dst") force+
  with s show "0 \<le> used_of m' s \<and> of_int (used_of m' s) \<le> cap_of m' s"
    by (simp add: lends_frame [OF assms(2)])
qed

lemma unregistered_floor:
  "mgr_wf m \<Longrightarrow> \<not> registered m d \<Longrightarrow> cap_of m d - floor_of m d = 0"
  by (simp add: floor_of_def not_registered_defaults)

lemma min3_le: "min a (min b c) \<le> b" "min a (min b c) \<le> (c::rat)"
  by simp_all

lemma borrow_loop_Cons:
  "borrow_loop m r rc rm q (d # ds) =
     (if cap_of m d - floor_of m d \<le> 0 \<or>
         min (of_int q) (min (cap_of m d - floor_of m d) (rm - rc)) \<le> 0
      then borrow_loop m r rc rm q ds
      else rbind (move_capacity (stage_capacity m) d r
                    (min (of_int q) (min (cap_of m d - floor_of m d) (rm - rc))))
             (\<lambda>caps. Inr (True, m\<lparr>stage_capacity := caps\<rparr>)))"
  by (simp only: borrow_loop.simps Let_def floor_of_def)

lemma borrow_loop_result:
  assumes wf: "mgr_wf m" and r: "registered m r" and q: "1 \<le> q"
  shows "r \<notin> set ds \<Longrightarrow>
    (\<exists>m'. borrow_loop m r (cap_of m r) (max_of m r) q ds = Inr (True, m') \<and>
       (\<exists>d\<in>set ds. lends m m' d r (floor_of m d))) \<or>
    borrow_loop m r (cap_of m r) (max_of m r) q ds = Inr (False, m)"
proof (induction ds)
  case Nil
  then show ?case by simp
next
  case (Cons d ds)
  let ?borrow = "cap_of m d - floor_of m d"
  let ?delta = "min (of_int q) (min ?borrow (max_of m r - cap_of m r))"
  show ?case
  proof (cases "?borrow \<le> 0 \<or> ?delta \<le> 0")
    case True
    then have "borrow_loop m r (cap_of m r) (max_of m r) q (d # ds) =
        borrow_loop m r (cap_of m r) (max_of m r) q ds"
      by (simp only: borrow_loop_Cons if_True)
    with Cons show ?thesis by (metis list.set_intros(2))
  next
    case False
    then have d: "registered m d" using unregistered_floor [OF wf, of d] by auto
    have neq: "d \<noteq> r" using Cons.prems by auto
    obtain caps where caps: "move_capacity (stage_capacity m) d r ?delta = Inr caps"
      using move_capacity_present [of d "stage_capacity m" r ?delta] d r neq
      unfolding registered_def by blast
    have "borrow_loop m r (cap_of m r) (max_of m r) q (d # ds) = Inr (True, m\<lparr>stage_capacity := caps\<rparr>)"
      unfolding borrow_loop_Cons if_not_P [OF False] caps by simp
    moreover have "lends m (m\<lparr>stage_capacity := caps\<rparr>) d r (floor_of m d)"
    proof (rule lendsI [OF _ neq d r _ _ caps])
      show "0 < ?delta" using False by (simp only: de_Morgan_disj not_le)
    qed (rule min3_le)+
    ultimately show ?thesis by (metis list.set_intros(1))
  qed
qed

lemma quantum_pos: "1 \<le> quantum_of m qf"
  by (simp add: quantum_of_def)

lemma rebalance_result:
  assumes wf: "mgr_wf m"
  shows "(\<exists>m'. rebalance_stage_capacity m r h qf = Inr (True, m') \<and>
       (\<exists>d. lends m m' d r (floor_of m d))) \<or>
    rebalance_stage_capacity m r h qf = Inr (False, m)"
proof (cases "registered m r")
  case False
  then have "cap_of m r = max_of m r"
    using wf by (simp add: max_of_def not_registered_defaults)
  then show ?thesis by (simp add: rebalance_stage_capacity_def max_of_def)
next
  case True
  have notin: "r \<notin> set (donor_ids m r h)"
    by (auto simp: donor_ids_def Let_def split: option.splits)
  show ?thesis
    using borrow_loop_result [OF wf True quantum_pos [of m qf] notin]
    by (auto simp: rebalance_stage_capacity_def Let_def max_of_def)
qed

lemma last_stage_registered: "last_stage_id m = Some s \<Longrightarrow> registered m s"
  by (auto simp: last_stage_id_def registered_def split: if_splits simp del: set_map)

definition return_floor :: "kv_mgr \<Rightarrow> int \<Rightarrow> bool \<Rightarrow> rat" where
  "return_floor m s force = (if force then of_int (used_of m s) else floor_of m s)"

definition return_delta :: "kv_mgr \<Rightarrow> int \<Rightarrow> rat \<Rightarrow> bool \<Rightarrow> int \<Rightarrow> rat" where
  "return_delta m s qf force d =
     min (of_int (quantum_of m qf)) (min (cap_of m s - return_floor m s force) (max_of m d - cap_of m d))"

lemma return_stage_capacity_eq:
  "return_stage_capacity m s qf force =
     (if cap_of m s - return_floor m s force \<le> 0 then Inr (False, m)
      else case last_stage_id m of
          None \<Rightarrow> Inr (False, m)
        | Some d \<Rightarrow>
            if d = s then Inr (False, m)
            else if max_of m d - cap_of m d \<le> 0 \<or> return_delta m s qf force d \<le> 0
            then Inr (False, m)
            else rbind (move_capacity (stage_capacity m) s d (return_delta m s qf force d))
                   (\<lambda>caps. Inr (True, m\<lparr>stage_capacity := caps\<rparr>)))"
  by (simp only: return_stage_capacity_def Let_def return_floor_def return_delta_def
      floor_of_def max_of_def)

lemma return_floor_registered:
  assumes "mgr_wf m" "\<not> cap_of m s - return_floor m s force \<le> 0"
  shows "registered m s"
proof (rule ccontr)
  assume "\<not> registered m s"
  with assms(1) have "cap_of m s - return_floor m s force = 0"
    by (simp add: return_floor_def floor_of_def not_registered_defaults)
  with assms(2) show False by simp
qed

lemma return_result:
  assumes wf: "mgr_wf m"
  shows "(\<exists>m' d. return_stage_capacity m s qf force = Inr (True, m') \<and> last_stage_id m = Some d \<and>
       lends m m' s d (return_floor m s force)) \<or>
    return_stage_capacity m s qf force = Inr (False, m)"
proof (cases "\<exists>d. last_stage_id m = Some d \<and> d \<noteq> s \<and> \<not> cap_of m s - return_floor m s force \<le> 0 \<and>
    \<not> (max_of m d - cap_of m d \<le> 0 \<or> return_delta m s qf force d \<le> 0)")
  case False
  then have "return_stage_capacity m s qf force = Inr (False, m)"
    unfolding return_stage_capacity_eq by (auto split: option.split)
  then show ?thesis ..
next
  case True
  then obtain d where d: "last_stage_id m = Some d" "d \<noteq> s"
    and rel: "\<not> cap_of m s - return_floor m s force \<le> 0"
    and pos: "\<not> (max_of m d - cap_of m d \<le> 0 \<or> return_delta m s qf force d \<le> 0)"
    by blast
  have rd: "registered m d" using d(1) by (rule last_stage_registered)
  have rs: "registered m s" using wf rel by (rule return_floor_registered)
  obtain caps where caps: "move_capacity (stage_capacity m) s d (return_delta m s qf force d) = Inr caps"
    using move_capacity_present [of s "stage_capacity m" d] rd rs d(2)
    unfolding registered_def by blast
  have "return_stage_capacity m s qf force = Inr (True, m\<lparr>stage_capacity := caps\<rparr>)"
    unfolding return_stage_capacity_eq if_not_P [OF rel] d(1) option.case if_not_P [OF d(2)]
      if_not_P [OF pos] caps by simp
  moreover have "lends m (m\<lparr>stage_capacity := caps\<rparr>) s d (return_floor m s force)"
  proof (rule lendsI [OF _ _ rs rd _ _ caps])
    show "0 < return_delta m s qf force d" using pos by simp
  qed (simp_all only: return_delta_def min3_le d(2) [symmetric] not_False_eq_True)
  ultimately show ?thesis using d(1) by blast
qed

section \<open>Every operation keeps the accounts well formed\<close>

lemma registered_lookups:
  assumes "mgr_wf m" "registered m s"
  obtains u c n where "map_of (stage_used m) s = Some u" "map_of (stage_capacity m) s = Some c"
    "map_of (stage_inflight m) s = Some n"
  using wf_used_Some [OF assms] wf_cap_Some [OF assms(2)] wf_inflight_Some [OF assms] by blast

lemma charge_stage_ok:
  assumes "mgr_wf m" "registered m s"
  shows "charge_stage m s b =
     Inr (m\<lparr>stage_used := AList.update s (used_of m s + b) (stage_used m),
            stage_inflight := AList.update s (stage_inflight_of m s + 1) (stage_inflight m)\<rparr>)"
  by (rule registered_lookups [OF assms])
     (simp add: charge_stage_def dadd_def stage_inflight_of_def)

lemma can_admit_stage_ok:
  assumes "mgr_wf m" "registered m s"
  shows "can_admit_stage m s b = Inr (of_int (used_of m s + b) \<le> cap_of m s)"
  by (rule registered_lookups [OF assms]) (simp add: can_admit_stage_def)

lemma release_stage_ok:
  assumes "mgr_wf m" "registered m s"
  shows "release_stage m s b =
     Inr (m\<lparr>stage_used := AList.update s (max 0 (used_of m s - b)) (stage_used m),
            stage_inflight := AList.update s (max 0 (stage_inflight_of m s - 1)) (stage_inflight m)\<rparr>)"
  by (rule registered_lookups [OF assms])
     (auto simp: release_stage_def stage_inflight_of_def max_def)

lemma wf_account_update:
  "mgr_wf m \<Longrightarrow> registered m s \<Longrightarrow>
     mgr_wf (m\<lparr>stage_used := AList.update s u (stage_used m),
              stage_inflight := AList.update s n (stage_inflight m)\<rparr>)"
  by (simp add: mgr_wf_def registered_def dkeys_update_present del: set_map)

lemma wf_register: "mgr_wf m \<Longrightarrow> mgr_wf (register_stage m s f lo hi b)"
  by (simp add: mgr_wf_def register_stage_def Let_def dwf_update update_keys)

lemma registered_register:
  "registered (register_stage m s f lo hi b) t \<longleftrightarrow> t = s \<or> registered m t"
  by (auto simp: registered_def register_stage_def Let_def update_keys simp del: set_map)

text \<open>
  The operations of the manager as steps of its state. Each method holds the condition lock
  for its whole body, so a step is one call. \<open>force_allocate_stage\<close> is in its own relation
  because it is meant to overrun the capacity of a stage.
\<close>

inductive kv_step :: "kv_mgr \<Rightarrow> kv_mgr \<Rightarrow> bool" where
  st_register: "0 \<le> f \<Longrightarrow> kv_step m (register_stage m s f lo hi b)"
| st_rebalance: "rebalance_stage_capacity m s hint q = Inr (moved, m') \<Longrightarrow> kv_step m m'"
| st_return: "return_stage_capacity m s q force = Inr (moved, m') \<Longrightarrow> kv_step m m'"
| st_try: "0 \<le> b \<Longrightarrow> try_allocate_stage m s b = Inr (ok, m') \<Longrightarrow> kv_step m m'"
| st_alloc: "0 \<le> b \<Longrightarrow> allocate_stage m s b = Inr (Some m') \<Longrightarrow> kv_step m m'"
| st_release: "0 \<le> b \<Longrightarrow> release_stage m s b = Inr m' \<Longrightarrow> kv_step m m'"
| st_global: "0 \<le> b \<Longrightarrow> allocate_global m b = Some m' \<Longrightarrow> kv_step m m'"
| st_global_release: "0 \<le> b \<Longrightarrow> kv_step m (release_global m b)"

definition mgr_inv :: "kv_mgr \<Rightarrow> bool" where
  "mgr_inv m \<longleftrightarrow> mgr_wf m \<and> mgr_safe m \<and> 0 \<le> global_used m \<and> global_used m \<le> kv_capacity m"

lemma mgr_inv_wf [dest]: "mgr_inv m \<Longrightarrow> mgr_wf m"
  by (simp add: mgr_inv_def)

lemma mgr_inv_capacity: "mgr_inv m \<Longrightarrow> 0 \<le> kv_capacity m"
  by (simp add: mgr_inv_def)

lemma lends_inv:
  "mgr_inv m \<Longrightarrow> lends m m' src dst flr \<Longrightarrow> of_int (used_of m src) \<le> flr \<Longrightarrow> mgr_inv m'"
  unfolding mgr_inv_def using lends_wf lends_safe lends_frame(5,8) by metis

lemma used_le_floor: "of_int (used_of m s) \<le> floor_of m s"
  by (simp add: floor_of_def)

lemma account_inv:
  assumes "mgr_inv m" "registered m s" "0 \<le> u" "of_int u \<le> cap_of m s"
  shows "mgr_inv (m\<lparr>stage_used := AList.update s u (stage_used m),
                   stage_inflight := AList.update s n (stage_inflight m)\<rparr>)"
  using assms by (simp add: mgr_inv_def wf_account_update)
    (simp add: mgr_safe_def registered_def)

lemma registered_cap: "map_of (stage_capacity m) s = Some v \<Longrightarrow> registered m s"
  unfolding registered_def by (metis dkeys_map_of)

lemma registered_used: "mgr_wf m \<Longrightarrow> map_of (stage_used m) s = Some v \<Longrightarrow> registered m s"
  unfolding registered_def mgr_wf_def by (metis dkeys_map_of)

lemma wf_can_admit_registered: "can_admit_stage m s b = Inr ok \<Longrightarrow> registered m s"
  unfolding can_admit_stage_def by (auto split: option.splits intro: registered_cap)

lemma wf_release_registered:
  "mgr_wf m \<Longrightarrow> release_stage m s b = Inr m' \<Longrightarrow> registered m s"
  unfolding release_stage_def by (auto split: option.splits intro: registered_used)

lemma try_allocate_cases:
  assumes "mgr_wf m" "try_allocate_stage m s b = Inr (ok, m')"
  shows "if ok then registered m s \<and> of_int (used_of m s + b) \<le> cap_of m s \<and> charge_stage m s b = Inr m'
         else m' = m"
  using assms(2) can_admit_stage_ok [OF assms(1), of s b] wf_can_admit_registered
  by (auto simp: try_allocate_stage_def py_simps split: if_splits)

lemma allocate_stage_try:
  "allocate_stage m s b = Inr (Some m') \<longleftrightarrow> try_allocate_stage m s b = Inr (True, m')"
  by (auto simp: allocate_stage_def try_allocate_stage_def py_simps split: if_splits)

lemma safe_bounds:
  "mgr_inv m \<Longrightarrow> registered m s \<Longrightarrow> 0 \<le> used_of m s \<and> of_int (used_of m s) \<le> cap_of m s"
  by (simp add: mgr_inv_def mgr_safe_def)

lemma try_allocate_inv:
  assumes inv: "mgr_inv m" and b: "0 \<le> b" and t: "try_allocate_stage m s b = Inr (ok, m')"
  shows "mgr_inv m'"
proof (cases ok)
  case False
  then show ?thesis using try_allocate_cases [OF mgr_inv_wf [OF inv] t] inv by simp
next
  case True
  then have r: "registered m s" "of_int (used_of m s + b) \<le> cap_of m s" "charge_stage m s b = Inr m'"
    using try_allocate_cases [OF mgr_inv_wf [OF inv] t] by auto
  have "0 \<le> used_of m s + b" using safe_bounds [OF inv r(1)] b by simp
  from account_inv [OF inv r(1) this r(2)] show ?thesis
    using r(3) charge_stage_ok [OF mgr_inv_wf [OF inv] r(1), of b] by (metis Inr_inject)
qed

lemma release_inv:
  assumes inv: "mgr_inv m" and b: "0 \<le> b" and r: "release_stage m s b = Inr m'"
  shows "mgr_inv m'"
proof -
  have reg: "registered m s" using mgr_inv_wf [OF inv] r by (rule wf_release_registered)
  have "of_int (max 0 (used_of m s - b)) \<le> cap_of m s"
    using safe_bounds [OF inv reg] b by (auto simp: max_def)
  from account_inv [OF inv reg _ this] show ?thesis
    using r release_stage_ok [OF mgr_inv_wf [OF inv] reg, of b] by (metis Inr_inject max.cobounded1)
qed

lemma register_inv:
  assumes "mgr_inv m" "0 \<le> f"
  shows "mgr_inv (register_stage m s f lo hi b)"
proof -
  have "mgr_safe (register_stage m s f lo hi b)"
    unfolding mgr_safe_def registered_register
    using assms safe_bounds [OF assms(1)] mgr_inv_capacity [OF assms(1)]
    by (auto simp: register_stage_def Let_def)
  then show ?thesis
    using assms wf_register [of m] by (simp add: mgr_inv_def) (simp add: register_stage_def Let_def)
qed

lemma mgr_inv_used: "mgr_inv m \<Longrightarrow> 0 \<le> global_used m \<and> global_used m \<le> kv_capacity m"
  by (simp add: mgr_inv_def)

lemma mgr_inv_global:
  "mgr_inv m \<Longrightarrow> 0 \<le> g \<Longrightarrow> g \<le> kv_capacity m \<Longrightarrow> mgr_inv (m\<lparr>global_used := g\<rparr>)"
  by (simp add: mgr_inv_def mgr_wf_def mgr_safe_def registered_def)

lemma kv_step_inv: "kv_step m m' \<Longrightarrow> mgr_inv m \<Longrightarrow> mgr_inv m'"
proof (induction rule: kv_step.induct)
  case (st_rebalance m s hint q moved m')
  then show ?case
    using rebalance_result [OF mgr_inv_wf, of m s hint q] lends_inv used_le_floor by fastforce
next
  case (st_return m s q force moved m')
  have "of_int (used_of m s) \<le> return_floor m s force"
    by (simp add: return_floor_def used_le_floor)
  with st_return show ?case
    using return_result [OF mgr_inv_wf, of m s q force] lends_inv by fastforce
next
  case (st_alloc b m s m')
  then show ?case by (auto simp: allocate_stage_try intro: try_allocate_inv)
next
  case (st_global b m m')
  then show ?case
    using mgr_inv_used [of m] by (auto simp: allocate_global_def intro!: mgr_inv_global split: if_splits)
next
  case (st_global_release b m)
  then show ?case
    using mgr_inv_used [of m] by (auto simp: release_global_def intro!: mgr_inv_global)
qed (auto intro: register_inv try_allocate_inv release_inv)

lemma kv_steps_inv: "kv_step\<^sup>*\<^sup>* m m' \<Longrightarrow> mgr_inv m \<Longrightarrow> mgr_inv m'"
  by (induction rule: rtranclp_induct) (auto intro: kv_step_inv)

lemma kv_mgr_init_inv: "0 \<le> cap \<Longrightarrow> mgr_inv (kv_mgr_init bpt cap)"
  by (simp add: mgr_inv_def mgr_wf_def mgr_safe_def registered_def kv_mgr_init_def)

section \<open>A concrete manager\<close>

text \<open>Two stages, each with half of a hundred bytes, that may shrink to ten and grow to all.\<close>

definition demo_mgr :: kv_mgr where
  "demo_mgr = register_stage (register_stage (kv_mgr_init 2 100) 1 (1/2) (Some (1/10)) (Some 1) None)
     2 (1/2) (Some (1/10)) (Some 1) None"

lemma demo_mgr_eq:
  "demo_mgr = \<lparr>bytes_per_token = 2, kv_capacity = 100, global_used = 0,
     stage_capacity = [(1, 50), (2, 50)], stage_min_capacity = [(1, 10), (2, 10)],
     stage_max_capacity = [(1, 100), (2, 100)], stage_used = [(1, 0), (2, 0)],
     stage_inflight = [(1, 0), (2, 0)]\<rparr>"
  by (simp add: demo_mgr_def register_stage_def kv_mgr_init_def)

lemma demo_mgr_wf: "mgr_wf demo_mgr"
  by (simp add: demo_mgr_eq mgr_wf_def dwf_def)

lemma demo_mgr_reach: "kv_step\<^sup>*\<^sup>* (kv_mgr_init 2 100) demo_mgr"
  unfolding demo_mgr_def
  by (meson st_register rtranclp.rtrancl_refl rtranclp.rtrancl_into_rtrancl divide_nonneg_pos
      zero_le_one zero_less_numeral)

lemma demo_mgr_inv: "mgr_inv demo_mgr"
  by (rule kv_steps_inv [OF demo_mgr_reach kv_mgr_init_inv]) simp

section \<open>Properties\<close>

text \<open>
  C9. \<open>rebalance_stage_capacity\<close> never raises on a well-formed manager and keeps it well
  formed; the capacities of all stages still add up to the same total, no stage but the
  receiver grows, a stage that shrinks stays at or above both its minimum and what it uses,
  the receiver never exceeds its maximum, and it answers True exactly when the receiver grew.
\<close>

theorem rebalance_correct:
  assumes "mgr_wf m"
  shows "\<exists>moved m'. rebalance_stage_capacity m r hint qf = Inr (moved, m') \<and> mgr_wf m' \<and>
    dsum (stage_capacity m') = dsum (stage_capacity m) \<and>
    stage_used m' = stage_used m \<and> stage_inflight m' = stage_inflight m \<and>
    (\<forall>s. s \<noteq> r \<longrightarrow> cap_of m' s = cap_of m s \<or>
       cap_of m' s < cap_of m s \<and> floor_of m s \<le> cap_of m' s) \<and>
    (moved \<longleftrightarrow> cap_of m r < cap_of m' r) \<and> (moved \<longrightarrow> cap_of m' r \<le> max_of m r)"
  using rebalance_result [OF assms, of r hint qf]
proof (elim disjE exE conjE)
  fix m' d
  assume eq: "rebalance_stage_capacity m r hint qf = Inr (True, m')" and l: "lends m m' d r (floor_of m d)"
  have "\<forall>s. s \<noteq> r \<longrightarrow> cap_of m' s = cap_of m s \<or> cap_of m' s < cap_of m s \<and> floor_of m s \<le> cap_of m' s"
    using lends_cap [OF l] by metis
  then show ?thesis
    using eq lends_wf [OF assms l] lends_sum [OF l] lends_frame(1,2) [OF l] lends_cap(3,4) [OF l] by auto
next
  assume "rebalance_stage_capacity m r hint qf = Inr (False, m)"
  then show ?thesis using assms by auto
qed

theorem rebalance_correct_witness:
  "mgr_wf demo_mgr \<and>
   (\<exists>moved m'. rebalance_stage_capacity demo_mgr 2 None (1/20) = Inr (moved, m') \<and>
      dsum (stage_capacity m') = 100 \<and> moved)"
proof -
  have "rebalance_stage_capacity demo_mgr 2 None (1/20) =
      Inr (True, demo_mgr\<lparr>stage_capacity := [(1, 45), (2, 55)]\<rparr>)"
    by (simp add: demo_mgr_eq rebalance_stage_capacity_def donor_ids_def quantum_of_def py_int_def
        move_capacity_def dadd_def dget_def Let_def)
  then show ?thesis
    using rebalance_correct [OF demo_mgr_wf, of 2 None "1/20"] demo_mgr_wf by (auto simp: demo_mgr_eq)
qed

text \<open>
  C22. \<open>return_stage_capacity\<close> hands capacity back to the stage with the largest id without
  creating or losing any: it never raises on a well-formed manager, the total is unchanged,
  the returning stage keeps at least what it uses (and its minimum unless \<open>force\<close>), the
  last stage stays within its maximum and every other stage is untouched.
\<close>

theorem return_correct:
  assumes "mgr_wf m"
  shows "\<exists>moved m'. return_stage_capacity m s qf force = Inr (moved, m') \<and> mgr_wf m' \<and>
    dsum (stage_capacity m') = dsum (stage_capacity m) \<and>
    stage_used m' = stage_used m \<and> stage_inflight m' = stage_inflight m \<and>
    (if \<not> moved then m' = m
     else \<exists>d. last_stage_id m = Some d \<and> d \<noteq> s \<and>
       cap_of m' s < cap_of m s \<and> return_floor m s force \<le> cap_of m' s \<and>
       cap_of m d < cap_of m' d \<and> cap_of m' d \<le> max_of m d \<and>
       (\<forall>t. t \<noteq> s \<and> t \<noteq> d \<longrightarrow> cap_of m' t = cap_of m t))"
  using return_result [OF assms, of s qf force]
proof (elim disjE exE conjE)
  fix m' d
  assume eq: "return_stage_capacity m s qf force = Inr (True, m')" and d: "last_stage_id m = Some d"
    and l: "lends m m' s d (return_floor m s force)"
  have "d \<noteq> s" using l by (auto simp: lends_def)
  then show ?thesis
    using eq d lends_wf [OF assms l] lends_sum [OF l] lends_frame(1,2) [OF l] lends_cap [OF l] by auto
next
  assume "return_stage_capacity m s qf force = Inr (False, m)"
  then show ?thesis using assms by auto
qed

theorem return_correct_witness:
  "mgr_wf demo_mgr \<and>
   (\<exists>moved m'. return_stage_capacity demo_mgr 1 (1/20) False = Inr (moved, m') \<and>
      dsum (stage_capacity m') = 100 \<and> moved)"
proof -
  have "return_stage_capacity demo_mgr 1 (1/20) False =
      Inr (True, demo_mgr\<lparr>stage_capacity := [(1, 45), (2, 55)]\<rparr>)"
    by (simp add: demo_mgr_eq return_stage_capacity_def last_stage_id_def quantum_of_def py_int_def
        move_capacity_def dadd_def dget_def Let_def)
  then show ?thesis
    using return_correct [OF demo_mgr_wf, of 1 "1/20" False] demo_mgr_wf by (auto simp: demo_mgr_eq)
qed

text \<open>
  C13. Safety of the accounts: after any sequence of registrations, capacity moves,
  admissions and releases of a fresh manager, every registered stage uses between zero and
  its capacity, and the global account lies between zero and the KV capacity.
\<close>

theorem kv_accounts_safe:
  assumes "0 \<le> cap" "kv_step\<^sup>*\<^sup>* (kv_mgr_init bpt cap) m" "registered m s"
  shows "0 \<le> used_of m s \<and> of_int (used_of m s) \<le> cap_of m s \<and>
    0 \<le> global_used m \<and> global_used m \<le> kv_capacity m"
  using kv_steps_inv [OF assms(2) kv_mgr_init_inv [OF assms(1)]] safe_bounds assms(3) mgr_inv_used
  by blast

theorem kv_accounts_safe_witness:
  "kv_step\<^sup>*\<^sup>* (kv_mgr_init 2 100) demo_mgr \<and> registered demo_mgr 1 \<and>
   of_int (used_of demo_mgr 1) \<le> cap_of demo_mgr 1"
proof -
  have "registered demo_mgr 1" by (simp add: registered_def demo_mgr_eq)
  with kv_accounts_safe [OF _ demo_mgr_reach, of 1] demo_mgr_reach show ?thesis by simp
qed

text \<open>
  C23. A successful \<open>try_allocate_stage\<close> is undone by \<open>release_stage\<close> of the same budget:
  every stage again uses and runs what it did before.
\<close>

theorem release_undoes_allocate:
  assumes "mgr_inv m" "0 \<le> b" "0 \<le> stage_inflight_of m s"
    "try_allocate_stage m s b = Inr (True, m')"
  shows "\<exists>m''. release_stage m' s b = Inr m'' \<and> mgr_wf m'' \<and> stage_capacity m'' = stage_capacity m \<and>
    (\<forall>t. used_of m'' t = used_of m t \<and> stage_inflight_of m'' t = stage_inflight_of m t)"
proof -
  have wf: "mgr_wf m" using assms(1) by auto
  have r: "registered m s" "charge_stage m s b = Inr m'"
    using try_allocate_cases [OF wf assms(4)] by auto
  have wf': "mgr_wf m'" and r': "registered m' s"
    using try_allocate_inv [OF assms(1,2,4)] r charge_stage_ok [OF wf r(1), of b]
    by (auto simp: registered_def)
  have "0 \<le> used_of m s" using safe_bounds [OF assms(1) r(1)] by simp
  then show ?thesis
    using release_stage_ok [OF wf' r'] wf_account_update [OF wf' r'] charge_stage_ok [OF wf r(1), of b] r(2) assms(3)
    by (auto simp: stage_inflight_of_def)
qed

theorem release_undoes_allocate_witness:
  "\<exists>m' m''. try_allocate_stage demo_mgr 1 30 = Inr (True, m') \<and> release_stage m' 1 30 = Inr m'' \<and>
     used_of m'' 1 = 0"
proof -
  have "try_allocate_stage demo_mgr 1 30 =
      Inr (True, demo_mgr\<lparr>stage_used := [(1, 30), (2, 0)], stage_inflight := [(1, 1), (2, 0)]\<rparr>)"
    by (simp add: try_allocate_stage_def can_admit_stage_def charge_stage_def dadd_def demo_mgr_eq)
  moreover have "0 \<le> stage_inflight_of demo_mgr 1" "used_of demo_mgr 1 = 0"
    by (simp_all add: stage_inflight_of_def demo_mgr_eq dget_def)
  ultimately show ?thesis
    using release_undoes_allocate [OF demo_mgr_inv, of 30 1] by fastforce
qed

end
