(* ===== verification/Stage.thy ===== *)
theory Stage
  imports KV_Budget Sem_Ops "HOL-Library.Product_Lexorder"
begin

text \<open>
  Tasks and stages (\<open>kalypso/controller/stage.py\<close>): the priority queue of waiting tasks, the
  thresholds of a stage, the admission of a task against the KV manager and the run of a
  task through the operators of its stage. A task refers to its trackers by their numbers.
\<close>

section \<open>Tasks and stages\<close>

record task =
  t_ctx :: sem_context
  t_stage_index :: nat
  t_trackers :: "nat list"
  t_op_index :: nat
  t_retry_priority :: "int option"
  t_reserved :: int
  t_id :: nat

definition new_task :: "sem_context \<Rightarrow> nat \<Rightarrow> nat list \<Rightarrow> nat \<Rightarrow> task" where
  "new_task ctx stage_index trackers task_id =
     \<lparr>t_ctx = ctx, t_stage_index = stage_index, t_trackers = trackers, t_op_index = 0,
      t_retry_priority = None, t_reserved = 0, t_id = task_id\<rparr>"

record stage =
  sg_id :: int
  sg_operators :: "phys_op list"
  sg_fanout :: "phys_op option"
  sg_offset :: int
  sg_waiting :: "task list"
  sg_running :: "(nat, int) dict"
  sg_bpt :: int
  sg_low :: int
  sg_high :: int

definition stage_builder :: "phys_op list \<Rightarrow> int \<Rightarrow> int \<Rightarrow> int \<Rightarrow> stage" where
  "stage_builder operators sid offset bpt =
     \<lparr>sg_id = sid, sg_operators = operators, sg_fanout = None, sg_offset = offset,
      sg_waiting = [], sg_running = [], sg_bpt = bpt, sg_low = 1, sg_high = 5\<rparr>"

section \<open>The queue\<close>

definition task_priority :: "stage \<Rightarrow> task \<Rightarrow> int" where
  "task_priority sg t =
     (case t_retry_priority t of Some p \<Rightarrow> p | None \<Rightarrow> - (sg_offset sg + int (t_op_index t)))"

primrec insert_task :: "stage \<Rightarrow> task \<Rightarrow> task list \<Rightarrow> task list" where
  "insert_task sg t [] = [t]"
| "insert_task sg t (q # qs) =
     (if task_priority sg t < task_priority sg q \<or>
         task_priority sg t = task_priority sg q \<and> t_id t < t_id q
      then t # q # qs else q # insert_task sg t qs)"

definition enqueue :: "stage \<Rightarrow> task \<Rightarrow> stage" where
  "enqueue sg t = sg\<lparr>sg_waiting := insert_task sg t (sg_waiting sg)\<rparr>"

definition clear_tasks :: "stage \<Rightarrow> stage" where
  "clear_tasks sg = sg\<lparr>sg_waiting := [], sg_running := []\<rparr>"

definition has_waiting_tasks :: "stage \<Rightarrow> bool" where
  "has_waiting_tasks sg \<longleftrightarrow> sg_waiting sg \<noteq> []"

definition ready_count :: "stage \<Rightarrow> int" where
  "ready_count sg = int (length (sg_waiting sg))"

definition running_count :: "stage \<Rightarrow> int" where
  "running_count sg = int (length (sg_running sg))"

definition is_starving :: "stage \<Rightarrow> bool" where
  "is_starving sg \<longleftrightarrow> ready_count sg < sg_low sg"

definition is_saturated :: "stage \<Rightarrow> bool" where
  "is_saturated sg \<longleftrightarrow> ready_count sg > sg_high sg"

definition tune_thresholds :: "kv_mgr \<Rightarrow> stage \<Rightarrow> stage" where
  "tune_thresholds m sg =
     (let min_budget = py_int (dget (stage_min_capacity m) (sg_id sg) 0);
          min_budget = (if min_budget \<le> 0 then max 1 (sg_bpt sg) else min_budget);
          cur_cap = snd (stage_usage m (sg_id sg))
      in sg\<lparr>sg_high := max 1 (cur_cap div min_budget),
            sg_low := max 1 \<lfloor>(1/2 * of_int cur_cap) / (of_int min_budget :: rat)\<rfloor>\<rparr>)"

definition peek_task :: "stage \<Rightarrow> task option" where
  "peek_task sg = (case sg_waiting sg of [] \<Rightarrow> None | t # _ \<Rightarrow> Some t)"

definition pop_task :: "stage \<Rightarrow> task option \<times> stage" where
  "pop_task sg = (case sg_waiting sg of [] \<Rightarrow> (None, sg) | t # ts \<Rightarrow> (Some t, sg\<lparr>sg_waiting := ts\<rparr>))"

section \<open>Admission\<close>

primrec max_tokens_from :: "env \<Rightarrow> estimator \<Rightarrow> sem_context \<Rightarrow> int \<Rightarrow> phys_op list \<Rightarrow> int res" where
  "max_tokens_from E est ctx best [] = Inr best"
| "max_tokens_from E est ctx best (op # rest) =
     (case kind op of
        CartesianProduct _ \<Rightarrow> Inr best
      | _ \<Rightarrow> rbind (estimate_tokens E est op ctx) (\<lambda>n.
               max_tokens_from E est ctx (if n > best then n else best) rest))"

definition estimate_budget :: "env \<Rightarrow> estimator \<Rightarrow> stage \<Rightarrow> task \<Rightarrow> int res" where
  "estimate_budget E est sg t =
     rbind (max_tokens_from E est (t_ctx t) (-1) (drop (t_op_index t) (sg_operators sg)))
       (\<lambda>n. Inr (n * sg_bpt sg))"

text \<open>The task enters the running set; a reserved budget is used up.\<close>

definition start_running :: "stage \<Rightarrow> task \<Rightarrow> int \<Rightarrow> stage" where
  "start_running sg t budget = sg\<lparr>sg_running := AList.update (t_id t) budget (sg_running sg)\<rparr>"

definition accept ::
  "env \<Rightarrow> estimator \<Rightarrow> kv_mgr \<Rightarrow> stage \<Rightarrow> task \<Rightarrow> (int option \<times> task \<times> stage \<times> kv_mgr) res" where
  "accept E est m sg t =
     (if t_reserved t > 0
      then Inr (Some (t_reserved t), t\<lparr>t_reserved := 0\<rparr>, start_running sg t (t_reserved t), m)
      else rbind (estimate_budget E est sg t) (\<lambda>budget.
           rbind (try_allocate_stage m (sg_id sg) budget) (\<lambda>(ok, m').
           if ok then Inr (Some budget, t, start_running sg t budget, m')
           else Inr (None, t, sg, m'))))"

definition force_accept ::
  "env \<Rightarrow> estimator \<Rightarrow> kv_mgr \<Rightarrow> stage \<Rightarrow> task \<Rightarrow> (int \<times> task \<times> stage \<times> kv_mgr) res" where
  "force_accept E est m sg t =
     (if t_reserved t > 0
      then Inr (t_reserved t, t\<lparr>t_reserved := 0\<rparr>, start_running sg t (t_reserved t), m)
      else rbind (estimate_budget E est sg t) (\<lambda>budget.
           rbind (force_allocate_stage m (sg_id sg) budget) (\<lambda>m'.
           Inr (budget, t, start_running sg t budget, m'))))"

definition detach_budget :: "stage \<Rightarrow> task \<Rightarrow> int \<times> stage" where
  "detach_budget sg t =
     (dget (sg_running sg) (t_id t) 0, sg\<lparr>sg_running := AList.delete (t_id t) (sg_running sg)\<rparr>)"

definition release_budget :: "kv_mgr \<Rightarrow> stage \<Rightarrow> int \<Rightarrow> kv_mgr res" where
  "release_budget m sg budget = release_stage m (sg_id sg) budget"

section \<open>Running a task\<close>

datatype task_result = TaskRetry retry_task_result | TaskDropped | TaskDone sem_context

primrec run_ops ::
  "('op \<Rightarrow> int \<Rightarrow> sem_context \<Rightarrow> (op_result \<times> sem_context) prog) \<Rightarrow> int \<Rightarrow> int option \<Rightarrow> nat \<Rightarrow>
   'op list \<Rightarrow> sem_context \<Rightarrow> task_result prog" where
  "run_ops call offset retry i [] ctx = pret (TaskDone ctx)"
| "run_ops call offset retry i (op # rest) ctx =
     (let priority = (case retry of Some p \<Rightarrow> p | None \<Rightarrow> - (offset + int i)) in
      pbind (call op priority ctx) (\<lambda>(r, ctx).
        case r of
          RETRY_TASK \<Rightarrow> pret (TaskRetry (RetryTaskResult ctx i False))
        | Verdict False \<Rightarrow> pret TaskDropped
        | _ \<Rightarrow> run_ops call offset None (Suc i) rest ctx))"

definition set_stage :: "int \<Rightarrow> sem_context \<Rightarrow> sem_context" where
  "set_stage sid ctx = ctx\<lparr>state := state ctx\<lparr>stage_id := sid\<rparr>\<rparr>"

definition run_task :: "env \<Rightarrow> stage \<Rightarrow> task \<Rightarrow> task_result prog" where
  "run_task E sg t =
     run_ops (op_call E) (sg_offset sg) (t_retry_priority t) (t_op_index t)
       (drop (t_op_index t) (sg_operators sg)) (set_stage (sg_id sg) (t_ctx t))"

section \<open>The queue is sorted\<close>

definition task_key :: "stage \<Rightarrow> task \<Rightarrow> int \<times> nat" where
  "task_key sg t = (task_priority sg t, t_id t)"

definition stage_sorted :: "stage \<Rightarrow> bool" where
  "stage_sorted sg \<longleftrightarrow> sorted (map (task_key sg) (sg_waiting sg))"

lemma insert_task_key:
  "insert_task sg t (q # qs) =
     (if task_key sg t < task_key sg q then t # q # qs else q # insert_task sg t qs)"
  by (auto simp: task_key_def)

lemma set_insert_task [simp]: "set (insert_task sg t qs) = insert t (set qs)"
  by (induction qs) auto

lemma mset_insert_task [simp]: "mset (insert_task sg t qs) = add_mset t (mset qs)"
  by (induction qs) auto

lemma sorted_insert_task:
  "sorted (map (task_key sg) qs) \<Longrightarrow> sorted (map (task_key sg) (insert_task sg t qs))"
proof (induction qs)
  case (Cons q qs)
  show ?case
  proof (cases "task_key sg t < task_key sg q")
    case True
    with Cons.prems show ?thesis
      by (auto simp: insert_task_key simp del: insert_task.simps)
  next
    case False
    with Cons show ?thesis
      by (auto simp: insert_task_key simp del: insert_task.simps)
  qed
qed simp

lemma task_key_waiting [simp]: "task_key (sg\<lparr>sg_waiting := ws\<rparr>) = task_key sg"
  by (rule ext) (simp add: task_key_def task_priority_def split: option.split)

lemma enqueue_sorted: "stage_sorted sg \<Longrightarrow> stage_sorted (enqueue sg t)"
  by (simp add: stage_sorted_def enqueue_def sorted_insert_task)

lemma pop_sorted: "stage_sorted sg \<Longrightarrow> stage_sorted (snd (pop_task sg))"
  by (auto simp: stage_sorted_def pop_task_def split: list.splits)

lemma enqueue_frame [simp]:
  "sg_id (enqueue sg t) = sg_id sg" "sg_operators (enqueue sg t) = sg_operators sg"
  "sg_running (enqueue sg t) = sg_running sg" "sg_offset (enqueue sg t) = sg_offset sg"
  "sg_fanout (enqueue sg t) = sg_fanout sg" "sg_bpt (enqueue sg t) = sg_bpt sg"
  "mset (sg_waiting (enqueue sg t)) = add_mset t (mset (sg_waiting sg))"
  by (simp_all add: enqueue_def)

lemma enqueue_all_waiting:
  "mset (sg_waiting (fold (\<lambda>t sg. enqueue sg t) ts sg)) = mset ts + mset (sg_waiting sg)"
  by (induction ts arbitrary: sg) simp_all

lemma enqueue_all_sorted: "stage_sorted sg \<Longrightarrow> stage_sorted (fold (\<lambda>t sg. enqueue sg t) ts sg)"
  by (induction ts arbitrary: sg) (simp_all add: enqueue_sorted)

lemma enqueue_all_key: "task_key (fold (\<lambda>t sg. enqueue sg t) ts sg) = task_key sg"
  by (induction ts arbitrary: sg) (simp_all add: enqueue_def)

section \<open>Runs keep the operator contract\<close>

lemma keeps_result [keeps_intros]:
  "(\<And>b. keeps I (p b)) \<Longrightarrow> keeps I q \<Longrightarrow> keeps I s \<Longrightarrow>
     keeps I (case r of Verdict b \<Rightarrow> p b | SameCtx \<Rightarrow> q | RETRY_TASK \<Rightarrow> s)"
  by (cases r) auto

lemma keeps_bool [keeps_intros]:
  "keeps I p \<Longrightarrow> keeps I q \<Longrightarrow> keeps I (case b of True \<Rightarrow> p | False \<Rightarrow> q)"
  by (cases b) auto

definition good_result :: "sem_context \<Rightarrow> task_result \<Rightarrow> bool" where
  "good_result ctx r =
     (case r of
        TaskDropped \<Rightarrow> True
      | TaskDone c \<Rightarrow> ctx_ok c \<and> continues ctx c
      | TaskRetry (RetryTaskResult c i b) \<Rightarrow> ctx_ok c \<and> continues ctx c)"

lemma good_result_trans: "continues a b \<Longrightarrow> good_result b r \<Longrightarrow> good_result a r"
  by (auto simp: good_result_def intro: continues_trans split: task_result.splits retry_task_result.splits)

lemma run_ops_keeps:
  assumes "\<And>op pr ctx. keeps I (call op pr ctx)"
  shows "keeps I (run_ops call off retry i ops ctx)"
  by (induction ops arbitrary: retry i ctx) (auto simp: Let_def intro!: keeps_intros assms)

lemma run_ops_retry_index:
  "run_ops call off retry i ops ctx w = (Inr (TaskRetry (RetryTaskResult c j b)), w') \<Longrightarrow>
     i \<le> j \<and> j < i + length ops \<and> \<not> b"
proof (induction ops arbitrary: retry i ctx w)
  case (Cons op ops)
  let ?pr = "case retry of Some p \<Rightarrow> p | None \<Rightarrow> - (off + int i)"
  from Cons.prems obtain r c1 w1 where 1: "call op ?pr ctx w = (Inr (r, c1), w1)"
    and 2: "(case r of RETRY_TASK \<Rightarrow> pret (TaskRetry (RetryTaskResult c1 i False))
        | Verdict False \<Rightarrow> pret TaskDropped
        | _ \<Rightarrow> run_ops call off None (Suc i) ops c1) w1 = (Inr (TaskRetry (RetryTaskResult c j b)), w')"
    by (auto simp: Let_def py_simps)
  from 2 Cons.IH [of None "Suc i" c1 w1] show ?case
    by (cases r) (auto split: bool.splits)
qed simp

context tuple_operators begin

lemma run_ops_pins: "keeps mirrored (run_ops call off retry i ops ctx)"
  by (rule run_ops_keeps) (rule pins)

lemma run_ops_good:
  "ctx_ok ctx \<Longrightarrow> run_ops call off retry i ops ctx w = (Inr r, w') \<Longrightarrow> good_result ctx r"
proof (induction ops arbitrary: retry i ctx w)
  case Nil
  then show ?case by (auto simp: good_result_def)
next
  case (Cons op ops)
  let ?pr = "case retry of Some p \<Rightarrow> p | None \<Rightarrow> - (off + int i)"
  from Cons.prems(2) obtain a c1 w1 where 1: "call op ?pr ctx w = (Inr (a, c1), w1)"
    and 2: "(case a of RETRY_TASK \<Rightarrow> pret (TaskRetry (RetryTaskResult c1 i False))
        | Verdict False \<Rightarrow> pret TaskDropped
        | _ \<Rightarrow> run_ops call off None (Suc i) ops c1) w1 = (Inr r, w')"
    by (auto simp: Let_def py_simps)
  have c1: "ctx_ok c1" "continues ctx c1"
    using good_step_Inr [OF shape [OF Cons.prems(1)] 1] by auto
  have ih: "good_result ctx r" if "run_ops call off None (Suc i) ops c1 w1 = (Inr r, w')"
    using Cons.IH [OF c1(1) that] good_result_trans [OF c1(2)] by blast
  from 2 c1 ih show ?case
    by (cases a) (auto simp: good_result_def split: bool.splits)
qed

end

section \<open>Budgets\<close>

text \<open>The estimates of the operators a task still has to run, up to a cartesian product.\<close>

definition estimated_ops :: "phys_op list \<Rightarrow> phys_op list" where
  "estimated_ops ops = takeWhile (\<lambda>op. case kind op of CartesianProduct _ \<Rightarrow> False | _ \<Rightarrow> True) ops"

lemma max_tokens_step:
  "max_tokens_from E est ctx best (op # rest) =
     (if (case kind op of CartesianProduct _ \<Rightarrow> False | _ \<Rightarrow> True)
      then rbind (estimate_tokens E est op ctx) (\<lambda>n. max_tokens_from E est ctx (max best n) rest)
      else Inr best)"
proof -
  have "(\<lambda>n. max_tokens_from E est ctx (if n > best then n else best) rest) =
      (\<lambda>n. max_tokens_from E est ctx (max best n) rest)"
    by (rule ext) (simp add: max_def not_less)
  then show ?thesis by (cases "kind op") simp_all
qed

lemma max_tokens_from_eq:
  "max_tokens_from E est ctx best ops = Inr n \<longleftrightarrow>
     (\<exists>ns. map (\<lambda>op. estimate_tokens E est op ctx) (estimated_ops ops) = map Inr ns \<and>
           n = fold max ns best)"
proof (induction ops arbitrary: best)
  case Nil
  then show ?case by (auto simp: estimated_ops_def)
next
  case (Cons op ops)
  show ?case
  proof (cases "case kind op of CartesianProduct _ \<Rightarrow> False | _ \<Rightarrow> True")
    case False
    then show ?thesis unfolding max_tokens_step by (auto simp: estimated_ops_def)
  next
    case True
    have "max_tokens_from E est ctx best (op # ops) = Inr n \<longleftrightarrow>
        (\<exists>m. estimate_tokens E est op ctx = Inr m \<and> max_tokens_from E est ctx (max best m) ops = Inr n)"
      unfolding max_tokens_step using True by (auto simp: py_simps)
    also have "\<dots> \<longleftrightarrow> (\<exists>ns. map (\<lambda>op. estimate_tokens E est op ctx) (op # estimated_ops ops) = map Inr ns \<and>
        n = fold max ns best)"
      unfolding Cons.IH
      by (auto simp: Cons_eq_map_conv ac_simps)
    finally show ?thesis using True by (simp add: estimated_ops_def)
  qed
qed

lemma fold_max_bounds:
  "(best::int) \<le> fold max ns best" "n \<in> set ns \<Longrightarrow> n \<le> fold max ns best"
  "fold max ns best = best \<or> fold max ns best \<in> set ns"
proof (induction ns arbitrary: best)
  case (Cons m ns)
  { case 1 show ?case using Cons.IH(1) [of "max m best"] by simp }
  { case 2 show ?case using Cons.IH(1,2) [of "max m best"] 2 by auto }
  { case 3 show ?case using Cons.IH(3) [of "max m best"] by (auto simp: max_def) }
qed auto

section \<open>Properties\<close>

text \<open>
  C21. The waiting queue is a stable priority queue: enqueuing tasks with distinct ids one by
  one in any order leaves exactly the list sorted by priority and then by task id.
\<close>

theorem enqueue_sorts:
  assumes "distinct (map t_id ts)" "sg_waiting sg = []"
  shows "sg_waiting (fold (\<lambda>t sg. enqueue sg t) ts sg) = sort_key (task_key sg) ts"
proof (rule properties_for_sort_key [symmetric])
  let ?q = "sg_waiting (fold (\<lambda>t sg. enqueue sg t) ts sg)"
  show ms: "mset ?q = mset ts" using enqueue_all_waiting [of ts sg] assms(2) by simp
  show "sorted (map (task_key sg) ?q)"
    using enqueue_all_sorted [of sg ts] assms(2)
    by (simp add: stage_sorted_def enqueue_all_key)
  fix t assume t: "t \<in> set ?q"
  have inj: "inj_on t_id (set ts)" using assms(1) by (simp add: distinct_map)
  have d: "distinct ts" "distinct ?q"
    using assms(1) ms by (auto simp: distinct_map dest: mset_eq_imp_distinct_iff)
  have single: "[u \<leftarrow> xs. task_key sg u = task_key sg t] = [t]"
    if "distinct xs" "set xs = set ts" for xs
  proof -
    have "t \<in> set xs" using t that(2) mset_eq_setD [OF ms] by simp
    moreover have "u = t" if "u \<in> set xs" "task_key sg u = task_key sg t" for u
      using that inj \<open>set xs = set ts\<close> t mset_eq_setD [OF ms] by (auto simp: task_key_def inj_on_def)
    ultimately have "set [u \<leftarrow> xs. task_key sg u = task_key sg t] = {t}" by auto
    moreover have "distinct [u \<leftarrow> xs. task_key sg u = task_key sg t]" using that(1) by simp
    ultimately show ?thesis
      by (cases "[u \<leftarrow> xs. task_key sg u = task_key sg t]") (auto simp: subset_singleton_iff)
  qed
  show "[u \<leftarrow> ?q. task_key sg t = task_key sg u] = [u \<leftarrow> ts. task_key sg t = task_key sg u]"
    using single [OF d(1)] single [OF d(2)] mset_eq_setD [OF ms] by (simp add: eq_commute)
qed

definition demo_stage :: stage where
  "demo_stage = stage_builder [demo_filter, demo_map] 1 0 2"

definition demo_task :: "nat \<Rightarrow> nat \<Rightarrow> task" where
  "demo_task i n = (new_task demo_ctx 0 [] n)\<lparr>t_op_index := i\<rparr>"

theorem enqueue_sorts_witness:
  "map t_id (sg_waiting (fold (\<lambda>t sg. enqueue sg t) [demo_task 0 4, demo_task 1 7, demo_task 0 2] demo_stage)) = [7, 2, 4]"
proof -
  have "sg_waiting (fold (\<lambda>t sg. enqueue sg t) [demo_task 0 4, demo_task 1 7, demo_task 0 2] demo_stage) =
      sort_key (task_key demo_stage) [demo_task 0 4, demo_task 1 7, demo_task 0 2]"
    by (rule enqueue_sorts) (simp_all add: demo_task_def new_task_def demo_stage_def stage_builder_def)
  then show ?thesis
    by (simp add: task_key_def task_priority_def demo_task_def new_task_def demo_stage_def stage_builder_def)
qed

text \<open>
  C28. The budget of a task is the bytes of its most demanding remaining operator: when
  \<open>estimate_budget\<close> returns, every operator before a cartesian product has an estimate, the
  result bounds each of them times the bytes per token, and it is one of them (or minus one
  token when there is none).
\<close>

theorem estimate_budget_max:
  assumes "estimate_budget E est sg t = Inr b" "0 \<le> sg_bpt sg"
  shows "\<exists>ns. map (\<lambda>op. estimate_tokens E est op (t_ctx t))
       (estimated_ops (drop (t_op_index t) (sg_operators sg))) = map Inr ns \<and>
     (\<forall>n \<in> set ns. n * sg_bpt sg \<le> b) \<and> b \<in> (\<lambda>n. n * sg_bpt sg) ` (insert (-1) (set ns))"
proof -
  obtain n where n: "max_tokens_from E est (t_ctx t) (-1) (drop (t_op_index t) (sg_operators sg)) = Inr n"
    and b: "b = n * sg_bpt sg"
    using assms(1) by (auto simp: estimate_budget_def py_simps)
  obtain ns where ns: "map (\<lambda>op. estimate_tokens E est op (t_ctx t))
      (estimated_ops (drop (t_op_index t) (sg_operators sg))) = map Inr ns" "n = fold max ns (-1)"
    using n unfolding max_tokens_from_eq by blast
  have "\<forall>k \<in> set ns. k * sg_bpt sg \<le> b"
    unfolding b ns(2) using fold_max_bounds(2) assms(2) by (auto intro: mult_right_mono)
  moreover have "n \<in> insert (-1) (set ns)" using fold_max_bounds(3) [of ns "-1"] ns(2) by auto
  ultimately show ?thesis using ns(1) b by blast
qed

theorem estimate_budget_max_witness:
  "\<exists>b ns. estimate_budget (demo_env ''x'') [] (stage_builder [indexed_search_init demo_icp 0] 1 0 2) (demo_task 0 0) = Inr b \<and>
     length ns = 1 \<and> (\<forall>n \<in> set ns. n * 2 \<le> b)"
proof -
  let ?sg = "stage_builder [indexed_search_init demo_icp 0] 1 0 2"
  have "\<exists>b. estimate_budget (demo_env ''x'') [] ?sg (demo_task 0 0) = Inr b"
    by (simp add: estimate_budget_def stage_builder_def demo_task_def new_task_def
        indexed_search_init_def base_op_def estimate_tokens_def)
  then obtain b where b: "estimate_budget (demo_env ''x'') [] ?sg (demo_task 0 0) = Inr b" by blast
  obtain ns where ns: "map (\<lambda>op. estimate_tokens (demo_env ''x'') [] op (t_ctx (demo_task 0 0)))
       (estimated_ops (drop (t_op_index (demo_task 0 0)) (sg_operators ?sg))) = map Inr ns"
     "\<forall>n \<in> set ns. n * sg_bpt ?sg \<le> b"
    using estimate_budget_max [OF b] by (auto simp: stage_builder_def)
  have "length ns = 1"
    using ns(1) by (auto simp: stage_builder_def demo_task_def new_task_def estimated_ops_def
        indexed_search_init_def base_op_def Cons_eq_map_conv)
  with b ns(2) show ?thesis by (auto simp: stage_builder_def)
qed

text \<open>
  C29. A run of a task keeps extending what the model has been shown: from a well-shaped
  context, the data with the system message in front is a prefix of the data of the resulting
  context, also of one that is handed back for a retry, so later prompts share the earlier
  ones as cacheable prefixes.
\<close>

theorem run_task_shares_prefix:
  assumes "ctx_ok (t_ctx t)" "run_task E sg t w = (Inr r, w')"
  shows "case r of TaskDropped \<Rightarrow> True
     | TaskDone c \<Rightarrow> ctx_ok c \<and> prefix (sysd (ctx_data (t_ctx t))) (sysd (ctx_data c))
     | TaskRetry rt \<Rightarrow> ctx_ok (rt_ctx rt) \<and> prefix (sysd (ctx_data (t_ctx t))) (sysd (ctx_data (rt_ctx rt)))"
proof -
  have ok: "ctx_ok (set_stage (sg_id sg) (t_ctx t))" "ctx_data (set_stage (sg_id sg) (t_ctx t)) = ctx_data (t_ctx t)"
    using assms(1) by (simp_all add: set_stage_def ctx_ok_def)
  have "good_result (set_stage (sg_id sg) (t_ctx t)) r"
    using sem_ops.run_ops_good [OF ok(1)] assms(2) unfolding run_task_def by blast
  then show ?thesis
    by (auto simp: good_result_def continues_def ok(2) split: task_result.splits retry_task_result.splits)
qed

lemma demo_filter_run:
  "\<exists>c w'. run_task (demo_env ''TRUE'') (stage_builder [demo_filter] 1 0 2) (demo_task 0 0) demo_world = (Inr (TaskDone c), w')"
proof -
  let ?E = "demo_env ''TRUE''" let ?c = "set_stage 1 demo_ctx"
  have ok: "ctx_ok ?c" using demo_ctx_ok by (simp add: ctx_ok_def set_stage_def)
  obtain t where t: "build_prompts ''is it true'' ?c = Inr (sysd (joined_data ?c), sysd (joined_data ?c) @ [t])"
    using build_prompts_ok [OF ok] by blast
  have p: "\<not> py_in ''false'' (py_lower (py_strip (py_lower (py_strip ''TRUE''))))" by code_simp
  have "\<exists>c w'. filter_run_single ?E demo_filter ''is it true'' 8 0 ?c demo_world = (Inr (Verdict True, c), w')"
    unfolding filter_run_single_def t
    using handle_output_total p
    by (simp add: pbind_apply Let_def demo_filter_def sem_filter_init_def base_op_def output_passed_def
        predicate_passed_def handle_output_def del: execute.simps)
  then show ?thesis
    by (auto simp: run_task_def stage_builder_def demo_task_def new_task_def op_call_def
        demo_filter_def sem_filter_init_def base_op_def)
qed

theorem run_task_shares_prefix_witness:
  "\<exists>c w'. run_task (demo_env ''TRUE'') (stage_builder [demo_filter] 1 0 2) (demo_task 0 0) demo_world = (Inr (TaskDone c), w') \<and>
     prefix (sysd (ctx_data demo_ctx)) (sysd (ctx_data c))"
proof -
  obtain c w' where c: "run_task (demo_env ''TRUE'') (stage_builder [demo_filter] 1 0 2) (demo_task 0 0) demo_world =
      (Inr (TaskDone c), w')"
    using demo_filter_run by blast
  have "t_ctx (demo_task 0 0) = demo_ctx" by (simp add: demo_task_def new_task_def)
  with run_task_shares_prefix [OF _ c] c demo_ctx_ok show ?thesis by auto
qed

end
