(* ===== verification/Plan_Build.thy ===== *)
theory Plan_Build
  imports Plan_Parse Stage
begin

text \<open>
  Building a plan (\<open>SemanticPlan.build\<close> of \<open>kalypso/controller/plan.py\<close>): runs of tuple-independent
  operators are fused into stages, a join becomes the fanout of the stage before it, a blocking
  operator closes the segment, and closing a segment registers its stages with the KV manager.
  \<open>random.sample\<close> is an argument, indexed by the stage it samples for.
\<close>

section \<open>Plans\<close>

datatype plan_item = Segment "stage list" | OpItem phys_op

record build_state =
  b_plan :: "plan_item list"
  b_segment :: "stage list"
  b_chain :: "phys_op list"
  b_next_id :: int
  b_offset :: int
  b_mgr :: kv_mgr

definition emit_stage :: "build_state \<Rightarrow> build_state" where
  "emit_stage st =
     (if b_chain st = [] then st
      else st\<lparr>b_segment := b_segment st @
               [stage_builder (b_chain st) (b_next_id st) (b_offset st) (bytes_per_token (b_mgr st))],
             b_next_id := b_next_id st + 1,
             b_offset := b_offset st + int (length (b_chain st)),
             b_chain := []\<rparr>)"

section \<open>Minimum capacities\<close>

definition ESTIMATED_CTX_SAMPLE_SIZE :: nat where
  "ESTIMATED_CTX_SAMPLE_SIZE = 100"

text \<open>\<open>xs[:k]\<close>\<close>

definition slice_to :: "int \<Rightarrow> 'a list \<Rightarrow> 'a list" where
  "slice_to k xs = (if 0 \<le> k then take (nat k) xs else take (nat (int (length xs) + k)) xs)"

definition estimate_fanout_ctxs :: "phys_op \<Rightarrow> sem_context list \<Rightarrow> sem_context list res" where
  "estimate_fanout_ctxs op ctxs =
     (case kind op of
        IndexedCartesianProduct cfg \<Rightarrow>
          (let limit = (case top_k cfg of Some k \<Rightarrow> k | None \<Rightarrow> int (length (right_table cfg)))
           in Inr (concat (map (cartesian_call (slice_to limit (right_table cfg))) ctxs)))
      | CartesianProduct table \<Rightarrow> Inr (concat (map (cartesian_call table) ctxs))
      | _ \<Rightarrow> Inl TypeError)"

primrec stage_min_caps ::
  "env \<Rightarrow> estimator \<Rightarrow> (int \<Rightarrow> sem_context list \<Rightarrow> sem_context list) \<Rightarrow> sem_context list \<Rightarrow> stage list \<Rightarrow>
   (int, int) dict \<Rightarrow> (int, int) dict res" where
  "stage_min_caps E est sample ctxs [] caps = Inr caps"
| "stage_min_caps E est sample ctxs (sg # rest) caps =
     (let sampled = (if length ctxs > ESTIMATED_CTX_SAMPLE_SIZE then sample (sg_id sg) ctxs else ctxs) in
      rbind (map_res (\<lambda>ctx. estimate_budget E est sg (new_task ctx 0 [] 0)) sampled) (\<lambda>budgets.
      let caps = (if budgets = [] then caps else AList.update (sg_id sg) (Max (set budgets)) caps) in
      rbind (case sg_fanout sg of None \<Rightarrow> Inr ctxs | Some op \<Rightarrow> estimate_fanout_ctxs op ctxs) (\<lambda>ctxs'.
      stage_min_caps E est sample ctxs' rest caps)))"

section \<open>Registration\<close>

definition assigned_caps :: "int \<Rightarrow> (int, int) dict \<Rightarrow> int list \<Rightarrow> (int, int) dict" where
  "assigned_caps total_cap min_caps sids =
     (let early = map (\<lambda>sid. (sid, dget min_caps sid 0)) (butlast sids)
      in early @ [(last sids, total_cap - dsum early)])"

definition register_one :: "(int, int) dict \<Rightarrow> (int, int) dict \<Rightarrow> bool \<Rightarrow> int \<Rightarrow> kv_mgr \<Rightarrow> kv_mgr res" where
  "register_one min_caps assigned is_last sid m =
     (let cap = max (bytes_per_token m) (dget assigned sid 0) in
      if kv_capacity m = 0 then Inl ZeroDivisionError
      else let initial = min 1 (of_int cap / of_int (kv_capacity m));
               maxf = (if is_last then 1 else min 1 (initial + 1/2))
           in Inr (register_stage m sid initial (Some 0) (Some maxf) (Some (dget min_caps sid 0))))"

primrec register_all :: "(int, int) dict \<Rightarrow> (int, int) dict \<Rightarrow> int list \<Rightarrow> kv_mgr \<Rightarrow> kv_mgr res" where
  "register_all min_caps assigned [] m = Inr m"
| "register_all min_caps assigned (sid # sids) m =
     rbind (register_one min_caps assigned (sids = []) sid m) (register_all min_caps assigned sids)"

definition register_segment :: "(int, int) dict \<Rightarrow> int list \<Rightarrow> kv_mgr \<Rightarrow> kv_mgr res" where
  "register_segment min_caps sids m =
     (case sids of
        [] \<Rightarrow> Inr m
      | [sid] \<Rightarrow> Inr (register_stage m sid 1 (Some 1) (Some 1) None)
      | _ \<Rightarrow> register_all min_caps (assigned_caps (kv_capacity m) min_caps sids) sids m)"

definition flush_segment ::
  "env \<Rightarrow> estimator \<Rightarrow> (int \<Rightarrow> sem_context list \<Rightarrow> sem_context list) \<Rightarrow> sem_context list \<Rightarrow> build_state \<Rightarrow> build_state res" where
  "flush_segment E est sample ctxs st =
     (if b_segment st = [] then Inr st
      else rbind (stage_min_caps E est sample ctxs (b_segment st) []) (\<lambda>caps.
           rbind (register_segment caps (map sg_id (b_segment st)) (b_mgr st)) (\<lambda>m.
           Inr (st\<lparr>b_mgr := m, b_plan := b_plan st @ [Segment (b_segment st)], b_segment := []\<rparr>))))"

section \<open>The build loop\<close>

definition set_last_fanout :: "phys_op \<Rightarrow> stage list \<Rightarrow> stage list" where
  "set_last_fanout op sgs = butlast sgs @ [(last sgs)\<lparr>sg_fanout := Some op\<rparr>]"

definition build_step ::
  "env \<Rightarrow> estimator \<Rightarrow> (int \<Rightarrow> sem_context list \<Rightarrow> sem_context list) \<Rightarrow> sem_context list \<Rightarrow> phys_op \<Rightarrow> build_state \<Rightarrow> build_state res" where
  "build_step E est sample ctxs op st =
     (case behavior op of
        TUPLE_INDEPENDENT \<Rightarrow> Inr (st\<lparr>b_chain := b_chain st @ [op]\<rparr>)
      | JOINING \<Rightarrow>
          (let st = emit_stage st in
           if b_segment st = []
           then rbind (flush_segment E est sample ctxs st) (\<lambda>st. Inr (st\<lparr>b_plan := b_plan st @ [OpItem op]\<rparr>))
           else Inr (st\<lparr>b_segment := set_last_fanout op (b_segment st)\<rparr>))
      | BLOCKING \<Rightarrow>
          rbind (flush_segment E est sample ctxs (emit_stage st)) (\<lambda>st.
            Inr (st\<lparr>b_plan := b_plan st @ [OpItem op]\<rparr>)))"

primrec build_loop ::
  "env \<Rightarrow> estimator \<Rightarrow> (int \<Rightarrow> sem_context list \<Rightarrow> sem_context list) \<Rightarrow> sem_context list \<Rightarrow> phys_op list \<Rightarrow> build_state \<Rightarrow> build_state res" where
  "build_loop E est sample ctxs [] st = Inr st"
| "build_loop E est sample ctxs (op # ops) st =
     rbind (build_step E est sample ctxs op st) (build_loop E est sample ctxs ops)"

definition build ::
  "env \<Rightarrow> estimator \<Rightarrow> (int \<Rightarrow> sem_context list \<Rightarrow> sem_context list) \<Rightarrow> sem_context list \<Rightarrow> phys_op list \<Rightarrow> kv_mgr \<Rightarrow>
   (plan_item list \<times> kv_mgr) res" where
  "build E est sample ctxs operators m =
     rbind (build_loop E est sample ctxs operators
             \<lparr>b_plan = [], b_segment = [], b_chain = [], b_next_id = 1, b_offset = 0, b_mgr = m\<rparr>) (\<lambda>st.
     rbind (flush_segment E est sample ctxs (emit_stage st)) (\<lambda>st.
       Inr (b_plan st, b_mgr st)))"

section \<open>No operator is lost\<close>

definition stage_ops :: "stage \<Rightarrow> phys_op list" where
  "stage_ops sg = sg_operators sg @ (case sg_fanout sg of None \<Rightarrow> [] | Some op \<Rightarrow> [op])"

primrec item_ops :: "plan_item \<Rightarrow> phys_op list" where
  "item_ops (Segment sgs) = concat (map stage_ops sgs)"
| "item_ops (OpItem op) = [op]"

definition plan_ops :: "plan_item list \<Rightarrow> phys_op list" where
  "plan_ops plan = concat (map item_ops plan)"

text \<open>The operators a build state has taken in, in order.\<close>

definition taken :: "build_state \<Rightarrow> phys_op list" where
  "taken st = plan_ops (b_plan st) @ concat (map stage_ops (b_segment st)) @ b_chain st"

text \<open>Whether the last stage of the open segment can still take a fanout.\<close>

definition fanout_free :: "build_state \<Rightarrow> bool" where
  "fanout_free st \<longleftrightarrow> b_chain st = [] \<longrightarrow> b_segment st \<noteq> [] \<longrightarrow> sg_fanout (last (b_segment st)) = None"

lemma taken_emit [simp]: "taken (emit_stage st) = taken st"
  by (simp add: taken_def emit_stage_def stage_ops_def stage_builder_def)

lemma emit_chain [simp]: "b_chain (emit_stage st) = []"
  by (simp add: emit_stage_def)

lemma emit_fanout: "fanout_free st \<Longrightarrow> fanout_free (emit_stage st)"
  by (auto simp: fanout_free_def emit_stage_def stage_builder_def)

lemma flush_taken:
  "flush_segment E est sample ctxs st = Inr st' \<Longrightarrow> taken st' = taken st \<or> b_chain st \<noteq> []"
  by (auto simp: flush_segment_def taken_def plan_ops_def py_simps split: if_splits)

lemma flush_fields:
  "flush_segment E est sample ctxs st = Inr st' \<Longrightarrow>
     b_segment st' = [] \<and> b_chain st' = b_chain st \<and> b_next_id st' = b_next_id st \<and> b_offset st' = b_offset st"
  by (auto simp: flush_segment_def py_simps split: if_splits)

lemma set_last_fanout_ops:
  assumes "sgs \<noteq> []" "sg_fanout (last sgs) = None"
  shows "concat (map stage_ops (set_last_fanout op sgs)) = concat (map stage_ops sgs) @ [op]"
  using assms by (cases sgs rule: rev_cases) (simp_all add: set_last_fanout_def stage_ops_def)

lemma build_step_taken:
  assumes "build_step E est sample ctxs op st = Inr st'" "behavior op = JOINING \<longrightarrow> fanout_free st"
  shows "taken st' = taken st @ [op]"
proof (cases "behavior op")
  case TUPLE_INDEPENDENT
  with assms(1) show ?thesis by (auto simp: build_step_def taken_def)
next
  case BLOCKING
  then obtain st1 where f: "flush_segment E est sample ctxs (emit_stage st) = Inr st1"
    and st': "st' = st1\<lparr>b_plan := b_plan st1 @ [OpItem op]\<rparr>"
    using assms(1) by (auto simp: build_step_def py_simps)
  have "taken st1 = taken st" using flush_taken [OF f] by simp
  with flush_fields [OF f] show ?thesis
    by (simp add: st' taken_def plan_ops_def)
next
  case JOINING
  show ?thesis
  proof (cases "b_segment (emit_stage st) = []")
    case True
    then have "st' = (emit_stage st)\<lparr>b_plan := b_plan (emit_stage st) @ [OpItem op]\<rparr>"
      using assms(1) JOINING by (auto simp: build_step_def flush_segment_def Let_def)
    with True taken_emit [of st] show ?thesis by (auto simp: taken_def plan_ops_def)
  next
    case False
    then have st': "st' = (emit_stage st)\<lparr>b_segment := set_last_fanout op (b_segment (emit_stage st))\<rparr>"
      using assms(1) JOINING by (auto simp: build_step_def Let_def)
    have "sg_fanout (last (b_segment (emit_stage st))) = None"
      using emit_fanout [of st] assms(2) JOINING False by (simp add: fanout_free_def)
    from set_last_fanout_ops [OF False this, of op] taken_emit [of st] show ?thesis
      by (simp add: st' taken_def)
  qed
qed

fun joins_apart :: "phys_op list \<Rightarrow> bool" where
  "joins_apart (a # b # ops) \<longleftrightarrow> \<not> (behavior a = JOINING \<and> behavior b = JOINING) \<and> joins_apart (b # ops)"
| "joins_apart _ \<longleftrightarrow> True"

lemma build_step_free:
  assumes "build_step E est sample ctxs op st = Inr st'" "behavior op \<noteq> JOINING"
  shows "fanout_free st'"
proof (cases "behavior op")
  case TUPLE_INDEPENDENT
  with assms(1) show ?thesis by (auto simp: build_step_def fanout_free_def)
next
  case BLOCKING
  then obtain st1 where f: "flush_segment E est sample ctxs (emit_stage st) = Inr st1"
    and st': "st' = st1\<lparr>b_plan := b_plan st1 @ [OpItem op]\<rparr>"
    using assms(1) by (auto simp: build_step_def py_simps)
  show ?thesis using flush_fields [OF f] by (simp add: fanout_free_def st')
qed (use assms(2) in simp)

lemma build_loop_taken:
  assumes "build_loop E est sample ctxs ops st = Inr st'" "joins_apart ops"
    "ops \<noteq> [] \<Longrightarrow> behavior (hd ops) = JOINING \<Longrightarrow> fanout_free st"
  shows "taken st' = taken st @ ops"
  using assms
proof (induction ops arbitrary: st)
  case (Cons op ops)
  from Cons.prems(1) obtain st1 where 1: "build_step E est sample ctxs op st = Inr st1"
    "build_loop E est sample ctxs ops st1 = Inr st'"
    by (auto simp: py_simps)
  have t: "taken st1 = taken st @ [op]" using 1(1) Cons.prems(3) by (intro build_step_taken) auto
  have "taken st' = taken st1 @ ops"
  proof (rule Cons.IH [OF 1(2)])
    show "joins_apart ops" using Cons.prems(2) by (cases ops) auto
    show "fanout_free st1" if "ops \<noteq> []" "behavior (hd ops) = JOINING"
      using that Cons.prems(2) build_step_free [OF 1(1)] by (cases ops) auto
  qed
  with t show ?case by simp
qed simp

section \<open>Stage numbers and offsets\<close>

text \<open>The stages of a plan in order.\<close>

definition item_stages :: "plan_item \<Rightarrow> stage list" where
  "item_stages it = (case it of Segment sgs \<Rightarrow> sgs | OpItem _ \<Rightarrow> [])"

definition plan_stages :: "plan_item list \<Rightarrow> stage list" where
  "plan_stages plan = concat (map item_stages plan)"

definition all_stages :: "build_state \<Rightarrow> stage list" where
  "all_stages st = plan_stages (b_plan st) @ b_segment st"

text \<open>
  Stages are numbered from one without gaps, and the priority offset of a stage is the
  number of operators fused into the stages before it.
\<close>

definition numbered :: "stage list \<Rightarrow> bool" where
  "numbered sgs \<longleftrightarrow> (\<forall>i<length sgs. sg_id (sgs ! i) = int i + 1 \<and> sg_operators (sgs ! i) \<noteq> [] \<and>
     sg_offset (sgs ! i) = (\<Sum>sg\<leftarrow>take i sgs. int (length (sg_operators sg))))"

definition numbering :: "build_state \<Rightarrow> bool" where
  "numbering st \<longleftrightarrow> numbered (all_stages st) \<and> b_next_id st = int (length (all_stages st)) + 1 \<and>
     b_offset st = (\<Sum>sg\<leftarrow>all_stages st. int (length (sg_operators sg)))"

lemma numbered_snoc:
  "numbered (sgs @ [sg]) \<longleftrightarrow> numbered sgs \<and> sg_id sg = int (length sgs) + 1 \<and> sg_operators sg \<noteq> [] \<and>
     sg_offset sg = (\<Sum>sg\<leftarrow>sgs. int (length (sg_operators sg)))"
  by (auto simp: numbered_def nth_append less_Suc_eq)

lemma numbering_emit: "numbering st \<Longrightarrow> numbering (emit_stage st)"
proof (cases "b_chain st = []")
  case False
  let ?sg = "stage_builder (b_chain st) (b_next_id st) (b_offset st) (bytes_per_token (b_mgr st))"
  have "all_stages (emit_stage st) = all_stages st @ [?sg]"
    using False by (simp add: all_stages_def emit_stage_def)
  then show "numbering st \<Longrightarrow> numbering (emit_stage st)"
    using False by (simp add: numbering_def numbered_snoc) (simp add: emit_stage_def stage_builder_def)
qed (simp add: emit_stage_def)

lemma flush_stages:
  "flush_segment E est sample ctxs st = Inr st' \<Longrightarrow> all_stages st' = all_stages st"
  by (auto simp: flush_segment_def all_stages_def plan_stages_def item_stages_def py_simps split: if_splits)

lemma numbered_cong:
  "map (\<lambda>sg. (sg_id sg, sg_operators sg, sg_offset sg)) xs = map (\<lambda>sg. (sg_id sg, sg_operators sg, sg_offset sg)) ys \<Longrightarrow>
     numbered xs = numbered ys \<and>
     (\<Sum>sg\<leftarrow>xs. int (length (sg_operators sg))) = (\<Sum>sg\<leftarrow>ys. int (length (sg_operators sg)))"
proof (induction xs arbitrary: ys rule: rev_induct)
  case (snoc x xs)
  then obtain zs y where ys: "ys = zs @ [y]" by (cases ys rule: rev_cases) auto
  with snoc.prems have e: "map (\<lambda>sg. (sg_id sg, sg_operators sg, sg_offset sg)) xs =
      map (\<lambda>sg. (sg_id sg, sg_operators sg, sg_offset sg)) zs"
    "sg_id x = sg_id y" "sg_operators x = sg_operators y" "sg_offset x = sg_offset y" by auto
  have "length xs = length zs" by (rule map_eq_imp_length_eq [OF e(1)])
  with snoc.IH [OF e(1)] e(2-) show ?case by (simp add: ys numbered_snoc)
qed simp

lemma fanout_stages:
  assumes "numbering st" "b_segment st \<noteq> []"
  shows "numbering (st\<lparr>b_segment := set_last_fanout op (b_segment st)\<rparr>)"
proof -
  let ?f = "\<lambda>sg. (sg_id sg, sg_operators sg, sg_offset sg)"
  have "map ?f (set_last_fanout op (b_segment st)) = map ?f (butlast (b_segment st) @ [last (b_segment st)])"
    by (simp add: set_last_fanout_def)
  then have seg: "map ?f (set_last_fanout op (b_segment st)) = map ?f (b_segment st)" using assms(2) by simp
  let ?st = "st\<lparr>b_segment := set_last_fanout op (b_segment st)\<rparr>"
  have m: "map ?f (all_stages ?st) = map ?f (all_stages st)" using seg by (simp add: all_stages_def)
  have "length (all_stages ?st) = length (all_stages st)" by (rule map_eq_imp_length_eq [OF m])
  with assms(1) numbered_cong [OF m] show ?thesis by (simp add: numbering_def)
qed

lemma numbering_step:
  assumes "build_step E est sample ctxs op st = Inr st'" "numbering st"
  shows "numbering st'"
proof (cases "behavior op")
  case TUPLE_INDEPENDENT
  with assms show ?thesis by (auto simp: build_step_def numbering_def all_stages_def)
next
  case BLOCKING
  then obtain st1 where f: "flush_segment E est sample ctxs (emit_stage st) = Inr st1"
    and st': "st' = st1\<lparr>b_plan := b_plan st1 @ [OpItem op]\<rparr>"
    using assms(1) by (auto simp: build_step_def py_simps)
  have "all_stages st' = all_stages st1" by (simp add: st' all_stages_def plan_stages_def item_stages_def)
  with numbering_emit [OF assms(2)] flush_stages [OF f] flush_fields [OF f] show ?thesis
    by (simp add: numbering_def st')
next
  case JOINING
  show ?thesis
  proof (cases "b_segment (emit_stage st) = []")
    case True
    then have st': "st' = (emit_stage st)\<lparr>b_plan := b_plan (emit_stage st) @ [OpItem op]\<rparr>"
      using assms(1) JOINING by (auto simp: build_step_def flush_segment_def Let_def)
    have "all_stages st' = all_stages (emit_stage st)"
      by (simp add: st' all_stages_def plan_stages_def item_stages_def)
    with numbering_emit [OF assms(2)] show ?thesis by (simp add: numbering_def st')
  next
    case False
    then have "st' = (emit_stage st)\<lparr>b_segment := set_last_fanout op (b_segment (emit_stage st))\<rparr>"
      using assms(1) JOINING by (auto simp: build_step_def Let_def)
    with fanout_stages [OF numbering_emit [OF assms(2)] False] show ?thesis by simp
  qed
qed

lemma numbering_loop:
  "build_loop E est sample ctxs ops st = Inr st' \<Longrightarrow> numbering st \<Longrightarrow> numbering st'"
  by (induction ops arbitrary: st) (auto simp: py_simps dest: numbering_step)

section \<open>Every stage is registered\<close>

lemma register_frame [simp]:
  "kv_capacity (register_stage m s f lo hi b) = kv_capacity m"
  "bytes_per_token (register_stage m s f lo hi b) = bytes_per_token m"
  by (simp_all add: register_stage_def Let_def)

lemma cap_register:
  "cap_of (register_stage m s f lo hi b) t = (if t = s then of_int (kv_capacity m) * f else cap_of m t)"
  by (simp add: register_stage_def Let_def)

lemma register_all_facts:
  assumes "register_all mc ac sids m = Inr m'" "mgr_wf m"
  shows "mgr_wf m' \<and> kv_capacity m' = kv_capacity m \<and> bytes_per_token m' = bytes_per_token m \<and>
    (\<forall>t. registered m' t \<longleftrightarrow> t \<in> set sids \<or> registered m t) \<and>
    (\<forall>t. t \<notin> set sids \<longrightarrow> cap_of m' t = cap_of m t)"
  using assms
proof (induction sids arbitrary: m)
  case (Cons sid sids)
  from Cons.prems(1) obtain f hi where 1: "register_all mc ac sids
      (register_stage m sid f (Some 0) hi (Some (dget mc sid 0))) = Inr m'"
    by (auto simp: register_one_def py_simps Let_def split: if_splits)
  from Cons.IH [OF 1 wf_register [OF Cons.prems(2)]] show ?case
    by (auto simp: registered_register cap_register)
qed simp

lemma register_segment_facts:
  assumes "register_segment mc sids m = Inr m'" "mgr_wf m"
  shows "mgr_wf m' \<and> kv_capacity m' = kv_capacity m \<and> bytes_per_token m' = bytes_per_token m \<and>
    (\<forall>t. registered m' t \<longleftrightarrow> t \<in> set sids \<or> registered m t)"
proof (cases "\<exists>sid. sids = [sid]")
  case True
  then obtain sid where "sids = [sid]" by blast
  with assms show ?thesis
    by (auto simp: register_segment_def wf_register registered_register)
next
  case False
  show ?thesis
  proof (cases sids)
    case Nil
    with assms show ?thesis by (auto simp: register_segment_def)
  next
    case (Cons a r)
    with False obtain b q where r: "r = b # q" by (cases r) auto
    have "register_all mc (assigned_caps (kv_capacity m) mc sids) sids m = Inr m'"
      using assms(1) Cons r by (simp add: register_segment_def)
    with register_all_facts assms(2) show ?thesis by blast
  qed
qed

definition build_wf :: "build_state \<Rightarrow> bool" where
  "build_wf st \<longleftrightarrow> mgr_wf (b_mgr st) \<and> (\<forall>sg \<in> set (plan_stages (b_plan st)). registered (b_mgr st) (sg_id sg))"

lemma build_wf_emit [simp]: "build_wf (emit_stage st) = build_wf st"
  by (simp add: build_wf_def emit_stage_def)

lemma build_wf_flush:
  assumes "flush_segment E est sample ctxs st = Inr st'" "build_wf st"
  shows "build_wf st'"
proof (cases "b_segment st = []")
  case True
  with assms show ?thesis by (simp add: flush_segment_def)
next
  case False
  then obtain caps m where m: "register_segment caps (map sg_id (b_segment st)) (b_mgr st) = Inr m"
    and st': "st' = st\<lparr>b_mgr := m, b_plan := b_plan st @ [Segment (b_segment st)], b_segment := []\<rparr>"
    using assms(1) by (auto simp: flush_segment_def py_simps)
  have "mgr_wf (b_mgr st)" using assms(2) by (simp add: build_wf_def)
  from register_segment_facts [OF m this] assms(2) show ?thesis
    by (auto simp: st' build_wf_def plan_stages_def item_stages_def)
qed

lemma build_wf_step:
  assumes "build_step E est sample ctxs op st = Inr st'" "build_wf st"
  shows "build_wf st'"
proof -
  have plan: "build_wf (s\<lparr>b_plan := b_plan s @ [OpItem op]\<rparr>) = build_wf s" for s
    by (simp add: build_wf_def plan_stages_def item_stages_def)
  have seg: "build_wf (s\<lparr>b_segment := x\<rparr>) = build_wf s" "build_wf (s\<lparr>b_chain := y\<rparr>) = build_wf s" for s x y
    by (simp_all add: build_wf_def)
  show ?thesis
    using assms build_wf_flush [of E est sample ctxs "emit_stage st"]
    by (auto simp: build_step_def Let_def py_simps plan seg split: op_behavior.splits if_splits)
qed

lemma build_wf_loop:
  "build_loop E est sample ctxs ops st = Inr st' \<Longrightarrow> build_wf st \<Longrightarrow> build_wf st'"
  by (induction ops arbitrary: st) (auto simp: py_simps dest: build_wf_step)

text \<open>The three facts about a finished build, from those about its loop.\<close>

lemma build_facts:
  assumes "build E est sample ctxs ops m = Inr (plan, m')"
  shows "numbered (plan_stages plan)"
    "joins_apart ops \<Longrightarrow> plan_ops plan = ops"
    "mgr_wf m \<Longrightarrow> mgr_wf m' \<and> (\<forall>sg \<in> set (plan_stages plan). registered m' (sg_id sg))"
proof -
  let ?st0 = "\<lparr>b_plan = [], b_segment = [], b_chain = [], b_next_id = 1, b_offset = 0, b_mgr = m\<rparr>"
  obtain st1 st2 where 1: "build_loop E est sample ctxs ops ?st0 = Inr st1"
    and 2: "flush_segment E est sample ctxs (emit_stage st1) = Inr st2"
    and 3: "plan = b_plan st2" "m' = b_mgr st2"
    using assms by (auto simp: build_def py_simps)
  have seg: "b_segment st2 = []" "b_chain st2 = []" using flush_fields [OF 2] by auto
  have "numbering ?st0" by (simp add: numbering_def all_stages_def plan_stages_def numbered_def)
  then have "numbering (emit_stage st1)" using numbering_loop [OF 1] numbering_emit by blast
  then have "numbering st2" using flush_stages [OF 2] flush_fields [OF 2] by (simp add: numbering_def)
  then show "numbered (plan_stages plan)" by (simp add: numbering_def all_stages_def seg 3)
  show "plan_ops plan = ops" if "joins_apart ops"
  proof -
    have "taken st1 = taken ?st0 @ ops"
      by (rule build_loop_taken [OF 1 that]) (simp add: fanout_free_def)
    moreover have "taken st2 = taken st1" using flush_taken [OF 2] by simp
    ultimately show ?thesis by (simp add: taken_def seg 3 plan_ops_def)
  qed
  show "mgr_wf m' \<and> (\<forall>sg \<in> set (plan_stages plan). registered m' (sg_id sg))" if "mgr_wf m"
  proof -
    have "build_wf ?st0" using that by (simp add: build_wf_def plan_stages_def)
    then have "build_wf st2" using build_wf_loop [OF 1] build_wf_flush [OF 2] by simp
    then show ?thesis by (simp add: build_wf_def 3)
  qed
qed

section \<open>The capacities of a segment\<close>

lemma register_one_cap:
  assumes "register_one mc ac l sid m = Inr m'" "0 < kv_capacity m"
    "bytes_per_token m \<le> dget ac sid 0" "dget ac sid 0 \<le> kv_capacity m"
  shows "cap_of m' sid = of_int (dget ac sid 0)"
proof -
  let ?a = "dget ac sid 0"
  have "max (bytes_per_token m) ?a = ?a" using assms(3) by simp
  moreover have "min 1 (of_int ?a / of_int (kv_capacity m)) = (of_int ?a / of_int (kv_capacity m) :: rat)"
    using assms(2,4) by (simp add: min_def)
  ultimately show ?thesis
    using assms(1,2) by (auto simp: register_one_def Let_def cap_register split: if_splits)
qed

lemma register_all_caps:
  assumes "register_all mc ac sids m = Inr m'" "mgr_wf m" "0 < kv_capacity m" "distinct sids"
    "\<And>sid. sid \<in> set sids \<Longrightarrow> bytes_per_token m \<le> dget ac sid 0 \<and> dget ac sid 0 \<le> kv_capacity m"
  shows "\<forall>sid \<in> set sids. cap_of m' sid = of_int (dget ac sid 0)"
  using assms
proof (induction sids arbitrary: m)
  case (Cons sid sids)
  from Cons.prems(1) obtain m1 where 1: "register_one mc ac (sids = []) sid m = Inr m1"
    "register_all mc ac sids m1 = Inr m'" by (auto simp: py_simps)
  obtain f hi where m1: "m1 = register_stage m sid f (Some 0) hi (Some (dget mc sid 0))"
    using 1(1) by (auto simp: register_one_def Let_def split: if_splits)
  have wf: "mgr_wf m1" using Cons.prems(2) by (simp add: m1 wf_register)
  have "cap_of m1 sid = of_int (dget ac sid 0)"
    using register_one_cap [OF 1(1) Cons.prems(3)] Cons.prems(5) [of sid] by simp
  moreover have "cap_of m' sid = cap_of m1 sid"
    using register_all_facts [OF 1(2) wf] Cons.prems(4) by auto
  moreover have "\<forall>sid \<in> set sids. cap_of m' sid = of_int (dget ac sid 0)"
    by (rule Cons.IH [OF 1(2) wf]) (use Cons.prems in \<open>auto simp: m1\<close>)
  ultimately show ?case by simp
qed simp

lemma dget_map_pair: "t \<in> set xs \<Longrightarrow> dget (map (\<lambda>x. (x, f x)) xs @ d) t v = f t"
  by (simp add: dget_def map_add_def map_of_map_restrict restrict_map_def split: option.splits)

lemma dget_append_absent: "t \<notin> set (dkeys d) \<Longrightarrow> dget (d @ e) t v = dget e t v"
  by (induction d) (auto simp: dget_def)

lemma of_int_sum_map: "of_int (\<Sum>x\<leftarrow>xs. f x) = (\<Sum>x\<leftarrow>xs. of_int (f x) :: rat)"
  by (induction xs) simp_all

lemma assigned_lookup:
  assumes "sids \<noteq> []" "distinct sids"
  shows "t \<in> set (butlast sids) \<Longrightarrow> dget (assigned_caps c mc sids) t 0 = dget mc t 0"
    "dget (assigned_caps c mc sids) (last sids) 0 = c - (\<Sum>s\<leftarrow>butlast sids. dget mc s 0)"
proof -
  show "t \<in> set (butlast sids) \<Longrightarrow> dget (assigned_caps c mc sids) t 0 = dget mc t 0"
    unfolding assigned_caps_def Let_def by (rule dget_map_pair)
  have "last sids \<notin> set (butlast sids)"
    using assms by (metis append_butlast_last_id distinct_butlast not_distinct_conv_prefix)
  then show "dget (assigned_caps c mc sids) (last sids) 0 = c - (\<Sum>s\<leftarrow>butlast sids. dget mc s 0)"
    unfolding assigned_caps_def Let_def
    by (subst dget_append_absent) (simp_all add: comp_def dget_def dsum_def)
qed

section \<open>Properties\<close>

text \<open>
  C11. Building loses no operator: when no two join operators are adjacent, the operators of
  the stages, their fanouts and the separate items of the plan, read in order, are exactly
  the operators of the query.
\<close>

theorem build_keeps_operators:
  assumes "build E est sample ctxs ops m = Inr (plan, m')" "joins_apart ops"
  shows "plan_ops plan = ops"
  using build_facts(2) [OF assms] .

definition demo_cp :: phys_op where
  "demo_cp = cartesian_init [demo_ctx] 1"

definition demo_join_plan :: "phys_op list" where
  "demo_join_plan = [demo_filter, demo_cp, demo_map]"

lemma demo_behaviors:
  "behavior demo_filter = TUPLE_INDEPENDENT" "behavior demo_map = TUPLE_INDEPENDENT"
  "behavior demo_cp = JOINING" "kind demo_cp = CartesianProduct [demo_ctx]"
  "kind (cartesian_init t p) = CartesianProduct t"
  by (simp_all add: demo_filter_def demo_map_def demo_cp_def) (simp_all add: cartesian_init_def base_op_def)

lemma demo_join_build: "\<exists>plan m'. build (demo_env ''x'') [] (\<lambda>_ c. c) [] demo_join_plan (kv_mgr_init 2 100) = Inr (plan, m')"
  by (simp add: demo_join_plan_def demo_behaviors build_def build_step_def
      emit_stage_def flush_segment_def set_last_fanout_def estimate_fanout_ctxs_def
      register_segment_def register_one_def stage_builder_def Let_def) (simp add: kv_mgr_init_def)

theorem build_keeps_operators_witness:
  "\<exists>plan m'. build (demo_env ''x'') [] (\<lambda>_ c. c) [] demo_join_plan (kv_mgr_init 2 100) = Inr (plan, m') \<and>
     plan_ops plan = demo_join_plan"
proof -
  have "joins_apart demo_join_plan"
    by (simp add: demo_join_plan_def demo_behaviors)
  then show ?thesis using demo_join_build build_keeps_operators by blast
qed

text \<open>
  C30. Two adjacent joins after a stage lose the first: the query ``filter, join, join'' builds
  a plan whose operators are the filter and the second join only.
\<close>

theorem build_drops_first_join:
  assumes "behavior f = TUPLE_INDEPENDENT" "behavior j1 = JOINING" "behavior j2 = JOINING"
    "build E est sample ctxs [f, j1, j2] m = Inr (plan, m')"
  shows "plan_ops plan = [f, j2]"
  using assms
  by (auto simp: build_def build_step_def emit_stage_def flush_segment_def set_last_fanout_def
      plan_ops_def stage_ops_def stage_builder_def py_simps Let_def)

theorem build_drops_first_join_witness:
  "\<exists>plan m'. build (demo_env ''x'') [] (\<lambda>_ c. c) [] [demo_filter, demo_cp, cartesian_init [] 2] (kv_mgr_init 2 100) =
     Inr (plan, m') \<and> plan_ops plan = [demo_filter, cartesian_init [] 2]"
proof -
  have "\<exists>plan m'. build (demo_env ''x'') [] (\<lambda>_ c. c) [] [demo_filter, demo_cp, cartesian_init [] 2] (kv_mgr_init 2 100) =
     Inr (plan, m')"
    by (simp add: demo_behaviors build_def build_step_def emit_stage_def flush_segment_def
        set_last_fanout_def estimate_fanout_ctxs_def register_segment_def stage_builder_def Let_def)
  then show ?thesis
    using build_drops_first_join [OF demo_behaviors(1,3), of "cartesian_init [] 2"] by fastforce
qed

text \<open>
  C31. The stages of a plan are numbered from one without gaps, none is empty, each starts at
  the priority offset that counts the operators of the stages before it, and each is
  registered with the KV manager, which stays well formed.
\<close>

theorem build_numbers_and_registers:
  assumes "build E est sample ctxs ops m = Inr (plan, m')" "mgr_wf m"
  shows "(\<forall>i<length (plan_stages plan). sg_id (plan_stages plan ! i) = int i + 1 \<and>
       sg_operators (plan_stages plan ! i) \<noteq> [] \<and>
       sg_offset (plan_stages plan ! i) = (\<Sum>sg\<leftarrow>take i (plan_stages plan). int (length (sg_operators sg))) \<and>
       registered m' (sg_id (plan_stages plan ! i))) \<and> mgr_wf m'"
  using build_facts(1) [OF assms(1)] build_facts(3) [OF assms] nth_mem unfolding numbered_def by blast

theorem build_numbers_and_registers_witness:
  "\<exists>plan m'. build (demo_env ''x'') [] (\<lambda>_ c. c) [] demo_join_plan (kv_mgr_init 2 100) = Inr (plan, m') \<and> mgr_wf m'"
proof -
  have "mgr_wf (kv_mgr_init 2 100)" by (simp add: mgr_wf_def kv_mgr_init_def)
  then show ?thesis using demo_join_build build_numbers_and_registers by blast
qed

text \<open>
  C32. A segment of several stages divides the KV capacity exactly when the minima fit: if
  every early minimum is at least one token and leaves at least one token for the last stage,
  the capacities of the stages add up to the whole and each early stage starts at its minimum.
\<close>

theorem segment_capacities:
  assumes "register_segment mc sids m = Inr m'" "mgr_wf m" "0 < kv_capacity m" "0 \<le> bytes_per_token m"
    "distinct sids" "2 \<le> length sids"
    "\<forall>s \<in> set (butlast sids). bytes_per_token m \<le> dget mc s 0"
    "(\<Sum>s\<leftarrow>butlast sids. dget mc s 0) + bytes_per_token m \<le> kv_capacity m"
  shows "(\<Sum>s\<leftarrow>sids. cap_of m' s) = of_int (kv_capacity m) \<and>
    (\<forall>s \<in> set (butlast sids). cap_of m' s = of_int (dget mc s 0))"
proof -
  let ?ac = "assigned_caps (kv_capacity m) mc sids"
  have ne: "sids \<noteq> []" using assms(6) by auto
  obtain a b r where abr: "sids = a # b # r" using assms(6) by (cases sids; cases "tl sids") auto
  have reg: "register_all mc ?ac sids m = Inr m'"
    using assms(1) by (simp add: abr register_segment_def)
  note look = assigned_lookup [OF ne assms(5), where c = "kv_capacity m" and mc = mc]
  have nonneg: "\<forall>x \<in> set (map (\<lambda>s. dget mc s 0) (butlast sids)). 0 \<le> x"
    using assms(4,7) by fastforce
  have le: "dget mc s 0 \<le> (\<Sum>s\<leftarrow>butlast sids. dget mc s 0)" if "s \<in> set (butlast sids)" for s
    using member_le_sum_list [of "dget mc s 0" "map (\<lambda>s. dget mc s 0) (butlast sids)"] that nonneg by force
  have split: "set sids = insert (last sids) (set (butlast sids))"
    by (metis append_butlast_last_id insert_is_Un list.simps(15) ne set_append sup_commute empty_set)
  have bounds: "bytes_per_token m \<le> dget ?ac s 0 \<and> dget ?ac s 0 \<le> kv_capacity m" if "s \<in> set sids" for s
  proof (cases "s = last sids")
    case True
    have "0 \<le> (\<Sum>s\<leftarrow>butlast sids. dget mc s 0)" using nonneg by (intro sum_list_nonneg) auto
    with look(2) assms(8) True show ?thesis by simp
  next
    case False
    with that split have s: "s \<in> set (butlast sids)" by auto
    with look(1) [OF s] le [OF s] assms(4,7,8) show ?thesis by auto
  qed
  have caps: "\<forall>s \<in> set sids. cap_of m' s = of_int (dget ?ac s 0)"
    using register_all_caps [OF reg assms(2,3,5) bounds] .
  then have early: "\<forall>s \<in> set (butlast sids). cap_of m' s = of_int (dget mc s 0)"
    using look(1) split by auto
  have "(\<Sum>s\<leftarrow>sids. cap_of m' s) = (\<Sum>s\<leftarrow>butlast sids. cap_of m' s) + cap_of m' (last sids)"
    using ne by (cases sids rule: rev_cases) simp_all
  also have "(\<Sum>s\<leftarrow>butlast sids. cap_of m' s) = (\<Sum>s\<leftarrow>butlast sids. of_int (dget mc s 0))"
    using early by (intro arg_cong [of _ _ sum_list] map_cong) auto
  also have "cap_of m' (last sids) = of_int (kv_capacity m) - (\<Sum>s\<leftarrow>butlast sids. of_int (dget mc s 0))"
    using caps look(2) ne by (simp add: of_int_sum_map)
  finally show ?thesis using early by simp
qed

theorem segment_capacities_witness:
  "\<exists>m'. register_segment [(1, 30), (2, 20)] [1, 2] (kv_mgr_init 2 100) = Inr m' \<and>
     (\<Sum>s\<leftarrow>[1, 2]. cap_of m' s) = 100"
proof -
  have wf: "mgr_wf (kv_mgr_init 2 100)" by (simp add: mgr_wf_def kv_mgr_init_def)
  have kv: "kv_capacity (kv_mgr_init 2 100) = 100" "bytes_per_token (kv_mgr_init 2 100) = 2"
    by (simp_all add: kv_mgr_init_def)
  have "\<exists>m'. register_segment [(1, 30), (2, 20)] [1, 2] (kv_mgr_init 2 100) = Inr m'"
    by (simp add: register_segment_def register_one_def kv Let_def)
  then obtain m' where m': "register_segment [(1, 30), (2, 20)] [1, 2] (kv_mgr_init 2 100) = Inr m'" by blast
  have "(\<Sum>s\<leftarrow>[1, 2]. cap_of m' s) = of_int (kv_capacity (kv_mgr_init 2 100))"
    using segment_capacities [OF m' wf] by (simp add: kv dget_def)
  with m' show ?thesis by (simp add: kv)
qed

end
