(* ===== verification/Pipeline_Exec.thy ===== *)
theory Pipeline_Exec
  imports Plan_Build
begin

text \<open>
  The scheduler of a segment (\<open>AsyncPipelineExecutor\<close> and \<open>JoinTracker\<close> of
  \<open>kalypso/execution/pipeline_execution.py\<close>) as a program over its state: the stages with
  their queues, the KV manager, the world of the operators, the tasks in flight, the trackers
  of fanned-out parents and the statistics. The run of a task takes effect at the moment its
  future is collected. Which futures are done after a wait is an argument: any choice stands
  for a legal outcome of \<open>asyncio.wait\<close>, and every legal outcome is some choice. The log lines
  are left out.
\<close>

section \<open>State\<close>

record tracker =
  tr_parent :: sem_context
  tr_pending :: int
  tr_stage :: int
  tr_budget :: int

record sched =
  sc_stages :: "stage list"
  sc_mgr :: kv_mgr
  sc_world :: world
  sc_active :: "(nat \<times> task) list"
  sc_trackers :: "tracker list"
  sc_out :: "sem_context list"
  sc_stat :: "(int, int \<times> int) dict"
  sc_deferred_counts :: "(int, int) dict"
  sc_deferred_bytes :: "(int, int) dict"
  sc_retry_counts :: "(int, int) dict"
  sc_total_retries :: int
  sc_next_id :: nat

type_synonym 'a sch = "(sched, 'a) sprog"

definition mgr_op :: "(kv_mgr \<Rightarrow> ('a \<times> kv_mgr) res) \<Rightarrow> 'a sch" where
  "mgr_op f st = (case f (sc_mgr st) of Inl e \<Rightarrow> (Inl e, st) | Inr (a, m) \<Rightarrow> (Inr a, st\<lparr>sc_mgr := m\<rparr>))"

definition world_op :: "'a prog \<Rightarrow> 'a sch" where
  "world_op p st = (case p (sc_world st) of (r, w) \<Rightarrow> (r, st\<lparr>sc_world := w\<rparr>))"

definition upd_stage :: "nat \<Rightarrow> (stage \<Rightarrow> stage) \<Rightarrow> sched \<Rightarrow> sched" where
  "upd_stage i f st = st\<lparr>sc_stages := (sc_stages st)[i := f (sc_stages st ! i)]\<rparr>"

section \<open>Statistics\<close>

definition record_input :: "int \<Rightarrow> sched \<Rightarrow> sched" where
  "record_input sid st =
     (case map_of (sc_stat st) sid of
        Some (i, n) \<Rightarrow> st\<lparr>sc_stat := AList.update sid (i + 1, n) (sc_stat st)\<rparr>
      | None \<Rightarrow> st\<lparr>sc_stat := AList.update sid (1, 0) (sc_stat st)\<rparr>)"

definition record_output :: "int \<Rightarrow> nat \<Rightarrow> sched \<Rightarrow> sched" where
  "record_output sid n_out st =
     (let (i, n) = dget (sc_stat st) sid (0, 0)
      in st\<lparr>sc_stat := AList.update sid (i, n + int n_out) (sc_stat st)\<rparr>)"

definition record_retry :: "int \<Rightarrow> sched \<Rightarrow> sched" where
  "record_retry sid st =
     st\<lparr>sc_retry_counts := AList.update sid (dget (sc_retry_counts st) sid 0 + 1) (sc_retry_counts st),
        sc_total_retries := sc_total_retries st + 1\<rparr>"

definition add_deferred_parent :: "int \<Rightarrow> int \<Rightarrow> sched \<Rightarrow> sched" where
  "add_deferred_parent sid budget st =
     st\<lparr>sc_deferred_counts := AList.update sid (dget (sc_deferred_counts st) sid 0 + 1) (sc_deferred_counts st),
        sc_deferred_bytes := AList.update sid (dget (sc_deferred_bytes st) sid 0 + budget) (sc_deferred_bytes st)\<rparr>"

definition release_deferred_parent :: "int \<Rightarrow> int \<Rightarrow> sched \<Rightarrow> sched" where
  "release_deferred_parent sid budget st =
     st\<lparr>sc_deferred_counts := AList.update sid (max 0 (dget (sc_deferred_counts st) sid 0 - 1)) (sc_deferred_counts st),
        sc_deferred_bytes := AList.update sid (max 0 (dget (sc_deferred_bytes st) sid 0 - budget)) (sc_deferred_bytes st)\<rparr>"

section \<open>Trackers\<close>

definition upd_tracker :: "nat \<Rightarrow> (tracker \<Rightarrow> tracker) \<Rightarrow> sched \<Rightarrow> sched" where
  "upd_tracker k f st = st\<lparr>sc_trackers := (sc_trackers st)[k := f (sc_trackers st ! k)]\<rparr>"

definition release_stage_op :: "int \<Rightarrow> int \<Rightarrow> unit sch" where
  "release_stage_op sid budget = mgr_op (\<lambda>m. rbind (release_stage m sid budget) (\<lambda>m. Inr ((), m)))"

definition finalize_tracker :: "nat \<Rightarrow> unit sch" where
  "finalize_tracker k =
     pbind (pget (\<lambda>st. sc_trackers st ! k)) (\<lambda>tr.
     pbind (world_op (unpin_ctx (tr_parent tr))) (\<lambda>parent.
     pbind (pmodify (upd_tracker k (\<lambda>tr. tr\<lparr>tr_parent := parent\<rparr>))) (\<lambda>_.
     if tr_budget tr > 0
     then pbind (release_stage_op (tr_stage tr) (tr_budget tr)) (\<lambda>_.
          pmodify (release_deferred_parent (tr_stage tr) (tr_budget tr)))
     else pret ())))"

definition child_finished :: "nat \<Rightarrow> unit sch" where
  "child_finished k =
     pbind (pmodify (upd_tracker k (\<lambda>tr. tr\<lparr>tr_pending := tr_pending tr - 1\<rparr>))) (\<lambda>_.
     pbind (pget (\<lambda>st. tr_pending (sc_trackers st ! k))) (\<lambda>n.
     if n = 0 then finalize_tracker k else pret ()))"

primrec finalize_trackers :: "nat list \<Rightarrow> unit sch" where
  "finalize_trackers [] = pret ()"
| "finalize_trackers (k # ks) = pbind (child_finished k) (\<lambda>_. finalize_trackers ks)"

definition finalize_task :: "task \<Rightarrow> unit sch" where
  "finalize_task t = finalize_trackers (t_trackers t)"

section \<open>Rebalancing\<close>

definition QUANTUM :: rat where
  "QUANTUM = 1/20"

definition has_pending_work :: "sched \<Rightarrow> bool" where
  "has_pending_work st \<longleftrightarrow> (\<exists>sg \<in> set (sc_stages st). has_waiting_tasks sg)"

primrec drain_idle :: "stage list \<Rightarrow> kv_mgr \<Rightarrow> kv_mgr res" where
  "drain_idle [] m = Inr m"
| "drain_idle (sg # sgs) m =
     (if ready_count sg = 0 \<and> running_count sg = 0
      then rbind (return_stage_capacity m (sg_id sg) QUANTUM True) (\<lambda>(_, m). drain_idle sgs m)
      else drain_idle sgs m)"

text \<open>The pairs of a stage and its predecessor, in order.\<close>

definition stage_pairs :: "stage list \<Rightarrow> (stage \<times> stage) list" where
  "stage_pairs sgs = zip (tl sgs) sgs"

primrec grow_saturated :: "int \<Rightarrow> (stage \<times> stage) list \<Rightarrow> kv_mgr \<Rightarrow> kv_mgr res" where
  "grow_saturated last_id [] m = Inr m"
| "grow_saturated last_id (p # ps) m =
     (if is_saturated (fst p)
      then rbind (rebalance_stage_capacity m last_id (Some (sg_id (snd p))) QUANTUM) (\<lambda>(_, m).
             grow_saturated last_id ps m)
      else grow_saturated last_id ps m)"

primrec feed_starving :: "(stage \<times> stage) list \<Rightarrow> kv_mgr \<Rightarrow> kv_mgr res" where
  "feed_starving [] m = Inr m"
| "feed_starving (p # ps) m =
     (if is_starving (fst p) \<and> peek_task (snd p) \<noteq> None
      then rbind (rebalance_stage_capacity m (sg_id (snd p)) (Some (sg_id (fst p))) QUANTUM) (\<lambda>(_, m).
             feed_starving ps m)
      else feed_starving ps m)"

definition rebalance_stages :: "unit sch" where
  "rebalance_stages st =
     (let sgs = map (tune_thresholds (sc_mgr st)) (sc_stages st);
          st = st\<lparr>sc_stages := sgs\<rparr>
      in mgr_op (\<lambda>m. rbind (drain_idle sgs m) (\<lambda>m.
                     rbind (if sgs = [] then Inr m else grow_saturated (sg_id (last sgs)) (stage_pairs sgs) m) (\<lambda>m.
                     rbind (feed_starving (stage_pairs sgs) m) (\<lambda>m. Inr ((), m))))) st)"

section \<open>Launching\<close>

definition start_task :: "nat \<Rightarrow> task \<Rightarrow> sched \<Rightarrow> sched" where
  "start_task i t st =
     (upd_stage i (\<lambda>sg. snd (pop_task sg)) (record_input (sg_id (sc_stages st ! i)) st))
       \<lparr>sc_active := sc_active st @ [(i, t)]\<rparr>"

text \<open>\<open>stage.accept\<close>: the stage and the manager change together.\<close>

definition accept_op :: "env \<Rightarrow> nat \<Rightarrow> task \<Rightarrow> (int option \<times> task) sch" where
  "accept_op E i t st =
     (case accept E (w_estimator (sc_world st)) (sc_mgr st) (sc_stages st ! i) t of
        Inl e \<Rightarrow> (Inl e, st)
      | Inr (b, t, sg, m) \<Rightarrow> (Inr (b, t), (upd_stage i (\<lambda>_. sg) st)\<lparr>sc_mgr := m\<rparr>))"

definition force_accept_op :: "env \<Rightarrow> nat \<Rightarrow> task \<Rightarrow> task sch" where
  "force_accept_op E i t st =
     (case force_accept E (w_estimator (sc_world st)) (sc_mgr st) (sc_stages st ! i) t of
        Inl e \<Rightarrow> (Inl e, st)
      | Inr (b, t, sg, m) \<Rightarrow> (Inr t, (upd_stage i (\<lambda>_. sg) st)\<lparr>sc_mgr := m\<rparr>))"

primrec launch_queue :: "env \<Rightarrow> nat \<Rightarrow> task list \<Rightarrow> unit sch" where
  "launch_queue E i [] = pret ()"
| "launch_queue E i (t # ts) =
     pbind (accept_op E i t) (\<lambda>(b, t).
       case b of
         None \<Rightarrow> pret ()
       | Some _ \<Rightarrow> pbind (pmodify (start_task i t)) (\<lambda>_. launch_queue E i ts))"

definition launch_stage :: "env \<Rightarrow> nat \<Rightarrow> unit sch" where
  "launch_stage E i st = launch_queue E i (sg_waiting (sc_stages st ! i)) st"

primrec each_stage :: "(nat \<Rightarrow> unit sch) \<Rightarrow> nat list \<Rightarrow> unit sch" where
  "each_stage f [] = pret ()"
| "each_stage f (i # is) = pbind (f i) (\<lambda>_. each_stage f is)"

definition launch_ready_tasks :: "env \<Rightarrow> unit sch" where
  "launch_ready_tasks E st = each_stage (launch_stage E) [0..<length (sc_stages st)] st"

definition force_stage :: "env \<Rightarrow> nat \<Rightarrow> unit sch" where
  "force_stage E i st =
     (case peek_task (sc_stages st ! i) of
        None \<Rightarrow> (Inr (), st)
      | Some t \<Rightarrow>
          pbind (pmodify (\<lambda>st. upd_stage i (\<lambda>sg. snd (pop_task sg)) (record_input (sg_id (sc_stages st ! i)) st))) (\<lambda>_.
          pbind (force_accept_op E i t) (\<lambda>t.
          pmodify (\<lambda>st. st\<lparr>sc_active := sc_active st @ [(i, t)]\<rparr>))) st)"

definition force_launch_blocked_tasks :: "env \<Rightarrow> bool sch" where
  "force_launch_blocked_tasks E st =
     (case each_stage (force_stage E) [0..<length (sc_stages st)] st of
        (Inl e, st') \<Rightarrow> (Inl e, st')
      | (Inr _, st') \<Rightarrow> (Inr (sc_active st' \<noteq> sc_active st), st'))"

section \<open>Collecting a finished task\<close>

definition fresh_id :: "nat sch" where
  "fresh_id st = (Inr (sc_next_id st), st\<lparr>sc_next_id := Suc (sc_next_id st)\<rparr>)"

text \<open>\<open>stages[i].enqueue(Task(...))\<close>, or the end of the pipeline when \<open>i\<close> is past the last stage.\<close>

definition enqueue_at :: "nat \<Rightarrow> task \<Rightarrow> unit sch" where
  "enqueue_at i t = pmodify (upd_stage i (\<lambda>sg. enqueue sg t))"

definition pass_on :: "sem_context \<Rightarrow> nat \<Rightarrow> nat list \<Rightarrow> unit sch" where
  "pass_on ctx next_index trackers =
     pbind fresh_id (\<lambda>n.
     pbind (pget (\<lambda>st. length (sc_stages st))) (\<lambda>len.
     let t = new_task ctx next_index trackers n in
     if next_index \<ge> len
     then pbind (pmodify (\<lambda>st. st\<lparr>sc_out := sc_out st @ [ctx]\<rparr>)) (\<lambda>_. finalize_task t)
     else enqueue_at next_index t))"

primrec pass_all :: "sem_context list \<Rightarrow> nat \<Rightarrow> nat list \<Rightarrow> unit sch" where
  "pass_all [] next_index trackers = pret ()"
| "pass_all (c # cs) next_index trackers =
     pbind (pass_on c next_index trackers) (\<lambda>_. pass_all cs next_index trackers)"

definition finish_retry :: "nat \<Rightarrow> task \<Rightarrow> int \<Rightarrow> retry_task_result \<Rightarrow> unit sch" where
  "finish_retry i t budget rt =
     pbind fresh_id (\<lambda>n.
     pbind (pget (\<lambda>st. sc_stages st ! i)) (\<lambda>sg.
     pbind (enqueue_at (t_stage_index t)
       \<lparr>t_ctx = rt_ctx rt, t_stage_index = t_stage_index t, t_trackers = t_trackers t,
        t_op_index = rt_op_index rt, t_retry_priority = Some (- (sg_offset sg + int (rt_op_index rt))),
        t_reserved = (if rt_retain_budget rt then budget else 0), t_id = n\<rparr>) (\<lambda>_.
     pbind (pmodify (record_retry (sg_id sg))) (\<lambda>_.
     pbind (if rt_retain_budget rt then pret () else release_stage_op (sg_id sg) budget) (\<lambda>_.
     rebalance_stages)))))"

definition finish_dropped :: "nat \<Rightarrow> task \<Rightarrow> int \<Rightarrow> unit sch" where
  "finish_dropped i t budget =
     pbind (pget (\<lambda>st. sg_id (sc_stages st ! i))) (\<lambda>sid.
     pbind (release_stage_op sid budget) (\<lambda>_.
     pbind rebalance_stages (\<lambda>_. finalize_task t)))"

definition new_tracker :: "sem_context \<Rightarrow> nat \<Rightarrow> int \<Rightarrow> int \<Rightarrow> sched \<Rightarrow> sched" where
  "new_tracker ctx n sid budget st =
     (add_deferred_parent sid budget st)\<lparr>sc_trackers := sc_trackers st @
        [\<lparr>tr_parent = ctx, tr_pending = int n, tr_stage = sid, tr_budget = budget\<rparr>]\<rparr>"

definition finish_fanout :: "env \<Rightarrow> nat \<Rightarrow> task \<Rightarrow> int \<Rightarrow> phys_op \<Rightarrow> sem_context \<Rightarrow> unit sch" where
  "finish_fanout E i t budget op ctx =
     pbind (pget (\<lambda>st. sg_id (sc_stages st ! i))) (\<lambda>sid.
     pbind (world_op (fanout_call E op ctx)) (\<lambda>children.
     pbind (pmodify (record_output sid (length children))) (\<lambda>_.
     if children = []
     then pbind (world_op (unpin_ctx ctx)) (\<lambda>_.
          pbind (release_stage_op sid budget) (\<lambda>_.
          pbind rebalance_stages (\<lambda>_. finalize_task t)))
     else if ctx_pin ctx \<noteq> None
     then pbind (pget (\<lambda>st. length (sc_trackers st))) (\<lambda>k.
          pbind (pmodify (new_tracker ctx (length children) sid budget)) (\<lambda>_.
          pbind (pass_all children (Suc (t_stage_index t)) (t_trackers t @ [k])) (\<lambda>_.
          rebalance_stages)))
     else pbind (pass_all children (Suc (t_stage_index t)) (t_trackers t)) (\<lambda>_.
          pbind (release_stage_op sid budget) (\<lambda>_. rebalance_stages)))))"

definition finish_done :: "env \<Rightarrow> nat \<Rightarrow> task \<Rightarrow> int \<Rightarrow> sem_context \<Rightarrow> unit sch" where
  "finish_done E i t budget ctx =
     pbind (pget (\<lambda>st. sc_stages st ! i)) (\<lambda>sg.
     case sg_fanout sg of
       Some op \<Rightarrow> finish_fanout E i t budget op ctx
     | None \<Rightarrow>
         pbind (pmodify (record_output (sg_id sg) 1)) (\<lambda>_.
         pbind (pass_on ctx (Suc (t_stage_index t)) (t_trackers t)) (\<lambda>_.
         pbind (release_stage_op (sg_id sg) budget) (\<lambda>_. rebalance_stages))))"

text \<open>
  The future of the task raised: its budget is released before the exception goes on.
\<close>

definition finish_failed :: "nat \<Rightarrow> int \<Rightarrow> py_error \<Rightarrow> unit sch" where
  "finish_failed i budget e =
     pbind (pget (\<lambda>st. sg_id (sc_stages st ! i))) (\<lambda>sid.
     pbind (release_stage_op sid budget) (\<lambda>_. praise e))"

definition detach_op :: "nat \<Rightarrow> task \<Rightarrow> int sch" where
  "detach_op i t st =
     (let (b, sg) = detach_budget (sc_stages st ! i) t in (Inr b, upd_stage i (\<lambda>_. sg) st))"

definition collect :: "env \<Rightarrow> nat \<times> task \<Rightarrow> unit sch" where
  "collect E it st =
     (let i = fst it; t = snd it in
      pbind (pmodify (\<lambda>st. st\<lparr>sc_active := [p \<leftarrow> sc_active st. t_id (snd p) \<noteq> t_id t]\<rparr>)) (\<lambda>_.
      pbind (detach_op i t) (\<lambda>budget st.
        case run_task E (sc_stages st ! i) t (sc_world st) of
          (Inl e, w) \<Rightarrow> finish_failed i budget e (st\<lparr>sc_world := w\<rparr>)
        | (Inr (TaskRetry rt), w) \<Rightarrow> finish_retry i t budget rt (st\<lparr>sc_world := w\<rparr>)
        | (Inr TaskDropped, w) \<Rightarrow> finish_dropped i t budget (st\<lparr>sc_world := w\<rparr>)
        | (Inr (TaskDone ctx), w) \<Rightarrow> finish_done E i t budget ctx (st\<lparr>sc_world := w\<rparr>))) st)"

primrec collect_all :: "env \<Rightarrow> (nat \<times> task) list \<Rightarrow> unit sch" where
  "collect_all E [] = pret ()"
| "collect_all E (it # its) = pbind (collect E it) (\<lambda>_. collect_all E its)"

section \<open>The main loop\<close>

text \<open>The done futures chosen by \<open>pick\<close>: some of the active ones, and at least one.\<close>

definition done_tasks :: "(sched \<Rightarrow> nat list) \<Rightarrow> sched \<Rightarrow> (nat \<times> task) list" where
  "done_tasks pick st =
     (case concat (map (\<lambda>n. [p \<leftarrow> sc_active st. t_id (snd p) = n]) (remdups (pick st))) of
        [] \<Rightarrow> take 1 (sc_active st)
      | ps \<Rightarrow> ps)"

text \<open>One turn of the loop; the value says whether the loop goes on.\<close>

definition sched_round :: "env \<Rightarrow> (sched \<Rightarrow> nat list) \<Rightarrow> bool sch" where
  "sched_round E pick st =
     (if \<not> has_pending_work st \<and> sc_active st = [] then (Inr False, st)
      else pbind rebalance_stages (\<lambda>_.
           pbind (launch_ready_tasks E) (\<lambda>_ st.
             if sc_active st = []
             then if has_pending_work st
                  then pbind (force_launch_blocked_tasks E) (\<lambda>forced.
                         if forced then pret True else praise RuntimeError) st
                  else (Inr False, st)
             else pbind (collect_all E (done_tasks pick st)) (\<lambda>_. pret True) st)) st)"

text \<open>\<open>execute_tasks\<close> for at most \<open>fuel\<close> turns: \<open>None\<close> when they do not suffice.\<close>

primrec run_rounds :: "env \<Rightarrow> (sched \<Rightarrow> nat list) \<Rightarrow> nat \<Rightarrow> sched \<Rightarrow> (unit res \<times> sched) option" where
  "run_rounds E pick 0 st = None"
| "run_rounds E pick (Suc fuel) st =
     (case sched_round E pick st of
        (Inl e, st') \<Rightarrow> Some (Inl e, st')
      | (Inr False, st') \<Rightarrow> Some (Inr (), st')
      | (Inr True, st') \<Rightarrow> run_rounds E pick fuel st')"

definition sched_init :: "sem_context list \<Rightarrow> stage list \<Rightarrow> kv_mgr \<Rightarrow> world \<Rightarrow> nat \<Rightarrow> sched" where
  "sched_init ctxs stages m w n =
     (let sgs = map clear_tasks stages;
          ts = map (\<lambda>(j, c). new_task c 0 [] (n + j)) (enumerate 0 ctxs);
          sgs = (case sgs of [] \<Rightarrow> [] | sg # rest \<Rightarrow> fold (\<lambda>t sg. enqueue sg t) ts sg # rest);
          zeros = map (\<lambda>sg. (sg_id sg, 0)) stages
      in \<lparr>sc_stages = sgs, sc_mgr = m, sc_world = w, sc_active = [], sc_trackers = [], sc_out = [],
          sc_stat = [], sc_deferred_counts = zeros, sc_deferred_bytes = zeros,
          sc_retry_counts = zeros, sc_total_retries = 0,
          sc_next_id = (if stages = [] then n else n + length ctxs)\<rparr>)"

end
