(* ===== verification/Estimates.thy ===== *)
theory Estimates
  imports Stage
begin

text \<open>
  Budget estimates are not negative: the ratios the map estimator has recorded are not, as long
  as a chat template never yields fewer tokens for a longer conversation, and with such ratios
  neither is the number of tokens any operator asks for.
\<close>

section \<open>The recorded ratios\<close>

text \<open>What is relied on of the tokenizer: a message more is not fewer tokens.\<close>

definition templates_grow :: "tokenizer \<Rightarrow> bool" where
  "templates_grow tk \<longleftrightarrow> (\<forall>ms m. prompt_tokens tk ms \<le> prompt_tokens tk (ms @ [m]))"

definition est_ok :: "world \<Rightarrow> bool" where
  "est_ok w \<longleftrightarrow> estimator_wf (w_estimator w)"

lemma run_request_est [keeps_intros]: "keeps est_ok (run_request E k rr p mx b pr)"
  by (auto simp: keeps_def run_request_def pbind_apply call_engine_def Let_def est_ok_def
      register_pin_def split: sum.splits)

lemma execute_est [keeps_intros]: "keeps est_ok (execute E rr p mx b pr)"
  by (cases p) (simp_all add: chatcomplete_def complete_text_def run_request_est)

lemma unpin_est [keeps_intros]: "keeps est_ok (unpin rr i)" "keeps est_ok (unpin_ctx c)"
    "keeps est_ok (unpin_previous rr p r)"
proof -
  show u: "keeps est_ok (unpin rr i)" for rr i
    by (simp add: keeps_def unpin_def pbind_apply est_ok_def)
  show "keeps est_ok (unpin_ctx c)" "keeps est_ok (unpin_previous rr p r)"
    unfolding unpin_ctx_def unpin_previous_def by (intro keeps_intros u)+
qed

lemma handle_output_est [keeps_intros]: "keeps est_ok (handle_output op c out)"
  unfolding handle_output_def Let_def by (intro keeps_intros)

lemma other_est [keeps_intros]:
  "keeps est_ok (pmodify (\<lambda>w. w\<lparr>w_delegated := h w\<rparr>))"
  "keeps est_ok (pmodify (\<lambda>w. w\<lparr>w_icp := f w\<rparr>))"
  "keeps est_ok (pmodify (\<lambda>w. w\<lparr>w_cascade := g w\<rparr>))"
  "keeps est_ok (post_icp E p)"
  by (simp_all add: keeps_def est_ok_def post_icp_def split: icp_reply.splits)

lemma filter_est [keeps_intros]: "keeps est_ok (filter_run_single E op i mx pr ctx)"
  unfolding filter_run_single_def Let_def by (intro keeps_intros)

lemma icp_est [keeps_intros]: "keeps est_ok (icp_filter_call E op i low high mx pr ctx)"
  unfolding icp_filter_call_def icp_finish_def by (intro keeps_intros)

lemma cascade_est [keeps_intros]: "keeps est_ok (cascade_call E op cfg pr ctx)"
  unfolding cascade_call_def fallback_to_main_def cascade_finish_def Let_def by (intro keeps_intros)

lemma map_success_est:
  assumes "templates_grow (ev_tk E)"
  shows "keeps est_ok (map_success E op previous prompt (prompt_tokens (ev_tk E) prompt) out ctx)"
proof -
  let ?app = "prompt @ [\<lparr>role = ''assistant'', msg_type = None, content = cr_text out\<rparr>]"
  have "prompt_tokens (ev_tk E) prompt \<le> prompt_tokens (ev_tk E) ?app"
    using assms unfolding templates_grow_def by blast
  then have "keeps est_ok (pmodify (\<lambda>w. w\<lparr>w_estimator := estimator_update (w_estimator w) (position op)
      (prompt_tokens (ev_tk E) prompt) (prompt_tokens (ev_tk E) ?app - prompt_tokens (ev_tk E) prompt)\<rparr>))"
    by (intro keeps_modify) (simp add: est_ok_def estimator_wf_update)
  then show ?thesis
    unfolding map_success_def add_assistant_prompt_def map_finish_pin_def Let_def prod.case
    by (intro keeps_intros) (simp add: prompt_tokens_def)
qed

lemma map_est: "templates_grow (ev_tk E) \<Longrightarrow> keeps est_ok (map_call E op i pr ctx)"
  unfolding map_call_def map_run_single_def map_retry_def Let_def
  by (intro keeps_intros map_success_est)

lemma classify_est [keeps_intros]: "keeps est_ok (classify_call E op cl mx i pr ctx)"
  unfolding classify_call_def Let_def by (intro keeps_intros)

lemma retrieval_est [keeps_intros]: "keeps est_ok (query_retrieval E cfg l)"
  unfolding query_retrieval_def build_remote_index_def Let_def by (intro keeps_intros)

lemma search_est [keeps_intros]: "keeps est_ok (indexed_search_call E cfg ctx)"
  unfolding indexed_search_call_def Let_def by (intro keeps_intros)

lemma op_call_est: "templates_grow (ev_tk E) \<Longrightarrow> keeps est_ok (op_call E op pr ctx)"
  unfolding op_call_def by (cases "kind op") (auto intro: keeps_intros map_est)

lemma run_task_est: "templates_grow (ev_tk E) \<Longrightarrow> keeps est_ok (run_task E sg t)"
  unfolding run_task_def by (rule run_ops_keeps) (rule op_call_est)

lemma indexed_cartesian_est: "keeps est_ok (indexed_cartesian_call E cfg ctx)"
proof -
  have "est_ok w'" if "query_retrieval E cfg l w = (r, w')" "est_ok w" for l w r w'
    using keepsD [OF retrieval_est that(2), of E cfg l] that(1) by simp
  then show ?thesis
    unfolding keeps_def indexed_cartesian_call_def Let_def
    by (auto simp: pbind_apply split: prod.splits sum.splits py_error.splits)
qed

lemma fanout_est [keeps_intros]: "keeps est_ok (fanout_call E op ctx)"
  unfolding fanout_call_def by (cases "kind op") (auto intro: keeps_intros indexed_cartesian_est)

section \<open>Estimates\<close>

definition nonneg_estimates :: "env \<Rightarrow> stage \<Rightarrow> bool" where
  "nonneg_estimates E sg \<longleftrightarrow> (\<forall>est t b. estimator_wf est \<longrightarrow> t_op_index t < length (sg_operators sg) \<longrightarrow>
     estimate_budget E est sg t = Inr b \<longrightarrow> 0 \<le> b)"

text \<open>The limits on the answer an operator was given.\<close>

definition limits_ok :: "phys_op \<Rightarrow> bool" where
  "limits_ok op = (case kind op of SemFilter i mx \<Rightarrow> 0 \<le> mx | ICPFilter i low high mx \<Rightarrow> 0 \<le> mx
     | CascadeOperator cfg \<Rightarrow> 0 \<le> cc_max_tokens cfg | SemClassify classes mx i \<Rightarrow> 0 \<le> mx
     | SemAgg i mx c \<Rightarrow> 0 \<le> mx | _ \<Rightarrow> True)"

lemma prompt_tokens_nonneg [simp]: "0 \<le> prompt_tokens tk p"
  by (simp add: prompt_tokens_def)

lemma filter_estimate_nonneg:
  "0 \<le> mx \<Longrightarrow> filter_estimate_tokens E i mx ctx = Inr n \<Longrightarrow> 0 \<le> n"
  by (auto simp: filter_estimate_tokens_def py_simps)

lemma planned_nonneg:
  assumes "estimator_wf est" "0 \<le> n"
  shows "0 \<le> planned_max_tokens est op ctx n"
  unfolding planned_max_tokens_def
  using assms get_ratio_nonneg [OF assms(1), of "position op" 95]
  by (auto split: option.splits intro!: py_int_nonneg)

lemma estimate_nonneg:
  assumes "estimator_wf est" "limits_ok op" "estimate_tokens E est op ctx = Inr n"
  shows "0 \<le> n"
  using assms filter_estimate_nonneg planned_nonneg [OF assms(1)]
  by (auto simp: limits_ok_def estimate_tokens_def icp_estimate_tokens_def cascade_estimate_tokens_def
      map_estimate_tokens_def classify_estimate_tokens_def search_estimate_tokens_def py_simps Let_def
      split: op_kind.splits option.splits if_splits intro: add_nonneg_nonneg)

lemma max_tokens_nonneg:
  assumes "estimator_wf est" "\<forall>op \<in> set ops. limits_ok op \<and> behavior op = TUPLE_INDEPENDENT"
    "max_tokens_from E est ctx best ops = Inr n" "ops \<noteq> [] \<or> 0 \<le> best"
  shows "0 \<le> n"
  using assms(2-)
proof (induction ops arbitrary: best)
  case (Cons op ops)
  obtain x where x: "estimate_tokens E est op ctx = Inr x"
    "max_tokens_from E est ctx (if x > best then x else best) ops = Inr n"
    using Cons.prems(1,2) by (auto simp: behavior_def py_simps split: op_kind.splits)
  have "0 \<le> x" using estimate_nonneg [OF assms(1) _ x(1)] Cons.prems(1) by simp
  then show ?case using Cons.IH [OF _ x(2)] Cons.prems(1) by auto
qed simp

lemma nonneg_stage:
  assumes "\<forall>op \<in> set (sg_operators sg). limits_ok op \<and> behavior op = TUPLE_INDEPENDENT" "0 \<le> sg_bpt sg"
  shows "nonneg_estimates E sg"
  unfolding nonneg_estimates_def
proof (intro allI impI)
  fix est t b
  assume a: "estimator_wf est" "t_op_index t < length (sg_operators sg)" "estimate_budget E est sg t = Inr b"
  then obtain n where n: "max_tokens_from E est (t_ctx t) (-1) (drop (t_op_index t) (sg_operators sg)) = Inr n" "b = n * sg_bpt sg"
    by (auto simp: estimate_budget_def py_simps)
  have "\<forall>op \<in> set (drop (t_op_index t) (sg_operators sg)). limits_ok op \<and> behavior op = TUPLE_INDEPENDENT"
    using assms(1) by (auto dest: in_set_dropD)
  then have "0 \<le> n" using max_tokens_nonneg [OF a(1) _ n(1)] a(2) by simp
  then show "0 \<le> b" using n(2) assms(2) by simp
qed

end
