(* ===== verification/Pipeline_Ledger.thy ===== *)
theory Pipeline_Ledger
  imports Pipeline_Exec Estimates
begin

text \<open>
  The budget ledger of the scheduler: at every point of the main loop the bytes a stage has
  in use at the KV manager are exactly the budgets of its running tasks plus the budgets held
  back for fanned-out parents whose children are not all finished.
\<close>

section \<open>Triples\<close>

definition tri :: "('s \<Rightarrow> bool) \<Rightarrow> ('s, 'a) sprog \<Rightarrow> ('a \<Rightarrow> 's \<Rightarrow> bool) \<Rightarrow> bool" where
  "tri P p Q \<longleftrightarrow> (\<forall>st a st'. P st \<longrightarrow> p st = (Inr a, st') \<longrightarrow> Q a st')"

lemma triD: "tri P p Q \<Longrightarrow> P st \<Longrightarrow> p st = (Inr a, st') \<Longrightarrow> Q a st'"
  by (auto simp: tri_def)

lemma triI: "(\<And>st a st'. P st \<Longrightarrow> p st = (Inr a, st') \<Longrightarrow> Q a st') \<Longrightarrow> tri P p Q"
  by (auto simp: tri_def)

lemma tri_bind:
  assumes "tri P p R" "\<And>a. tri (R a) (f a) Q"
  shows "tri P (pbind p f) Q"
  using assms unfolding tri_def by (auto simp: py_simps)

lemma tri_ret: "(\<And>st. P st \<Longrightarrow> Q a st) \<Longrightarrow> tri P (pret a) Q"
  by (simp add: tri_def)

lemma tri_raise: "tri P (praise e) Q"
  by (simp add: tri_def)

lemma tri_modify: "(\<And>st. P st \<Longrightarrow> Q () (f st)) \<Longrightarrow> tri P (pmodify f) Q"
  by (auto simp: tri_def)

lemma tri_get: "tri P (pget g) (\<lambda>a st. P st \<and> a = g st)"
  by (simp add: tri_def)

lemma tri_get_bind: "(\<And>a. tri (\<lambda>st. P st \<and> g st = a) (f a) Q) \<Longrightarrow> tri P (pbind (pget g) f) Q"
  by (simp add: tri_def pbind_def)

lemma tri_pre: "tri P' p Q \<Longrightarrow> (\<And>st. P st \<Longrightarrow> P' st) \<Longrightarrow> tri P p Q"
  by (auto simp: tri_def)

lemma tri_post: "tri P p Q' \<Longrightarrow> (\<And>a st. Q' a st \<Longrightarrow> Q a st) \<Longrightarrow> tri P p Q"
  by (auto simp: tri_def)

lemma tri_if: "tri (\<lambda>st. P st \<and> b) p Q \<Longrightarrow> tri (\<lambda>st. P st \<and> \<not> b) q Q \<Longrightarrow> tri P (if b then p else q) Q"
  by (auto simp: tri_def)

lemma tri_prop: "(c \<Longrightarrow> tri P p Q) \<Longrightarrow> tri (\<lambda>st. P st \<and> c) p Q"
  by (auto simp: tri_def)

lemma tri_world: "(\<And>st w. P st \<Longrightarrow> P (st\<lparr>sc_world := w\<rparr>)) \<Longrightarrow> tri P (world_op p) (\<lambda>_. P)"
  by (auto simp: tri_def world_op_def split: prod.splits)

section \<open>Sums over lists of stages and trackers\<close>

lemma sum_list_update:
  fixes f :: "'a \<Rightarrow> int"
  assumes "i < length xs"
  shows "(\<Sum>x\<leftarrow>xs[i := y]. f x) = (\<Sum>x\<leftarrow>xs. f x) - f (xs ! i) + f y"
  using assms by (induction xs arbitrary: i) (auto split: nat.splits)

lemma mset_concat_update:
  assumes "i < length xs"
  shows "mset (concat (map g (xs[i := y]))) + mset (g (xs ! i)) = mset (concat (map g xs)) + mset (g y)"
  using assms by (induction xs arbitrary: i) (auto split: nat.splits simp: ac_simps)

lemma dsum_delete: "dwf d \<Longrightarrow> dsum (AList.delete k d) = dsum d - dget d k (0::int)"
proof (induction d)
  case (Cons p d)
  obtain a b where p: "p = (a, b)" by (cases p)
  show ?case
  proof (cases "a = k")
    case True
    with Cons.prems p have "k \<notin> set (dkeys d)" by (auto simp: dwf_def)
    then have "AList.delete k d = d" by (simp add: AList.delete_idem)
    with True p show ?thesis by (simp add: dget_def)
  next
    case False
    with Cons p show ?thesis by (auto simp: dwf_def dget_def)
  qed
qed (simp add: dget_def)

section \<open>The invariant\<close>

definition run_sum :: "stage \<Rightarrow> int" where
  "run_sum sg = dsum (sg_running sg)"

text \<open>What is accounted to stage id \<open>s\<close>: its running tasks and the parents it still holds back.\<close>

definition tracker_hold :: "int \<Rightarrow> tracker \<Rightarrow> int" where
  "tracker_hold s tr = (if tr_stage tr = s \<and> tr_pending tr > 0 then tr_budget tr else 0)"

definition held :: "sched \<Rightarrow> int \<Rightarrow> int" where
  "held st s = (\<Sum>sg\<leftarrow>sc_stages st. if sg_id sg = s then run_sum sg else 0) +
     (\<Sum>tr\<leftarrow>sc_trackers st. tracker_hold s tr)"

definition stage_ok :: "env \<Rightarrow> kv_mgr \<Rightarrow> stage \<Rightarrow> bool" where
  "stage_ok E m sg \<longleftrightarrow> registered m (sg_id sg) \<and> dwf (sg_running sg) \<and>
     (\<forall>b \<in> snd ` set (sg_running sg). 0 \<le> b) \<and> sg_operators sg \<noteq> [] \<and> nonneg_estimates E sg"

definition stages_ok :: "env \<Rightarrow> sched \<Rightarrow> bool" where
  "stages_ok E st \<longleftrightarrow> mgr_wf (sc_mgr st) \<and> distinct (map sg_id (sc_stages st)) \<and>
     (\<forall>sg \<in> set (sc_stages st). stage_ok E (sc_mgr st) sg)"

definition trackers_ok :: "sched \<Rightarrow> bool" where
  "trackers_ok st \<longleftrightarrow> (\<forall>tr \<in> set (sc_trackers st). 0 \<le> tr_budget tr \<and> tr_stage tr \<in> sg_id ` set (sc_stages st))"

text \<open>The tasks of the scheduler, waiting or in flight.\<close>

definition task_mset :: "sched \<Rightarrow> task multiset" where
  "task_mset st = mset (concat (map sg_waiting (sc_stages st))) + mset (map snd (sc_active st))"

definition task_ok :: "sched \<Rightarrow> nat \<Rightarrow> task \<Rightarrow> bool" where
  "task_ok st j t \<longleftrightarrow> j < length (sc_stages st) \<and> t_id t < sc_next_id st \<and> t_reserved t = 0 \<and>
     t_stage_index t = j \<and> t_op_index t < length (sg_operators (sc_stages st ! j)) \<and>
     (\<forall>k \<in> set (t_trackers t). k < length (sc_trackers st))"

definition tasks_ok :: "sched \<Rightarrow> bool" where
  "tasks_ok st \<longleftrightarrow> (\<forall>n. count (image_mset t_id (task_mset st)) n \<le> 1) \<and>
     (\<forall>j<length (sc_stages st). \<forall>t \<in> set (sg_waiting (sc_stages st ! j)). task_ok st j t) \<and>
     (\<forall>(j, t) \<in> set (sc_active st). task_ok st j t)"

definition running_ok :: "sched \<Rightarrow> bool" where
  "running_ok st \<longleftrightarrow> (\<forall>j<length (sc_stages st). \<forall>n \<in> set (dkeys (sg_running (sc_stages st ! j))).
     \<exists>t. (j, t) \<in> set (sc_active st) \<and> n = t_id t)"

text \<open>
  \<open>slack s\<close> is the amount of stage \<open>s\<close> that is detached from its task but not yet released.
\<close>

definition ledger :: "(int \<Rightarrow> int) \<Rightarrow> sched \<Rightarrow> bool" where
  "ledger slack st \<longleftrightarrow> (\<forall>s. used_of (sc_mgr st) s = held st s + slack s)"

text \<open>
  Every tracker that still holds a budget is carried by enough tasks to finish it; \<open>debt k\<close>
  counts the finishes of tracker \<open>k\<close> that are owed by a task taken out of the schedule.
\<close>

definition carried :: "nat \<Rightarrow> task multiset \<Rightarrow> int" where
  "carried k M = (\<Sum>t \<in># M. int (count_list (t_trackers t) k))"

definition covered :: "(nat \<Rightarrow> int) \<Rightarrow> sched \<Rightarrow> bool" where
  "covered debt st \<longleftrightarrow> (\<forall>k<length (sc_trackers st).
     tr_pending (sc_trackers st ! k) \<le> carried k (task_mset st) + debt k)"

text \<open>What no step of a run changes.\<close>

definition shape :: "sched \<Rightarrow> (int \<times> phys_op list \<times> phys_op option) list" where
  "shape st = map (\<lambda>sg. (sg_id sg, sg_operators sg, sg_fanout sg)) (sc_stages st)"

definition sched_inv :: "env \<Rightarrow> (int \<Rightarrow> int) \<Rightarrow> (nat \<Rightarrow> int) \<Rightarrow> sched \<Rightarrow> bool" where
  "sched_inv E slack debt st \<longleftrightarrow> (\<forall>s. 0 \<le> slack s) \<and> stages_ok E st \<and> trackers_ok st \<and> tasks_ok st \<and>
     running_ok st \<and> ledger slack st \<and> covered debt st"

text \<open>The invariant together with the frame of a program: tasks in flight, shape, trackers made so far.\<close>

definition inv_in ::
  "env \<Rightarrow> (nat \<times> task) list \<Rightarrow> (int \<times> phys_op list \<times> phys_op option) list \<Rightarrow> nat \<Rightarrow>
   (int \<Rightarrow> int) \<Rightarrow> (nat \<Rightarrow> int) \<Rightarrow> sched \<Rightarrow> bool" where
  "inv_in E A S N slack debt st \<longleftrightarrow> sched_inv E slack debt st \<and> sc_active st = A \<and> shape st = S \<and>
     N \<le> length (sc_trackers st)"

abbreviation settled :: "'a \<Rightarrow> int" where
  "settled \<equiv> (\<lambda>_. 0)"

text \<open>The fields the parts of the invariant look at.\<close>

lemma inv_parts_cong:
  assumes "sc_stages st' = sc_stages st" "sc_active st' = sc_active st"
  shows "running_ok st' = running_ok st" "shape st' = shape st" "task_mset st' = task_mset st"
    "sc_next_id st' = sc_next_id st \<Longrightarrow> length (sc_trackers st') = length (sc_trackers st) \<Longrightarrow>
       tasks_ok st' = tasks_ok st"
    "sc_trackers st' = sc_trackers st \<Longrightarrow> trackers_ok st' = trackers_ok st"
    "sc_trackers st' = sc_trackers st \<Longrightarrow> covered debt st' = covered debt st"
    "sc_trackers st' = sc_trackers st \<Longrightarrow> held st' = held st"
    "sc_mgr st' = sc_mgr st \<Longrightarrow> stages_ok E st' = stages_ok E st"
    "sc_trackers st' = sc_trackers st \<Longrightarrow> sc_mgr st' = sc_mgr st \<Longrightarrow> ledger slack st' = ledger slack st"
  using assms
  by (simp_all only: running_ok_def shape_def tasks_ok_def task_ok_def task_mset_def trackers_ok_def
      covered_def stages_ok_def ledger_def held_def fun_eq_iff simp_thms)

lemma sched_inv_cong:
  assumes "sc_stages st' = sc_stages st" "sc_active st' = sc_active st" "sc_trackers st' = sc_trackers st"
    "sc_mgr st' = sc_mgr st" "sc_next_id st' = sc_next_id st"
  shows "sched_inv E slack debt st' = sched_inv E slack debt st" "inv_in E A S N slack debt st' = inv_in E A S N slack debt st"
  using inv_parts_cong [OF assms(1,2)] assms by (simp_all add: sched_inv_def inv_in_def)

lemma sched_inv_frame [simp]:
  "inv_in E A S N sl D (st\<lparr>sc_world := w\<rparr>) = inv_in E A S N sl D st"
  "inv_in E A S N sl D (st\<lparr>sc_out := xs\<rparr>) = inv_in E A S N sl D st"
  "inv_in E A S N sl D (record_input i st) = inv_in E A S N sl D st"
  "inv_in E A S N sl D (record_output i n st) = inv_in E A S N sl D st"
  "inv_in E A S N sl D (record_retry i st) = inv_in E A S N sl D st"
  "inv_in E A S N sl D (release_deferred_parent i b st) = inv_in E A S N sl D st"
  "inv_in E A S N sl D (add_deferred_parent i b st) = inv_in E A S N sl D st"
  by (rule sched_inv_cong; simp add: record_input_def record_output_def record_retry_def
      release_deferred_parent_def add_deferred_parent_def split: option.splits prod.splits)+

lemma run_sum_nonneg: "stage_ok E m sg \<Longrightarrow> 0 \<le> run_sum sg"
  by (force simp: stage_ok_def run_sum_def dsum_def intro!: sum_list_nonneg)

lemma held_nonneg:
  assumes "stages_ok E st" "trackers_ok st"
  shows "0 \<le> held st s"
  using assms run_sum_nonneg unfolding held_def trackers_ok_def stages_ok_def tracker_hold_def
  by (intro add_nonneg_nonneg sum_list_nonneg) auto

lemma carried_simps [simp]:
  "carried k {#} = 0" "carried k (M + N) = carried k M + carried k N"
  "carried k (add_mset t M) = int (count_list (t_trackers t) k) + carried k M"
  by (simp_all add: carried_def)

lemma carried_nonneg: "0 \<le> carried k M"
  by (induction M) simp_all

lemma shape_length: "shape st = S \<Longrightarrow> length (sc_stages st) = length S"
  by (auto simp: shape_def)

lemma shape_ids: "shape st = S \<Longrightarrow> sg_id ` set (sc_stages st) = fst ` set S"
  by (auto simp: shape_def image_image)

lemma shape_nth:
  "shape st = S \<Longrightarrow> i < length S \<Longrightarrow> S ! i = (sg_id (sc_stages st ! i), sg_operators (sc_stages st ! i), sg_fanout (sc_stages st ! i))"
  by (auto simp: shape_def)

lemma task_ok_mono:
  assumes "task_ok st j t" "shape st' = shape st" "sc_next_id st \<le> sc_next_id st'"
    "length (sc_trackers st) \<le> length (sc_trackers st')"
  shows "task_ok st' j t"
proof -
  have "length (sc_stages st') = length (sc_stages st)"
    using shape_length [OF assms(2)] shape_length [of st] by simp
  moreover from this have "sg_operators (sc_stages st' ! j) = sg_operators (sc_stages st ! j)"
    if "j < length (sc_stages st)" using shape_nth [OF assms(2), of j] shape_nth [OF refl, of j st] that
    by (simp add: shape_def)
  ultimately show ?thesis using assms(1,3,4) by (fastforce simp: task_ok_def)
qed

lemma inv_in_weaken:
  "inv_in E A S N sl D st \<Longrightarrow> (\<And>k. D k \<le> D' k) \<Longrightarrow> N' \<le> N \<Longrightarrow> inv_in E A S N' sl D' st"
  by (fastforce simp: inv_in_def sched_inv_def covered_def intro: order_trans)

section \<open>Rebalancing keeps the accounts\<close>

definition same_use :: "kv_mgr \<Rightarrow> kv_mgr \<Rightarrow> bool" where
  "same_use m m' \<longleftrightarrow> mgr_wf m' \<and> stage_used m' = stage_used m \<and> stage_inflight m' = stage_inflight m \<and>
     (\<forall>s. registered m' s = registered m s) \<and> global_used m' = global_used m \<and>
     kv_capacity m' = kv_capacity m \<and> bytes_per_token m' = bytes_per_token m"

lemma same_use_refl: "mgr_wf m \<Longrightarrow> same_use m m"
  by (simp add: same_use_def)

lemma same_use_trans: "same_use a b \<Longrightarrow> same_use b c \<Longrightarrow> same_use a c"
  by (simp add: same_use_def)

lemma same_use_lends: "mgr_wf m \<Longrightarrow> lends m m' a b f \<Longrightarrow> same_use m m'"
  by (simp add: same_use_def lends_wf lends_frame [of m m' a b f] registered_def)

lemma return_same_use:
  assumes "mgr_wf m"
  shows "\<exists>b m'. return_stage_capacity m s q f = Inr (b, m') \<and> same_use m m'"
  using return_result [OF assms, of s q f] same_use_lends [OF assms] same_use_refl [OF assms] by blast

lemma rebalance_same_use:
  assumes "mgr_wf m"
  shows "\<exists>b m'. rebalance_stage_capacity m s h q = Inr (b, m') \<and> same_use m m'"
  using rebalance_result [OF assms, of s h q] same_use_lends [OF assms] same_use_refl [OF assms] by blast

lemma drain_same_use: "mgr_wf m \<Longrightarrow> \<exists>m'. drain_idle sgs m = Inr m' \<and> same_use m m'"
proof (induction sgs arbitrary: m)
  case (Cons sg sgs)
  obtain b m1 where 1: "return_stage_capacity m (sg_id sg) QUANTUM True = Inr (b, m1)" "same_use m m1"
    using return_same_use [OF Cons.prems] by blast
  then have "mgr_wf m1" by (simp add: same_use_def)
  with Cons.IH [of m1] Cons.IH [of m] Cons.prems 1 show ?case
    by (auto intro: same_use_trans)
qed (simp add: same_use_refl)

lemma grow_same_use: "mgr_wf m \<Longrightarrow> \<exists>m'. grow_saturated l ps m = Inr m' \<and> same_use m m'"
proof (induction ps arbitrary: m)
  case (Cons p ps)
  obtain b m1 where 1: "rebalance_stage_capacity m l (Some (sg_id (snd p))) QUANTUM = Inr (b, m1)" "same_use m m1"
    using rebalance_same_use [OF Cons.prems] by blast
  then have "mgr_wf m1" by (simp add: same_use_def)
  with Cons.IH [of m1] Cons.IH [of m] Cons.prems 1 show ?case by (auto intro: same_use_trans)
qed (simp add: same_use_refl)

lemma feed_same_use: "mgr_wf m \<Longrightarrow> \<exists>m'. feed_starving ps m = Inr m' \<and> same_use m m'"
proof (induction ps arbitrary: m)
  case (Cons p ps)
  obtain b m1 where 1: "rebalance_stage_capacity m (sg_id (snd p)) (Some (sg_id (fst p))) QUANTUM = Inr (b, m1)"
    "same_use m m1"
    using rebalance_same_use [OF Cons.prems] by blast
  then have "mgr_wf m1" by (simp add: same_use_def)
  with Cons.IH [of m1] Cons.IH [of m] Cons.prems 1 show ?case by (auto intro: same_use_trans)
qed (simp add: same_use_refl)

text \<open>Rebalancing never raises; it changes thresholds and capacities only.\<close>

lemma rebalance_stages_total:
  assumes "mgr_wf (sc_mgr st)"
  shows "\<exists>m'. rebalance_stages st =
     (Inr (), st\<lparr>sc_stages := map (tune_thresholds (sc_mgr st)) (sc_stages st), sc_mgr := m'\<rparr>) \<and>
     same_use (sc_mgr st) m'"
proof -
  let ?sgs = "map (tune_thresholds (sc_mgr st)) (sc_stages st)"
  obtain m1 where 1: "drain_idle ?sgs (sc_mgr st) = Inr m1" "same_use (sc_mgr st) m1"
    using drain_same_use [OF assms] by blast
  then have wf1: "mgr_wf m1" by (simp add: same_use_def)
  obtain m2 where 2: "(if ?sgs = [] then Inr m1 else grow_saturated (sg_id (last ?sgs)) (stage_pairs ?sgs) m1) = Inr m2"
    "same_use m1 m2"
    using grow_same_use [OF wf1] same_use_refl [OF wf1] by (cases "?sgs = []") auto
  then have wf2: "mgr_wf m2" by (simp add: same_use_def)
  obtain m3 where 3: "feed_starving (stage_pairs ?sgs) m2 = Inr m3" "same_use m2 m3"
    using feed_same_use [OF wf2] by blast
  have "rebalance_stages st = (Inr (), st\<lparr>sc_stages := ?sgs, sc_mgr := m3\<rparr>)"
    unfolding rebalance_stages_def mgr_op_def Let_def using 1(1) 2(1) 3(1) by simp
  with 1(2) 2(2) 3(2) show ?thesis by (blast intro: same_use_trans)
qed

lemma tune_frame [simp]:
  "sg_id (tune_thresholds m sg) = sg_id sg" "sg_running (tune_thresholds m sg) = sg_running sg"
  "sg_waiting (tune_thresholds m sg) = sg_waiting sg" "run_sum (tune_thresholds m sg) = run_sum sg"
  "sg_operators (tune_thresholds m sg) = sg_operators sg" "sg_fanout (tune_thresholds m sg) = sg_fanout sg"
  "sg_bpt (tune_thresholds m sg) = sg_bpt sg" "sg_offset (tune_thresholds m sg) = sg_offset sg"
  by (simp_all add: tune_thresholds_def Let_def run_sum_def)


lemma held_tune: "held (st\<lparr>sc_stages := map (tune_thresholds m) (sc_stages st), sc_mgr := m'\<rparr>) s = held st s"
  by (simp add: held_def comp_def cong: if_cong)

lemma nonneg_tune [simp]: "nonneg_estimates E (tune_thresholds m sg) = nonneg_estimates E sg"
  by (simp add: nonneg_estimates_def estimate_budget_def)

lemma inv_rebalance:
  assumes inv: "inv_in E A S N sl D st" and u: "same_use (sc_mgr st) m'"
  shows "inv_in E A S N sl D (st\<lparr>sc_stages := map (tune_thresholds (sc_mgr st)) (sc_stages st), sc_mgr := m'\<rparr>)"
    (is "inv_in E A S N sl D ?st")
proof -
  from inv have i: "sched_inv E sl D st" and fr: "sc_active st = A" "shape st = S" "N \<le> length (sc_trackers st)"
    by (simp_all add: inv_in_def)
  have M: "task_mset ?st = task_mset st" by (simp add: task_mset_def comp_def)
  have sh: "shape ?st = shape st" by (simp add: shape_def comp_def)
  have ok: "task_ok st j t \<Longrightarrow> task_ok ?st j t" for j t by (erule task_ok_mono [OF _ sh]) simp_all
  have "stages_ok E ?st"
    using i u by (simp add: sched_inv_def stages_ok_def stage_ok_def same_use_def comp_def)
  moreover have "trackers_ok ?st" using i by (simp add: sched_inv_def trackers_ok_def image_image)
  moreover have "tasks_ok ?st"
    using i ok unfolding sched_inv_def tasks_ok_def M by auto
  moreover have "running_ok ?st" using i by (simp add: sched_inv_def running_ok_def)
  moreover have "ledger sl ?st"
    using i u by (simp add: sched_inv_def ledger_def held_tune same_use_def image_image)
  moreover have "covered D ?st" using i by (simp add: sched_inv_def covered_def M)
  moreover have "shape ?st = S" using fr sh by simp
  ultimately show ?thesis using i fr by (simp add: inv_in_def sched_inv_def)
qed

lemma tri_rebalance: "tri (inv_in E A S N sl D) rebalance_stages (\<lambda>_. inv_in E A S N sl D)"
  unfolding tri_def
proof (intro allI impI)
  fix st st' and a :: unit assume inv: "inv_in E A S N sl D st" and r: "rebalance_stages st = (Inr a, st')"
  have "mgr_wf (sc_mgr st)" using inv by (simp add: inv_in_def sched_inv_def stages_ok_def)
  then show "inv_in E A S N sl D st'"
    using rebalance_stages_total [of st] r inv_rebalance [OF inv] by auto
qed

section \<open>Releasing\<close>

lemma mgr_frame [simp]:
  "running_ok (st\<lparr>sc_mgr := m\<rparr>) = running_ok st" "shape (st\<lparr>sc_mgr := m\<rparr>) = shape st"
  "task_mset (st\<lparr>sc_mgr := m\<rparr>) = task_mset st" "tasks_ok (st\<lparr>sc_mgr := m\<rparr>) = tasks_ok st"
  "trackers_ok (st\<lparr>sc_mgr := m\<rparr>) = trackers_ok st" "covered D (st\<lparr>sc_mgr := m\<rparr>) = covered D st"
  "held (st\<lparr>sc_mgr := m\<rparr>) = held st"
  by (rule inv_parts_cong; simp)+

lemma release_op_result:
  assumes inv: "inv_in E A S N sl D st" and sid: "sid \<in> fst ` set S" and b: "0 \<le> b" "b \<le> sl sid"
  shows "\<exists>m'. release_stage_op sid b st = (Inr (), st\<lparr>sc_mgr := m'\<rparr>) \<and>
    inv_in E A S N (sl(sid := sl sid - b)) D (st\<lparr>sc_mgr := m'\<rparr>)"
proof -
  let ?m = "sc_mgr st"
  from inv have i: "sched_inv E sl D st" and fr: "sc_active st = A" "shape st = S" "N \<le> length (sc_trackers st)"
    by (simp_all add: inv_in_def)
  have sid': "sid \<in> sg_id ` set (sc_stages st)" using sid shape_ids [OF fr(2)] by simp
  have wf: "mgr_wf ?m" and reg: "registered ?m sid"
    using i sid' by (auto simp: sched_inv_def stages_ok_def stage_ok_def)
  have used: "used_of ?m sid = held st sid + sl sid"
    using i sid' by (auto simp: sched_inv_def ledger_def)
  have h: "0 \<le> held st sid" using i by (auto simp: sched_inv_def intro: held_nonneg)
  let ?m' = "?m\<lparr>stage_used := AList.update sid (max 0 (used_of ?m sid - b)) (stage_used ?m),
            stage_inflight := AList.update sid (max 0 (stage_inflight_of ?m sid - 1)) (stage_inflight ?m)\<rparr>"
  have rel: "release_stage ?m sid b = Inr ?m'" by (rule release_stage_ok [OF wf reg])
  have res: "release_stage_op sid b st = (Inr (), st\<lparr>sc_mgr := ?m'\<rparr>)"
    unfolding release_stage_op_def mgr_op_def rel by simp
  have "stages_ok E (st\<lparr>sc_mgr := ?m'\<rparr>)"
    using i wf_account_update [OF wf reg] by (simp add: sched_inv_def stages_ok_def stage_ok_def registered_def)
  moreover have "ledger (sl(sid := sl sid - b)) (st\<lparr>sc_mgr := ?m'\<rparr>)"
    using i used h b by (simp add: sched_inv_def ledger_def)
  ultimately have "inv_in E A S N (sl(sid := sl sid - b)) D (st\<lparr>sc_mgr := ?m'\<rparr>)"
    using i fr b unfolding sched_inv_def inv_in_def mgr_frame by simp
  with res show ?thesis by blast
qed

lemma tri_release:
  assumes "sid \<in> fst ` set S" "0 \<le> b" "b \<le> sl sid"
  shows "tri (inv_in E A S N sl D) (release_stage_op sid b) (\<lambda>_. inv_in E A S N (sl(sid := sl sid - b)) D)"
  unfolding tri_def using release_op_result [where sid = sid and S = S and b = b and sl = sl] assms
  by fastforce

section \<open>Trackers\<close>

lemma held_tracker:
  assumes "k < length (sc_trackers st)"
  shows "held (upd_tracker k f st) s =
    held st s - tracker_hold s (sc_trackers st ! k) + tracker_hold s (f (sc_trackers st ! k))"
  using assms by (simp add: held_def upd_tracker_def sum_list_update)

lemma upd_tracker_frame [simp]:
  "sc_stages (upd_tracker k f st) = sc_stages st" "sc_mgr (upd_tracker k f st) = sc_mgr st"
  "sc_active (upd_tracker k f st) = sc_active st" "sc_next_id (upd_tracker k f st) = sc_next_id st"
  "length (sc_trackers (upd_tracker k f st)) = length (sc_trackers st)"
  "sc_world (upd_tracker k f st) = sc_world st" "sc_out (upd_tracker k f st) = sc_out st"
  by (simp_all add: upd_tracker_def)

lemma upd_tracker_nth:
  "k < length (sc_trackers st) \<Longrightarrow>
   sc_trackers (upd_tracker k f st) ! j = (if j = k then f (sc_trackers st ! k) else sc_trackers st ! j)"
  by (simp add: upd_tracker_def)

lemma upd_tracker_parts [simp]:
  "running_ok (upd_tracker k f st) = running_ok st" "shape (upd_tracker k f st) = shape st"
  "task_mset (upd_tracker k f st) = task_mset st" "tasks_ok (upd_tracker k f st) = tasks_ok st"
  "stages_ok E (upd_tracker k f st) = stages_ok E st"
  by (rule inv_parts_cong; simp)+

text \<open>A tracker keeps its stage and budget; the part that leaves the ledger becomes slack.\<close>

lemma inv_tracker:
  fixes k f
  assumes inv: "inv_in E A S N sl D st" and k: "k < length (sc_trackers st)"
    and f: "tr_stage (f (sc_trackers st ! k)) = tr_stage (sc_trackers st ! k)"
      "tr_budget (f (sc_trackers st ! k)) = tr_budget (sc_trackers st ! k)"
    and d: "0 \<le> d" "tr_pending (f (sc_trackers st ! k)) = tr_pending (sc_trackers st ! k) - d"
  defines "tr \<equiv> sc_trackers st ! k"
  defines "freed \<equiv> if tr_pending tr > 0 \<and> tr_pending tr \<le> d then tr_budget tr else 0"
  shows "inv_in E A S N (sl(tr_stage tr := sl (tr_stage tr) + freed)) (D(k := D k - d)) (upd_tracker k f st)"
proof -
  let ?st = "upd_tracker k f st"
  from inv have i: "sched_inv E sl D st" and fr: "sc_active st = A" "shape st = S" "N \<le> length (sc_trackers st)"
    by (simp_all add: inv_in_def)
  have tr: "0 \<le> tr_budget tr" "tr \<in> set (sc_trackers st)"
    using i k by (auto simp: sched_inv_def trackers_ok_def tr_def)
  have t: "trackers_ok ?st"
    using i k f unfolding sched_inv_def trackers_ok_def upd_tracker_def
    by (auto dest!: set_update_subset_insert [THEN subsetD])
  have "tracker_hold s (f tr) = tracker_hold s tr - (if s = tr_stage tr then freed else 0)" for s
    using f d by (auto simp: tracker_hold_def freed_def tr_def)
  then have "ledger (sl(tr_stage tr := sl (tr_stage tr) + freed)) ?st"
    using i unfolding sched_inv_def ledger_def held_tracker [OF k] tr_def [symmetric] by simp
  moreover have "0 \<le> freed" using tr by (simp add: freed_def)
  moreover have "covered (D(k := D k - d)) ?st"
    using i d unfolding sched_inv_def covered_def by (simp add: upd_tracker_nth [OF k])
  ultimately show ?thesis
    using i fr t unfolding sched_inv_def inv_in_def upd_tracker_parts by simp
qed

lemma slack_zero: "sl(x := sl x + 0) = (sl :: 'a \<Rightarrow> int)" "sl(x := sl x - 0) = (sl :: 'a \<Rightarrow> int)"
  "sl(x := sl x + b - b) = (sl :: 'a \<Rightarrow> int)"
  by (auto simp: fun_eq_iff)

lemma inv_parent:
  assumes "inv_in E A S N sl D st" "k < length (sc_trackers st)"
  shows "inv_in E A S N sl D (upd_tracker k (\<lambda>tr. tr\<lparr>tr_parent := p\<rparr>) st)"
  using inv_tracker [OF assms, of "\<lambda>tr. tr\<lparr>tr_parent := p\<rparr>" 0] by (simp add: slack_zero split: if_splits)

end
