(* ===== verification/Pipeline_Tasks.thy ===== *)
theory Pipeline_Tasks
  imports Pipeline_Ledger
begin

text \<open>
  The steps of the scheduler on tasks keep the ledger: a finished child, a task that starts,
  a task that is taken out, a task that is queued, a parent that is held back.
\<close>

section \<open>A finished child\<close>

lemma inv_child:
  assumes inv: "inv_in E A S N sl D st" and k: "k < length (sc_trackers st)"
    and c: "child_finished k st = (Inr a, st')"
  shows "inv_in E A S N sl (D(k := D k - 1)) st'"
proof -
  let ?tr = "sc_trackers st ! k" and ?D = "D(k := D k - 1)"
  let ?st1 = "upd_tracker k (\<lambda>tr. tr\<lparr>tr_pending := tr_pending tr - 1\<rparr>) st"
  have tr1: "sc_trackers ?st1 ! k = ?tr\<lparr>tr_pending := tr_pending ?tr - 1\<rparr>"
    using k by (simp add: upd_tracker_def)
  note inv1 = inv_tracker [OF inv k, of "\<lambda>tr. tr\<lparr>tr_pending := tr_pending tr - 1\<rparr>" 1, simplified]
  show ?thesis
  proof (cases "tr_pending ?tr = 1")
    case False
    with c tr1 have "st' = ?st1" by (simp add: child_finished_def)
    with inv1 False show ?thesis by (simp add: slack_zero split: if_splits)
  next
    case True
    let ?p = "tr_parent ?tr" and ?sl = "sl(tr_stage ?tr := sl (tr_stage ?tr) + tr_budget ?tr)"
    obtain w where w: "unpin_ctx ?p (sc_world ?st1) = (Inr (set_pin None ?p), w)"
      using unpin_ctx_total by blast
    let ?st2 = "upd_tracker k (\<lambda>tr. tr\<lparr>tr_parent := set_pin None ?p\<rparr>) (?st1\<lparr>sc_world := w\<rparr>)"
    have fin: "finalize_tracker k ?st1 = (if tr_budget ?tr > 0
        then pbind (release_stage_op (tr_stage ?tr) (tr_budget ?tr)) (\<lambda>_.
          pmodify (release_deferred_parent (tr_stage ?tr) (tr_budget ?tr))) ?st2
        else (Inr (), ?st2))"
      using w by (simp add: finalize_tracker_def tr1 world_op_def)
    have i1: "inv_in E A S N ?sl ?D ?st1" using inv1 True by simp
    have inv2: "inv_in E A S N ?sl ?D ?st2"
      by (rule inv_parent) (simp_all only: sched_inv_frame i1, simp add: k)
    have c2: "finalize_tracker k ?st1 = (Inr a, st')"
      using c True tr1 by (simp add: child_finished_def)
    have ids: "tr_stage ?tr \<in> fst ` set S" and b: "0 \<le> tr_budget ?tr" and s0: "0 \<le> sl (tr_stage ?tr)"
      using inv k shape_ids [of st S] by (auto simp: inv_in_def sched_inv_def trackers_ok_def)
    show ?thesis
    proof (cases "tr_budget ?tr > 0")
      case False
      with b have "tr_budget ?tr = 0" by simp
      with c2 fin inv2 show ?thesis by (simp add: slack_zero)
    next
      case pos: True
      obtain m' where r: "release_stage_op (tr_stage ?tr) (tr_budget ?tr) ?st2 = (Inr (), ?st2\<lparr>sc_mgr := m'\<rparr>)"
        and i: "inv_in E A S N (?sl(tr_stage ?tr := ?sl (tr_stage ?tr) - tr_budget ?tr)) ?D (?st2\<lparr>sc_mgr := m'\<rparr>)"
        using release_op_result [OF inv2 ids b] s0 by auto
      have "st' = release_deferred_parent (tr_stage ?tr) (tr_budget ?tr) (?st2\<lparr>sc_mgr := m'\<rparr>)"
        using c2 pos unfolding fin by (simp add: r)
      with i show ?thesis by (simp add: slack_zero)
    qed
  qed
qed

lemma tri_child:
  assumes "k < N"
  shows "tri (inv_in E A S N sl D) (child_finished k) (\<lambda>_. inv_in E A S N sl (D(k := D k - 1)))"
proof (rule triI)
  fix st a st' assume inv: "inv_in E A S N sl D st" and c: "child_finished k st = (Inr a, st')"
  from inv assms have "k < length (sc_trackers st)" by (simp add: inv_in_def)
  from inv_child [OF inv this c] show "inv_in E A S N sl (D(k := D k - 1)) st'" .
qed

definition settle :: "nat list \<Rightarrow> (nat \<Rightarrow> int) \<Rightarrow> nat \<Rightarrow> int" where
  "settle ks D k = D k - int (count_list ks k)"

lemma tri_finalize:
  assumes "\<forall>k \<in> set ks. k < N"
  shows "tri (inv_in E A S N sl D) (finalize_trackers ks) (\<lambda>_. inv_in E A S N sl (settle ks D))"
  using assms
proof (induction ks arbitrary: D)
  case Nil
  have "settle [] D = D" by (simp add: settle_def fun_eq_iff)
  then show ?case by (simp add: tri_def)
next
  case (Cons k ks)
  have eq: "settle ks (D(k := D k - 1)) = settle (k # ks) D"
    by (simp add: settle_def fun_eq_iff)
  have ih: "tri (inv_in E A S N sl (D(k := D k - 1))) (finalize_trackers ks)
      (\<lambda>_. inv_in E A S N sl (settle ks (D(k := D k - 1))))"
    by (rule Cons.IH) (use Cons.prems in simp)
  from Cons.prems have k: "k < N" by simp
  show ?case
    unfolding finalize_trackers.simps eq [symmetric] by (rule tri_bind [OF tri_child [OF k] ih])
qed

section \<open>Queueing a task\<close>

lemma map_update_same:
  assumes "i < length xs" "f y = f (xs ! i)"
  shows "map f (xs[i := y]) = map f xs"
proof -
  have "map f (xs[i := y]) = (map f xs)[i := map f xs ! i]" using assms by (simp add: map_update)
  then show ?thesis by (simp only: list_update_id)
qed

lemma image_update_same: "i < length xs \<Longrightarrow> f y = f (xs ! i) \<Longrightarrow> f ` set (xs[i := y]) = f ` set xs"
  using arg_cong [OF map_update_same, of i xs f y set] by simp

lemma mset_update_stage:
  assumes "i < length sgs"
  shows "mset (concat (map sg_waiting (sgs[i := sg]))) + mset (sg_waiting (sgs ! i)) =
    mset (concat (map sg_waiting sgs)) + mset (sg_waiting sg)"
  using assms by (rule mset_concat_update)

lemma held_stages:
  assumes "i < length (sc_stages st)" "sg_id sg = sg_id (sc_stages st ! i)"
  shows "held (st\<lparr>sc_stages := (sc_stages st)[i := sg]\<rparr>) s =
    held st s + (if s = sg_id sg then run_sum sg - run_sum (sc_stages st ! i) else 0)"
  using assms by (simp add: held_def sum_list_update)

lemma nonneg_estimates_cong:
  "sg_operators sg' = sg_operators sg \<Longrightarrow> sg_bpt sg' = sg_bpt sg \<Longrightarrow>
     nonneg_estimates E sg' = nonneg_estimates E sg"
  by (simp add: nonneg_estimates_def estimate_budget_def)

lemma running_okD:
  "running_ok st \<Longrightarrow> j < length (sc_stages st) \<Longrightarrow> n \<in> set (dkeys (sg_running (sc_stages st ! j))) \<Longrightarrow>
     \<exists>t. (j, t) \<in> set (sc_active st) \<and> n = t_id t"
  unfolding running_ok_def by blast

text \<open>A step that changes one stage, the tasks in flight and the accounts of that stage.\<close>

lemma inv_update:
  fixes i st sg' A' m' n' sl'
  defines "st' \<equiv> st\<lparr>sc_stages := (sc_stages st)[i := sg'], sc_active := A', sc_mgr := m', sc_next_id := n'\<rparr>"
  defines "sg \<equiv> sc_stages st ! i"
  assumes inv: "inv_in E A S N sl D st" and i: "i < length (sc_stages st)"
    and same: "sg_id sg' = sg_id sg" "sg_operators sg' = sg_operators sg" "sg_fanout sg' = sg_fanout sg"
      "sg_bpt sg' = sg_bpt sg"
    and run: "dwf (sg_running sg')" "\<forall>b \<in> snd ` set (sg_running sg'). 0 \<le> b"
      "\<forall>n \<in> set (dkeys (sg_running sg')). \<exists>t. (i, t) \<in> set A' \<and> n = t_id t"
      "\<And>j t. j \<noteq> i \<Longrightarrow> (j, t) \<in> set A \<Longrightarrow> (j, t) \<in> set A'"
    and mgr: "mgr_wf m'" "\<And>s. registered m' s = registered (sc_mgr st) s"
      "\<And>s. used_of m' s = used_of (sc_mgr st) s +
         (if s = sg_id sg then run_sum sg' - run_sum sg else 0) + (sl' s - sl s)"
      "\<And>s. 0 \<le> sl' s"
    and ids: "\<And>n. count (image_mset t_id (task_mset st')) n \<le> 1" "sc_next_id st \<le> n'"
      "\<forall>t \<in> set (sg_waiting sg'). task_ok st' i t" "\<forall>(j, t) \<in> set A'. task_ok st' j t"
    and cov: "\<And>k. carried k (task_mset st) + D k \<le> carried k (task_mset st') + D' k"
  shows "inv_in E A' S N sl' D' st'"
proof -
  from inv have v: "sched_inv E sl D st" and fr: "sc_active st = A" "shape st = S" "N \<le> length (sc_trackers st)"
    by (simp_all add: inv_in_def)
  have sh: "shape st' = shape st"
    unfolding shape_def st'_def using i same by (simp add: map_update_same sg_def)
  have idset: "sg_id ` set ((sc_stages st)[i := sg']) = sg_id ` set (sc_stages st)"
    using i same by (simp add: image_update_same sg_def)
  have old: "task_ok st j t \<Longrightarrow> task_ok st' j t" for j t
    by (erule task_ok_mono [OF _ sh]) (use ids(2) in \<open>simp_all add: st'_def\<close>)
  have "stage_ok E (sc_mgr st) sg" using v i by (simp add: sched_inv_def stages_ok_def sg_def)
  then have "stage_ok E m' sg'"
    using same run(1,2) mgr(2) nonneg_estimates_cong [OF same(2,4)] by (simp add: stage_ok_def)
  moreover have "stage_ok E m' x" if "x \<in> set (sc_stages st)" for x
    using v that mgr(2) by (simp add: sched_inv_def stages_ok_def stage_ok_def)
  ultimately have "\<forall>x \<in> set ((sc_stages st)[i := sg']). stage_ok E m' x"
    using set_update_subset_insert [of "sc_stages st" i sg'] by blast
  then have stg: "stages_ok E st'"
    using v mgr(1) i same by (simp add: stages_ok_def st'_def sched_inv_def map_update_same sg_def)
  have trk: "trackers_ok st'" using v idset by (simp add: sched_inv_def trackers_ok_def st'_def)
  have "task_ok st' j t" if "j < length (sc_stages st')" "t \<in> set (sg_waiting (sc_stages st' ! j))" for j t
  proof (cases "j = i")
    case True
    with that(2) i ids(3) show ?thesis by (simp add: st'_def)
  next
    case False
    with that have "task_ok st j t" using v by (simp add: st'_def sched_inv_def tasks_ok_def)
    then show ?thesis by (rule old)
  qed
  moreover have "sc_active st' = A'" by (simp add: st'_def)
  ultimately have tsk: "tasks_ok st'" using ids(1,4) by (simp add: tasks_ok_def)
  have rn: "running_ok st'"
    unfolding running_ok_def
  proof (intro allI impI ballI)
    fix j n assume j: "j < length (sc_stages st')" and n: "n \<in> set (dkeys (sg_running (sc_stages st' ! j)))"
    show "\<exists>t. (j, t) \<in> set (sc_active st') \<and> n = t_id t"
    proof (cases "j = i")
      case True
      with n i run(3) show ?thesis by (auto simp: st'_def)
    next
      case False
      with n j v fr(1) obtain t where "(j, t) \<in> set A" "n = t_id t"
        using running_okD [of st j n] by (auto simp: st'_def sched_inv_def)
      with run(4) False show ?thesis by (auto simp: st'_def)
    qed
  qed
  have held': "held st' s = held st s + (if s = sg_id sg then run_sum sg' - run_sum sg else 0)" for s
    using held_stages [OF i, of sg' s] same(1) by (simp add: held_def st'_def sg_def)
  have "used_of m' s = held st' s + sl' s" for s
  proof -
    have "used_of (sc_mgr st) s = held st s + sl s"
      using v unfolding sched_inv_def ledger_def by blast
    then show ?thesis unfolding held' mgr(3) by simp
  qed
  then have "ledger sl' st'"
    unfolding ledger_def by (simp add: st'_def)
  moreover have "covered D' st'"
    unfolding covered_def
  proof (intro allI impI)
    fix k assume "k < length (sc_trackers st')"
    then have "tr_pending (sc_trackers st' ! k) \<le> carried k (task_mset st) + D k"
      using v by (simp add: sched_inv_def covered_def st'_def)
    with cov [of k] show "tr_pending (sc_trackers st' ! k) \<le> carried k (task_mset st') + D' k" by linarith
  qed
  ultimately show ?thesis
    using stg trk tsk rn mgr(4) sh fr by (simp add: inv_in_def sched_inv_def) (simp add: st'_def)
qed

section \<open>Task identities\<close>

lemma count_fresh: "(\<And>t. t \<in># M \<Longrightarrow> f t < (n::nat)) \<Longrightarrow> count (image_mset f M) n = 0"
  by (auto simp: not_in_iff [symmetric])

lemma count_image_pos: "t \<in># M \<Longrightarrow> 1 \<le> count (image_mset f M) (f t)"
  by (metis count_greater_eq_one_iff image_eqI set_image_mset)

lemma remove_unique:
  assumes "x \<in> set xs" "count (image_mset f (mset xs)) (f x) \<le> 1"
  shows "mset xs = add_mset x (mset [y \<leftarrow> xs. f y \<noteq> f x])"
  using assms
proof (induction xs)
  case (Cons a xs)
  show ?case
  proof (cases "f a = f x")
    case True
    with Cons.prems(2) have c: "count (image_mset f (mset xs)) (f x) = 0" by simp
    have ne: "f y \<noteq> f x" if "y \<in> set xs" for y
      using c count_image_pos [of y "mset xs" f] that by fastforce
    with Cons.prems(1) have "a = x" by auto
    moreover have "[y \<leftarrow> xs. f y \<noteq> f x] = xs" using ne by (simp add: filter_id_conv)
    ultimately show ?thesis using True by simp
  next
    case False
    with Cons show ?thesis by auto
  qed
qed simp

lemma task_mset_ok:
  assumes "tasks_ok st" "t \<in># task_mset st"
  shows "\<exists>j. task_ok st j t"
  using assms by (fastforce simp: tasks_ok_def task_mset_def in_set_conv_nth)

lemma inv_ids_below: "inv_in E A S N sl D st \<Longrightarrow> t \<in># task_mset st \<Longrightarrow> t_id t < sc_next_id st"
  using task_mset_ok [of st t] by (auto simp: inv_in_def sched_inv_def task_ok_def)

lemma inv_ids_unique: "inv_in E A S N sl D st \<Longrightarrow> count (image_mset t_id (task_mset st)) n \<le> 1"
  by (simp add: inv_in_def sched_inv_def tasks_ok_def)

lemma inv_active_ok:
  assumes "inv_in E A S N sl D st" "(i, t) \<in> set A"
  shows "task_ok st i t"
  using assms by (auto simp: inv_in_def sched_inv_def tasks_ok_def)

lemma inv_waiting_ok:
  assumes "inv_in E A S N sl D st" "i < length (sc_stages st)" "t \<in> set (sg_waiting (sc_stages st ! i))"
  shows "task_ok st i t"
  using assms by (auto simp: inv_in_def sched_inv_def tasks_ok_def)

lemma inv_stage_ok:
  assumes "inv_in E A S N sl D st" "i < length (sc_stages st)"
  shows "stage_ok E (sc_mgr st) (sc_stages st ! i)"
  using assms by (auto simp: inv_in_def sched_inv_def stages_ok_def)

lemma inv_running:
  "inv_in E A S N sl D st \<Longrightarrow> i < length (sc_stages st) \<Longrightarrow> n \<in> set (dkeys (sg_running (sc_stages st ! i))) \<Longrightarrow>
     \<exists>t. (i, t) \<in> set A \<and> n = t_id t"
  using running_okD [of st i n] by (simp add: inv_in_def sched_inv_def del: set_map)

lemma inv_active: "inv_in E A S N sl D st \<Longrightarrow> sc_active st = A"
  by (simp add: inv_in_def)

lemma inv_mgr: "inv_in E A S N sl D st \<Longrightarrow> mgr_wf (sc_mgr st)" "inv_in E A S N sl D st \<Longrightarrow> 0 \<le> sl s"
  by (simp_all add: inv_in_def sched_inv_def stages_ok_def)

section \<open>Queueing\<close>

lemma inv_enqueue:
  assumes inv: "inv_in E A S N sl D st" and j: "j < length (sc_stages st)"
    and t: "t_id t = sc_next_id st" "t_reserved t = 0" "t_stage_index t = j"
      "t_op_index t < length (sg_operators (sc_stages st ! j))"
      "\<forall>k \<in> set (t_trackers t). k < N"
  shows "inv_in E A S N sl (settle (t_trackers t) D)
    (upd_stage j (\<lambda>sg. enqueue sg t) (st\<lparr>sc_next_id := Suc (sc_next_id st)\<rparr>))"
proof -
  let ?sg = "sc_stages st ! j"
  let ?st = "st\<lparr>sc_stages := (sc_stages st)[j := enqueue ?sg t], sc_active := A, sc_mgr := sc_mgr st,
       sc_next_id := Suc (sc_next_id st)\<rparr>"
  note sgok = inv_stage_ok [OF inv j]
  have M: "task_mset ?st = add_mset t (task_mset st)"
    using mset_update_stage [OF j, of "enqueue ?sg t"] inv_active [OF inv] by (simp add: task_mset_def)
  have N: "N \<le> length (sc_trackers st)" using inv by (simp add: inv_in_def)
  have sh: "shape ?st = shape st" unfolding shape_def using j by (simp add: map_update_same)
  have old: "task_ok st j' t' \<Longrightarrow> task_ok ?st j' t'" for j' t'
    by (erule task_ok_mono [OF _ sh]) simp_all
  have new: "task_ok ?st j t"
    using t j N by (force simp: task_ok_def)
  have "inv_in E A S N sl (settle (t_trackers t) D) ?st"
  proof (rule inv_update [OF inv j])
    show "dwf (sg_running (enqueue ?sg t))" "\<forall>b \<in> snd ` set (sg_running (enqueue ?sg t)). 0 \<le> b"
      using sgok by (simp_all add: stage_ok_def)
    show "\<forall>n \<in> set (dkeys (sg_running (enqueue ?sg t))). \<exists>t. (j, t) \<in> set A \<and> n = t_id t"
      using inv j by (auto simp: inv_in_def sched_inv_def running_ok_def)
    show "count (image_mset t_id (task_mset ?st)) n \<le> 1" for n
      using inv_ids_unique [OF inv, of n] count_fresh [of "task_mset st" t_id "sc_next_id st"] inv_ids_below [OF inv]
      unfolding M by (cases "n = sc_next_id st") (simp_all add: t)
    show "\<forall>t' \<in> set (sg_waiting (enqueue ?sg t)). task_ok ?st j t'"
      using old new inv_waiting_ok [OF inv j] by (auto simp: enqueue_def)
    show "\<forall>(j, t) \<in> set A. task_ok ?st j t"
      using old inv_active_ok [OF inv] by auto
    show "carried k (task_mset st) + D k \<le> carried k (task_mset ?st) + settle (t_trackers t) D k" for k
      unfolding M by (simp add: settle_def)
  qed (use inv_mgr [OF inv] in \<open>simp_all add: run_sum_def\<close>)
  moreover have "?st = upd_stage j (\<lambda>sg. enqueue sg t) (st\<lparr>sc_next_id := Suc (sc_next_id st)\<rparr>)"
    using inv_active [OF inv] by (simp add: upd_stage_def)
  ultimately show ?thesis by simp
qed

section \<open>Starting a task\<close>

lemma inv_start:
  assumes inv: "inv_in E A S N sl D st" and i: "i < length (sc_stages st)"
    and wt: "sg_waiting (sc_stages st ! i) = t # ts" and b: "0 \<le> b"
    and m: "mgr_wf m'" "\<And>s. registered m' s = registered (sc_mgr st) s"
      "\<And>s. used_of m' s = used_of (sc_mgr st) s + (if s = sg_id (sc_stages st ! i) then b else 0)"
  defines "sg \<equiv> sc_stages st ! i"
  defines "sg' \<equiv> sg\<lparr>sg_waiting := ts, sg_running := AList.update (t_id t) b (sg_running sg)\<rparr>"
  shows "inv_in E (A @ [(i, t)]) S N sl D
    (st\<lparr>sc_stages := (sc_stages st)[i := sg'], sc_active := A @ [(i, t)], sc_mgr := m', sc_next_id := sc_next_id st\<rparr>)"
    (is "inv_in E ?A S N sl D ?st")
proof -
  note sgok = inv_stage_ok [OF inv i, folded sg_def]
  have tok: "task_ok st i t" using inv_waiting_ok [OF inv i, of t] wt by simp
  have M: "task_mset ?st = task_mset st"
    using mset_update_stage [OF i, of sg'] inv_active [OF inv] wt by (simp add: task_mset_def sg'_def)
  have tM: "t \<in># mset (concat (map sg_waiting (sc_stages st)))"
    using wt nth_mem [OF i] by (auto intro!: bexI [of _ "sc_stages st ! i"])
  have fresh: "t_id t \<notin> set (dkeys (sg_running sg))"
  proof
    assume "t_id t \<in> set (dkeys (sg_running sg))"
    then obtain t2 where t2: "(i, t2) \<in> set A" "t_id t = t_id t2"
      using inv i unfolding inv_in_def sched_inv_def running_ok_def sg_def by blast
    then have "t2 \<in># mset (map snd A)" by force
    from count_image_pos [OF tM, of t_id] count_image_pos [OF this, of t_id]
    have "2 \<le> count (image_mset t_id (task_mset st)) (t_id t)"
      unfolding task_mset_def inv_active [OF inv] t2(2) image_mset_union count_union by linarith
    with inv_ids_unique [OF inv, of "t_id t"] show False by simp
  qed
  then have dsum': "dsum (sg_running sg') = dsum (sg_running sg) + b"
    by (simp add: sg'_def dsum_update_absent map_of_dkeys)
  have sh: "shape ?st = shape st" unfolding shape_def using i by (simp add: map_update_same sg'_def sg_def)
  have old: "task_ok st j' t' \<Longrightarrow> task_ok ?st j' t'" for j' t'
    by (erule task_ok_mono [OF _ sh]) simp_all
  show ?thesis
  proof (rule inv_update [OF inv i])
    show "dwf (sg_running sg')" using sgok by (simp add: stage_ok_def sg'_def)
    show "\<forall>b \<in> snd ` set (sg_running sg'). 0 \<le> b"
      using sgok b by (auto simp: stage_ok_def sg'_def dest!: set_update_subset [THEN subsetD])
    show "\<forall>n \<in> set (dkeys (sg_running sg')). \<exists>t. (i, t) \<in> set ?A \<and> n = t_id t"
    proof
      fix n assume "n \<in> set (dkeys (sg_running sg'))"
      then have "n = t_id t \<or> n \<in> set (dkeys (sg_running sg))"
        using dkeys_update_absent [OF fresh, of b] by (auto simp: sg'_def simp del: set_map)
      then show "\<exists>t. (i, t) \<in> set ?A \<and> n = t_id t"
        using inv_running [OF inv i, of n] by (auto simp: sg_def simp del: set_map)
    qed
    show "count (image_mset t_id (task_mset ?st)) n \<le> 1" for n
      unfolding M by (rule inv_ids_unique [OF inv])
    show "\<forall>t' \<in> set (sg_waiting sg'). task_ok ?st i t'"
      using old inv_waiting_ok [OF inv i] wt by (simp add: sg'_def)
    show "\<forall>(j, t) \<in> set ?A. task_ok ?st j t"
      using old inv_active_ok [OF inv] tok by auto
    show "carried k (task_mset st) + D k \<le> carried k (task_mset ?st) + D k" for k
      unfolding M by simp
    show "used_of m' s = used_of (sc_mgr st) s +
         (if s = sg_id (sc_stages st ! i) then run_sum sg' - run_sum (sc_stages st ! i) else 0) + (sl s - sl s)" for s
      using m(3) dsum' by (simp add: run_sum_def sg_def)
  qed (use inv_mgr [OF inv] m(1,2) in \<open>simp_all add: sg'_def sg_def\<close>)
qed

section \<open>Taking a task out\<close>

lemma inv_detach:
  assumes inv: "inv_in E A S N sl D st" and it: "(i, t) \<in> set A"
  defines "sg \<equiv> sc_stages st ! i"
  defines "b \<equiv> dget (sg_running sg) (t_id t) 0"
  defines "A' \<equiv> [p \<leftarrow> A. t_id (snd p) \<noteq> t_id t]"
  defines "sg' \<equiv> sg\<lparr>sg_running := AList.delete (t_id t) (sg_running sg)\<rparr>"
  shows "inv_in E A' S N (sl(sg_id sg := sl (sg_id sg) + b)) (\<lambda>k. D k + int (count_list (t_trackers t) k))
    (st\<lparr>sc_stages := (sc_stages st)[i := sg'], sc_active := A', sc_mgr := sc_mgr st, sc_next_id := sc_next_id st\<rparr>)"
    (is "inv_in E A' S N ?sl ?D ?st")
    and "0 \<le> b"
    and "task_mset st = add_mset t (task_mset (st\<lparr>sc_stages := (sc_stages st)[i := sg'], sc_active := A',
      sc_mgr := sc_mgr st, sc_next_id := sc_next_id st\<rparr>))"
proof -
  have tok: "task_ok st i t" by (rule inv_active_ok [OF inv it])
  then have i: "i < length (sc_stages st)" by (simp add: task_ok_def)
  note sgok = inv_stage_ok [OF inv i, folded sg_def]
  show b: "0 \<le> b"
    using sgok by (auto simp: stage_ok_def b_def dget_def split: option.splits dest!: map_of_SomeD)
  have "count (image_mset (\<lambda>p. t_id (snd p)) (mset A)) (t_id t) \<le> count (image_mset t_id (task_mset st)) (t_id t)"
    using inv_active [OF inv] by (simp add: task_mset_def image_mset.compositionality comp_def)
  also have "\<dots> \<le> 1" by (rule inv_ids_unique [OF inv])
  finally have "mset A = add_mset (i, t) (mset A')"
    using remove_unique [OF it, of "\<lambda>p. t_id (snd p)"] by (simp add: A'_def)
  then have A: "image_mset snd (mset A) = add_mset t (image_mset snd (mset A'))" by simp
  show M: "task_mset st = add_mset t (task_mset ?st)"
    using mset_update_stage [OF i, of sg'] inv_active [OF inv] A by (simp add: task_mset_def sg'_def sg_def)
  have dsum': "dsum (sg_running sg') = dsum (sg_running sg) - b"
    using sgok by (simp add: sg'_def dsum_delete stage_ok_def b_def)
  have sh: "shape ?st = shape st" unfolding shape_def using i by (simp add: map_update_same sg'_def sg_def)
  have old: "task_ok st j' t' \<Longrightarrow> task_ok ?st j' t'" for j' t'
    by (erule task_ok_mono [OF _ sh]) simp_all
  have keys: "\<exists>t'. (i, t') \<in> set A \<and> n = t_id t'" if "n \<in> set (dkeys (sg_running sg))" for n
    using inv i that unfolding inv_in_def sched_inv_def running_ok_def sg_def by blast
  have others: "(j, t') \<in> set A'" if "j \<noteq> i" "(j, t') \<in> set A" for j t'
  proof -
    from \<open>mset A = _\<close> have "set A = insert (i, t) (set A')" by (metis set_mset_add_mset_insert set_mset_mset)
    with that show ?thesis by auto
  qed
  show "inv_in E A' S N ?sl ?D ?st"
  proof (rule inv_update [OF inv i])
    show "dwf (sg_running sg')" using sgok by (simp add: stage_ok_def sg'_def)
    show "\<forall>b \<in> snd ` set (sg_running sg'). 0 \<le> b"
      using sgok by (auto simp: stage_ok_def sg'_def AList.delete_eq)
    show "\<forall>n \<in> set (dkeys (sg_running sg')). \<exists>t. (i, t) \<in> set A' \<and> n = t_id t"
      using keys by (force simp: sg'_def A'_def AList.delete_eq)
    show "count (image_mset t_id (task_mset ?st)) n \<le> 1" for n
      using inv_ids_unique [OF inv, of n] unfolding M by (simp split: if_splits)
    show "\<forall>t' \<in> set (sg_waiting sg'). task_ok ?st i t'"
      using old inv_waiting_ok [OF inv i] by (simp add: sg'_def sg_def)
    show "\<forall>(j, t) \<in> set A'. task_ok ?st j t"
      using old inv_active_ok [OF inv] by (auto simp: A'_def)
    show "carried k (task_mset st) + D k \<le> carried k (task_mset ?st) + ?D k" for k
      unfolding M by simp
    show "used_of (sc_mgr st) s = used_of (sc_mgr st) s +
         (if s = sg_id (sc_stages st ! i) then run_sum sg' - run_sum (sc_stages st ! i) else 0) + (?sl s - sl s)" for s
      using dsum' by (simp add: run_sum_def sg_def)
    show "j \<noteq> i \<Longrightarrow> (j, t') \<in> set A \<Longrightarrow> (j, t') \<in> set A'" for j t' by (rule others)
  qed (use inv_mgr [OF inv] b in \<open>simp_all add: sg'_def sg_def\<close>)
qed

end
