(* ===== verification/Pipeline_Frame.thy ===== *)
theory Pipeline_Frame
  imports Pipeline_Ledger
begin

text \<open>
  What the scheduler leaves alone: the stages registered with the KV manager, its global account,
  its capacity and its bytes per token, and the soundness of the recorded map ratios. Every
  program of the scheduler keeps them, also when it raises.
\<close>

section \<open>The frame\<close>

definition account_frame :: "kv_mgr \<Rightarrow> kv_mgr \<Rightarrow> bool" where
  "account_frame m m' \<longleftrightarrow> mgr_wf m' \<and> (\<forall>s. registered m' s = registered m s) \<and> global_used m' = global_used m \<and>
     kv_capacity m' = kv_capacity m \<and> bytes_per_token m' = bytes_per_token m"

definition ambient :: "kv_mgr \<Rightarrow> sched \<Rightarrow> bool" where
  "ambient m st \<longleftrightarrow> account_frame m (sc_mgr st) \<and> est_ok (sc_world st)"

lemma frame_refl: "mgr_wf m \<Longrightarrow> account_frame m m"
  by (simp add: account_frame_def)

lemma frame_trans: "account_frame a b \<Longrightarrow> account_frame b c \<Longrightarrow> account_frame a c"
  by (simp add: account_frame_def)

lemma frame_same_use: "same_use m m' \<Longrightarrow> account_frame m m'"
  by (simp add: account_frame_def same_use_def)

lemma frame_charge:
  assumes "mgr_wf m" "charge_stage m s b = Inr m'"
  shows "account_frame m m'"
proof -
  have reg: "registered m s" using assms by (auto simp: charge_stage_def py_simps dadd_def split: option.splits dest: registered_used)
  from charge_stage_ok [OF assms(1) reg, of b] assms(2) wf_account_update [OF assms(1) reg] show ?thesis
    by (auto simp: account_frame_def registered_def)
qed

lemma frame_try:
  assumes "mgr_wf m" "try_allocate_stage m s b = Inr (ok, m')"
  shows "account_frame m m'"
  using try_allocate_cases [OF assms] frame_charge [OF assms(1)] frame_refl [OF assms(1)] by (cases ok) auto

lemma frame_release:
  assumes "mgr_wf m" "release_stage m s b = Inr m'"
  shows "account_frame m m'"
proof -
  have reg: "registered m s" by (rule wf_release_registered [OF assms])
  from release_stage_ok [OF assms(1) reg, of b] assms(2) wf_account_update [OF assms(1) reg] show ?thesis
    by (auto simp: account_frame_def registered_def)
qed

section \<open>Every program keeps it\<close>

lemma ambient_wf: "ambient m st \<Longrightarrow> mgr_wf (sc_mgr st)"
  by (simp add: ambient_def account_frame_def)

lemma ambient_modify: "(\<And>st. sc_mgr (f st) = sc_mgr st \<and> sc_world (f st) = sc_world st) \<Longrightarrow> keeps (ambient m) (pmodify f)"
  by (rule keeps_modify) (simp add: ambient_def)

lemma ambient_mgr_op:
  assumes "\<And>x a y. mgr_wf x \<Longrightarrow> f x = Inr (a, y) \<Longrightarrow> account_frame x y"
  shows "keeps (ambient m) (mgr_op f)"
  unfolding keeps_def
proof (intro allI impI)
  fix st assume a: "ambient m st"
  have "account_frame (sc_mgr st) y" if "f (sc_mgr st) = Inr (x, y)" for x y
    by (rule assms [OF ambient_wf [OF a] that])
  then show "ambient m (snd (mgr_op f st))"
    using a by (auto simp: mgr_op_def ambient_def intro: frame_trans split: sum.splits)
qed

lemma ambient_world_op: "keeps est_ok p \<Longrightarrow> keeps (ambient m) (world_op p)"
  by (auto simp: keeps_def world_op_def ambient_def split: prod.splits)

lemma ambient_release [keeps_intros]: "keeps (ambient m) (release_stage_op sid b)"
  unfolding release_stage_op_def by (rule ambient_mgr_op) (auto simp: py_simps intro: frame_release)

lemma ambient_rebalance [keeps_intros]: "keeps (ambient m) rebalance_stages"
  unfolding keeps_def
proof (intro allI impI)
  fix st assume a: "ambient m st"
  obtain m' where "rebalance_stages st =
     (Inr (), st\<lparr>sc_stages := map (tune_thresholds (sc_mgr st)) (sc_stages st), sc_mgr := m'\<rparr>)" "same_use (sc_mgr st) m'"
    using rebalance_stages_total [OF ambient_wf [OF a]] by blast
  then show "ambient m (snd (rebalance_stages st))"
    using a by (auto simp: ambient_def intro: frame_trans frame_same_use)
qed

lemma ambient_trackers [keeps_intros]:
  "keeps (ambient m) (finalize_tracker k)" "keeps (ambient m) (child_finished k)"
  "keeps (ambient m) (finalize_trackers ks)" "keeps (ambient m) (finalize_task t)"
proof -
  show 1: "keeps (ambient m) (finalize_tracker k)" for k
    unfolding finalize_tracker_def
    by (intro keeps_intros ambient_world_op ambient_modify unpin_est) (simp_all add: upd_tracker_def release_deferred_parent_def)
  show 2: "keeps (ambient m) (child_finished k)" for k
    unfolding child_finished_def by (intro keeps_intros ambient_modify 1) (simp add: upd_tracker_def)
  show 3: "keeps (ambient m) (finalize_trackers ks)" for ks
    by (induction ks) (auto simp only: finalize_trackers.simps intro!: keeps_intros 2)
  show "keeps (ambient m) (finalize_task t)" unfolding finalize_task_def by (rule 3)
qed

lemma ambient_passing [keeps_intros]:
  "keeps (ambient m) fresh_id" "keeps (ambient m) (enqueue_at i t)"
  "keeps (ambient m) (pass_on c n ks)" "keeps (ambient m) (pass_all cs n ks)"
proof -
  show 1: "keeps (ambient m) fresh_id" by (simp add: keeps_def fresh_id_def ambient_def)
  show 2: "keeps (ambient m) (enqueue_at i t)" for i t
    unfolding enqueue_at_def by (rule ambient_modify) (simp add: upd_stage_def)
  show 3: "keeps (ambient m) (pass_on c n ks)" for c
    unfolding pass_on_def Let_def by (intro keeps_intros ambient_modify 1 2) simp
  show "keeps (ambient m) (pass_all cs n ks)"
    by (induction cs) (auto simp only: pass_all.simps intro!: keeps_intros 3)
qed

lemma stat_frame [simp]:
  "sc_mgr (record_output s n st) = sc_mgr st" "sc_world (record_output s n st) = sc_world st"
  "sc_mgr (record_retry s st) = sc_mgr st" "sc_world (record_retry s st) = sc_world st"
  "sc_mgr (new_tracker c n s b st) = sc_mgr st" "sc_world (new_tracker c n s b st) = sc_world st"
  by (simp_all add: record_output_def record_retry_def new_tracker_def add_deferred_parent_def split: prod.split)

lemma ambient_finish:
  "keeps (ambient m) (finish_retry i t b rt)" "keeps (ambient m) (finish_dropped i t b)"
  "keeps (ambient m) (finish_done E i t b ctx)" "keeps (ambient m) (finish_failed i b e)"
proof -
  show "keeps (ambient m) (finish_retry i t b rt)"
    unfolding finish_retry_def by (intro keeps_intros ambient_modify) simp
  show "keeps (ambient m) (finish_dropped i t b)"
    unfolding finish_dropped_def by (intro keeps_intros)
  show "keeps (ambient m) (finish_failed i b e)"
    unfolding finish_failed_def by (intro keeps_intros)
  have "keeps (ambient m) (finish_fanout E i t b op ctx)" for op
    unfolding finish_fanout_def
    by (intro keeps_intros ambient_world_op ambient_modify fanout_est unpin_est) simp_all
  then show "keeps (ambient m) (finish_done E i t b ctx)"
    unfolding finish_done_def by (intro keeps_intros ambient_modify) simp_all
qed

lemma ambient_collect:
  assumes "templates_grow (ev_tk E)"
  shows "keeps (ambient m) (collect E it)"
proof -
  let ?k = "\<lambda>budget st. case run_task E (sc_stages st ! fst it) (snd it) (sc_world st) of
          (Inl e, w) \<Rightarrow> finish_failed (fst it) budget e (st\<lparr>sc_world := w\<rparr>)
        | (Inr (TaskRetry rt), w) \<Rightarrow> finish_retry (fst it) (snd it) budget rt (st\<lparr>sc_world := w\<rparr>)
        | (Inr TaskDropped, w) \<Rightarrow> finish_dropped (fst it) (snd it) budget (st\<lparr>sc_world := w\<rparr>)
        | (Inr (TaskDone ctx), w) \<Rightarrow> finish_done E (fst it) (snd it) budget ctx (st\<lparr>sc_world := w\<rparr>)"
  have d: "keeps (ambient m) (detach_op i t)" for i t
    by (simp add: keeps_def detach_op_def detach_budget_def ambient_def upd_stage_def)
  have "ambient m (snd (?k budget st))" if a: "ambient m st" for budget st
  proof -
    obtain r w where r: "run_task E (sc_stages st ! fst it) (snd it) (sc_world st) = (r, w)"
      by (cases "run_task E (sc_stages st ! fst it) (snd it) (sc_world st)")
    have "est_ok w" using keepsD [OF run_task_est [OF assms], of "sc_world st"] a r by (metis ambient_def snd_conv)
    then have "ambient m (st\<lparr>sc_world := w\<rparr>)" using a by (simp add: ambient_def)
    then show ?thesis using r ambient_finish [of m] by (auto intro: keepsD split: sum.splits task_result.splits)
  qed
  then have k: "keeps (ambient m) (?k budget)" for budget by (simp add: keeps_def)
  have "keeps (ambient m) (\<lambda>st. pbind (pmodify (\<lambda>st. st\<lparr>sc_active := [p \<leftarrow> sc_active st. t_id (snd p) \<noteq> t_id (snd it)]\<rparr>)) (\<lambda>_.
      pbind (detach_op (fst it) (snd it)) ?k) st)"
    by (intro keeps_intros ambient_modify d k) simp
  then show ?thesis unfolding collect_def Let_def .
qed

lemma ambient_collect_all: "templates_grow (ev_tk E) \<Longrightarrow> keeps (ambient m) (collect_all E its)"
  by (induction its) (auto simp only: collect_all.simps intro!: keeps_intros ambient_collect)

end
