(* ===== verification/Pipeline_Run.thy ===== *)
theory Pipeline_Run
  imports Pipeline_Tasks Pipeline_Frame
begin

text \<open>
  The programs of the scheduler keep the ledger: collecting a task on every outcome, launching,
  one turn of the loop, and a run of any number of turns.
\<close>

section \<open>Passing tasks on\<close>

lemma inv_fresh: "inv_in E A S N sl D st \<Longrightarrow> inv_in E A S N sl D (st\<lparr>sc_next_id := Suc (sc_next_id st)\<rparr>)"
proof -
  assume inv: "inv_in E A S N sl D st"
  let ?st = "st\<lparr>sc_next_id := Suc (sc_next_id st)\<rparr>"
  have p: "task_mset ?st = task_mset st" "shape ?st = shape st" "running_ok ?st = running_ok st"
    "trackers_ok ?st = trackers_ok st" "covered D ?st = covered D st" "stages_ok E ?st = stages_ok E st"
    "ledger sl ?st = ledger sl st"
    by (rule inv_parts_cong; simp)+
  have old: "task_ok st j t \<Longrightarrow> task_ok ?st j t" for j t by (erule task_ok_mono [OF _ p(2)]) simp_all
  have "tasks_ok st" using inv by (simp add: inv_in_def sched_inv_def)
  then have "tasks_ok ?st" using old unfolding tasks_ok_def p(1) by auto
  then show ?thesis using inv unfolding inv_in_def sched_inv_def p by simp
qed

lemma inv_stage_facts:
  assumes "inv_in E A S N sl D st" "i < length S"
  shows "i < length (sc_stages st)" "sg_id (sc_stages st ! i) = fst (S ! i)"
    "sg_operators (sc_stages st ! i) = fst (snd (S ! i))" "sg_fanout (sc_stages st ! i) = snd (snd (S ! i))"
    "sg_operators (sc_stages st ! i) \<noteq> []"
proof -
  have sh: "shape st = S" using assms by (simp add: inv_in_def)
  show i: "i < length (sc_stages st)" using shape_length [OF sh] assms by simp
  show "sg_id (sc_stages st ! i) = fst (S ! i)"
    "sg_operators (sc_stages st ! i) = fst (snd (S ! i))" "sg_fanout (sc_stages st ! i) = snd (snd (S ! i))"
    using shape_nth [OF sh assms(2)] by simp_all
  show "sg_operators (sc_stages st ! i) \<noteq> []"
    using inv_stage_ok [OF assms(1) i] by (simp add: stage_ok_def)
qed

lemma inv_length: "inv_in E A S N sl D st \<Longrightarrow> length (sc_stages st) = length S"
  by (simp add: inv_in_def shape_length)

lemma tri_pass_on:
  assumes ks: "\<forall>k \<in> set ks. k < N"
  shows "tri (inv_in E A S N sl D) (pass_on ctx j ks) (\<lambda>_. inv_in E A S N sl (settle ks D))"
proof (rule triI)
  fix st a st' assume inv: "inv_in E A S N sl D st" and p: "pass_on ctx j ks st = (Inr a, st')"
  let ?st = "st\<lparr>sc_next_id := Suc (sc_next_id st)\<rparr>" and ?t = "new_task ctx j ks (sc_next_id st)"
  show "inv_in E A S N sl (settle ks D) st'"
  proof (cases "j < length (sc_stages st)")
    case True
    with inv have j: "j < length S" by (simp add: inv_length)
    have "st' = upd_stage j (\<lambda>sg. enqueue sg ?t) ?st"
      using p True by (simp add: pass_on_def fresh_id_def enqueue_at_def pbind_def)
    moreover have "inv_in E A S N sl (settle (t_trackers ?t) D) (upd_stage j (\<lambda>sg. enqueue sg ?t) ?st)"
      using inv True ks inv_stage_facts(5) [OF inv j] by (intro inv_enqueue) (simp_all add: new_task_def)
    ultimately show ?thesis by (simp add: new_task_def)
  next
    case False
    then have "finalize_trackers ks (?st\<lparr>sc_out := sc_out st @ [ctx]\<rparr>) = (Inr a, st')"
      using p by (simp add: pass_on_def fresh_id_def pbind_def finalize_task_def new_task_def)
    moreover have "inv_in E A S N sl D (?st\<lparr>sc_out := sc_out st @ [ctx]\<rparr>)"
      using inv_fresh [OF inv] by simp
    ultimately show ?thesis by (rule triD [OF tri_finalize [OF ks], rotated])
  qed
qed

lemma tri_pass_all:
  assumes ks: "\<forall>k \<in> set ks. k < N"
  shows "tri (inv_in E A S N sl D) (pass_all cs j ks)
    (\<lambda>_. inv_in E A S N sl (\<lambda>k. D k - int (length cs) * int (count_list ks k)))"
proof (induction cs arbitrary: D)
  case Nil
  then show ?case by (simp add: tri_def)
next
  case (Cons c cs)
  have eq: "(\<lambda>k. D k - int (length (c # cs)) * int (count_list ks k)) =
      (\<lambda>k. settle ks D k - int (length cs) * int (count_list ks k))"
    by (simp add: settle_def fun_eq_iff algebra_simps)
  show ?case unfolding pass_all.simps eq by (rule tri_bind [OF tri_pass_on [OF ks] Cons.IH])
qed

section \<open>Holding a parent back\<close>

lemma new_tracker_frame:
  "sc_stages (new_tracker ctx n sid b st) = sc_stages st" "sc_active (new_tracker ctx n sid b st) = sc_active st"
  "sc_mgr (new_tracker ctx n sid b st) = sc_mgr st" "sc_next_id (new_tracker ctx n sid b st) = sc_next_id st"
  "sc_trackers (new_tracker ctx n sid b st) = sc_trackers st @
     [\<lparr>tr_parent = ctx, tr_pending = int n, tr_stage = sid, tr_budget = b\<rparr>]"
  by (simp_all add: new_tracker_def add_deferred_parent_def)

lemma inv_new_tracker:
  assumes inv: "inv_in E A S N sl D st" and sid: "sid \<in> fst ` set S" and b: "0 \<le> b" "b \<le> sl sid" and n: "0 < n"
  shows "inv_in E A S (Suc (length (sc_trackers st))) (sl(sid := sl sid - b))
    (D(length (sc_trackers st) := int n)) (new_tracker ctx n sid b st)" (is "inv_in E A S _ ?sl ?D ?st")
proof -
  from inv have v: "sched_inv E sl D st" and fr: "sc_active st = A" "shape st = S"
    by (simp_all add: inv_in_def)
  have p: "task_mset ?st = task_mset st" "shape ?st = shape st" "running_ok ?st = running_ok st"
    "stages_ok E ?st = stages_ok E st"
    by (rule inv_parts_cong; simp add: new_tracker_frame)+
  have old: "task_ok st j t \<Longrightarrow> task_ok ?st j t" for j t
    by (erule task_ok_mono [OF _ p(2)]) (simp_all add: new_tracker_frame)
  have "tasks_ok st" using v by (simp add: sched_inv_def)
  then have tsk: "tasks_ok ?st"
    using old unfolding tasks_ok_def p(1) by (auto simp: new_tracker_frame)
  have trk: "trackers_ok ?st"
    using v b sid shape_ids [OF fr(2)] by (simp add: trackers_ok_def sched_inv_def new_tracker_frame)
  have h: "held ?st s = held st s + (if s = sid then b else 0)" for s
    using n by (simp add: held_def new_tracker_frame tracker_hold_def)
  have "ledger ?sl ?st"
    using v unfolding ledger_def h sched_inv_def by (simp add: new_tracker_frame)
  moreover have "covered ?D ?st"
    using v carried_nonneg unfolding covered_def p(1) sched_inv_def
    by (simp add: new_tracker_frame nth_append less_Suc_eq)
  ultimately show ?thesis
    using v fr tsk trk b p unfolding inv_in_def sched_inv_def by (simp add: new_tracker_frame)
qed

section \<open>Collecting a task\<close>

text \<open>The task \<open>t\<close> of stage \<open>i\<close> is out of the schedule; its budget \<open>b\<close> and its trackers are owed.\<close>

definition owing ::
  "env \<Rightarrow> (nat \<times> task) list \<Rightarrow> (int \<times> phys_op list \<times> phys_op option) list \<Rightarrow> nat \<Rightarrow> nat \<Rightarrow> task \<Rightarrow> int \<Rightarrow>
   sched \<Rightarrow> bool" where
  "owing E A S N i t b =
     inv_in E A S N (settled(fst (S ! i) := b)) (\<lambda>k. int (count_list (t_trackers t) k))"

abbreviation settled_in ::
  "env \<Rightarrow> (nat \<times> task) list \<Rightarrow> (int \<times> phys_op list \<times> phys_op option) list \<Rightarrow> nat \<Rightarrow> sched \<Rightarrow> bool" where
  "settled_in E A S N \<equiv> inv_in E A S N settled settled"

definition owner :: "(int \<times> phys_op list \<times> phys_op option) list \<Rightarrow> nat \<Rightarrow> nat \<Rightarrow> task \<Rightarrow> int \<Rightarrow> bool" where
  "owner S N i t b \<longleftrightarrow> i < length S \<and> t_stage_index t = i \<and> (\<forall>k \<in> set (t_trackers t). k < N) \<and> 0 \<le> b"

lemma settle_all: "settle ks (\<lambda>k. int (count_list ks k)) = settled"
  by (simp add: settle_def fun_eq_iff)

lemma stage_in_shape: "i < length S \<Longrightarrow> fst (S ! i) \<in> fst ` set S"
  by simp

lemma tri_release_all:
  assumes "i < length S" "0 \<le> b"
  shows "tri (inv_in E A S N (settled(fst (S ! i) := b)) D) (release_stage_op (fst (S ! i)) b)
    (\<lambda>_. inv_in E A S N settled D)"
proof -
  have eq: "(settled(fst (S ! i) := b))(fst (S ! i) := (settled(fst (S ! i) := b)) (fst (S ! i)) - b) = settled"
    by (simp add: fun_eq_iff)
  show ?thesis
    using tri_release [where sl = "settled(fst (S ! i) := b)" and sid = "fst (S ! i)" and b = b and S = S] assms
    unfolding eq by simp
qed

lemma tri_finalize_task:
  assumes "owner S N i t b"
  shows "tri (inv_in E A S N sl (\<lambda>k. int (count_list (t_trackers t) k))) (finalize_task t) (\<lambda>_. inv_in E A S N sl settled)"
proof -
  have "\<forall>k \<in> set (t_trackers t). k < N" using assms by (simp add: owner_def)
  from tri_finalize [OF this] show ?thesis unfolding finalize_task_def settle_all [of "t_trackers t", symmetric] .
qed

lemma tri_get_stage:
  assumes "i < length S" "tri (inv_in E A S N sl D) (f (fst (S ! i))) Q"
  shows "tri (inv_in E A S N sl D) (pbind (pget (\<lambda>st. sg_id (sc_stages st ! i))) f) Q"
  using assms inv_stage_facts(2) [of E A S N sl D _ i] unfolding tri_def by (simp add: pbind_def)

lemma tri_finish_dropped:
  assumes o: "owner S N i t b"
  shows "tri (owing E A S N i t b) (finish_dropped i t b) (\<lambda>_. settled_in E A S N)"
proof -
  have i: "i < length S" and b: "0 \<le> b" using o by (simp_all add: owner_def)
  show ?thesis
    unfolding finish_dropped_def owing_def
    by (rule tri_get_stage [OF i] tri_bind [OF tri_release_all [OF i b]] tri_bind [OF tri_rebalance]
        tri_finalize_task [OF o])+
qed

lemma tri_finish_retry:
  assumes o: "owner S N i t b" and rt: "rt_op_index rt < length (fst (snd (S ! i)))" "\<not> rt_retain_budget rt"
  shows "tri (owing E A S N i t b) (finish_retry i t b rt) (\<lambda>_. settled_in E A S N)"
proof (rule triI)
  fix st a st' assume w: "owing E A S N i t b st" and f: "finish_retry i t b rt st = (Inr a, st')"
  have i: "i < length S" and b: "0 \<le> b" and ti: "t_stage_index t = i" and ks: "\<forall>k \<in> set (t_trackers t). k < N"
    using o by (simp_all add: owner_def)
  note inv = w [unfolded owing_def] and len = inv_stage_facts(1) [OF w [unfolded owing_def] i]
  let ?sg = "sc_stages st ! i"
  let ?t = "\<lparr>t_ctx = rt_ctx rt, t_stage_index = i, t_trackers = t_trackers t,
        t_op_index = rt_op_index rt, t_retry_priority = Some (- (sg_offset ?sg + int (rt_op_index rt))),
        t_reserved = 0, t_id = sc_next_id st\<rparr>"
  let ?st = "record_retry (sg_id ?sg) (upd_stage i (\<lambda>sg. enqueue sg ?t) (st\<lparr>sc_next_id := Suc (sc_next_id st)\<rparr>))"
  have "inv_in E A S N (settled(fst (S ! i) := b)) (settle (t_trackers ?t) (\<lambda>k. int (count_list (t_trackers t) k)))
      (upd_stage i (\<lambda>sg. enqueue sg ?t) (st\<lparr>sc_next_id := Suc (sc_next_id st)\<rparr>))"
    using inv len ks rt inv_stage_facts(3) [OF inv i] by (intro inv_enqueue) simp_all
  then have i2: "inv_in E A S N (settled(fst (S ! i) := b)) settled ?st"
    by (simp add: settle_all)
  have "pbind (release_stage_op (fst (S ! i)) b) (\<lambda>_. rebalance_stages) ?st = (Inr a, st')"
    using f ti rt(2) inv_stage_facts(2) [OF inv i]
    by (simp add: finish_retry_def fresh_id_def enqueue_at_def pbind_def pget_def pmodify_def)
  from triD [OF tri_bind [OF tri_release_all [OF i b] tri_rebalance] i2 this] show "settled_in E A S N st'" .
qed

lemma tri_world_op: "tri (inv_in E A S N sl D) (world_op p) (\<lambda>_. inv_in E A S N sl D)"
  by (rule tri_world) simp

lemma tri_record_output: "tri (inv_in E A S N sl D) (pmodify (record_output i n)) (\<lambda>_. inv_in E A S N sl D)"
  by (rule tri_modify) simp

lemma tri_pass_children:
  assumes o: "owner S N i t b" and n: "cs \<noteq> []"
  shows "tri (owing E A S N i t b) (pass_all cs j (t_trackers t)) (\<lambda>_. inv_in E A S N (settled(fst (S ! i) := b)) settled)"
  unfolding owing_def
proof (rule tri_post [OF tri_pass_all])
  show "\<forall>k \<in> set (t_trackers t). k < N" using o by (simp add: owner_def)
  fix a :: unit and st
  assume *: "inv_in E A S N (settled(fst (S ! i) := b))
    (\<lambda>k. int (count_list (t_trackers t) k) - int (length cs) * int (count_list (t_trackers t) k)) st"
  have "1 \<le> int (length cs)" using n by (cases cs) auto
  then have "c - int (length cs) * c \<le> 0" if "0 \<le> c" for c :: int
    using mult_right_mono [of 1 "int (length cs)" c] that by simp
  then show "inv_in E A S N (settled(fst (S ! i) := b)) settled st"
    by (intro inv_in_weaken [OF *]) simp_all
qed

lemma tri_hold_children:
  assumes o: "owner S N i t b" and n: "cs \<noteq> []" and inv: "owing E A S N i t b st"
    and p: "pass_all cs j (t_trackers t @ [length (sc_trackers st)]) (new_tracker ctx (length cs) (fst (S ! i)) b st) = (Inr a, st')"
  shows "settled_in E A S N st'"
proof -
  let ?k = "length (sc_trackers st)" and ?c = "\<lambda>k. int (count_list (t_trackers t) k)"
  let ?D = "?c(?k := int (length cs))"
  have i: "i < length S" and b: "0 \<le> b" and ks: "\<forall>k \<in> set (t_trackers t). k < N" using o by (simp_all add: owner_def)
  have N: "N \<le> ?k" using inv by (simp add: owing_def inv_in_def)
  have eq: "(settled(fst (S ! i) := b))(fst (S ! i) := (settled(fst (S ! i) := b)) (fst (S ! i)) - b) = settled"
    by (simp add: fun_eq_iff)
  have i1: "inv_in E A S (Suc ?k) settled ?D (new_tracker ctx (length cs) (fst (S ! i)) b st)"
    using inv_new_tracker [OF inv [unfolded owing_def] stage_in_shape [OF i] b, of "length cs" ctx] n unfolding eq by simp
  have "\<forall>k \<in> set (t_trackers t @ [?k]). k < Suc ?k" using ks N by auto
  note * = triD [OF tri_pass_all [OF this] i1 p]
  have "1 \<le> int (length cs)" using n by (cases cs) auto
  then have le: "c - int (length cs) * c \<le> 0" if "0 \<le> c" for c :: int
    using mult_right_mono [of 1 "int (length cs)" c] that by simp
  have "?D k - int (length cs) * int (count_list (t_trackers t @ [?k]) k) \<le> 0" for k
    using le [of "?c k"] by (cases "k = ?k") (simp_all add: distrib_left)
  then show ?thesis by (rule inv_in_weaken [OF *]) (use N in simp)
qed

lemma tri_finish_fanout:
  assumes o: "owner S N i t b"
  shows "tri (owing E A S N i t b) (finish_fanout E i t b op ctx) (\<lambda>_. settled_in E A S N)"
proof -
  have i: "i < length S" and b: "0 \<le> b" using o by (simp_all add: owner_def)
  have drop: "tri (owing E A S N i t b) (pbind (world_op (unpin_ctx ctx)) (\<lambda>_.
        pbind (release_stage_op (fst (S ! i)) b) (\<lambda>_. pbind rebalance_stages (\<lambda>_. finalize_task t)))) (\<lambda>_. settled_in E A S N)"
    unfolding owing_def
    by (rule tri_bind [OF tri_world_op] tri_bind [OF tri_release_all [OF i b]] tri_bind [OF tri_rebalance]
        tri_finalize_task [OF o])+
  have pass: "tri (owing E A S N i t b) (pbind (pass_all cs (Suc (t_stage_index t)) (t_trackers t)) (\<lambda>_.
        pbind (release_stage_op (fst (S ! i)) b) (\<lambda>_. rebalance_stages))) (\<lambda>_. settled_in E A S N)"
    if "cs \<noteq> []" for cs
    by (rule tri_bind [OF tri_pass_children [OF o that]] tri_bind [OF tri_release_all [OF i b]] tri_rebalance)+
  have hold: "tri (owing E A S N i t b) (pbind (pget (\<lambda>st. length (sc_trackers st))) (\<lambda>k.
        pbind (pmodify (new_tracker ctx (length cs) (fst (S ! i)) b)) (\<lambda>_.
        pbind (pass_all cs (Suc (t_stage_index t)) (t_trackers t @ [k])) (\<lambda>_. rebalance_stages)))) (\<lambda>_. settled_in E A S N)"
    if cs: "cs \<noteq> []" for cs
  proof (rule triI)
    fix st a st' assume inv: "owing E A S N i t b st"
      and p: "pbind (pget (\<lambda>st. length (sc_trackers st))) (\<lambda>k.
        pbind (pmodify (new_tracker ctx (length cs) (fst (S ! i)) b)) (\<lambda>_.
        pbind (pass_all cs (Suc (t_stage_index t)) (t_trackers t @ [k])) (\<lambda>_. rebalance_stages))) st = (Inr a, st')"
    from p obtain a1 st1 where
      1: "pass_all cs (Suc (t_stage_index t)) (t_trackers t @ [length (sc_trackers st)])
            (new_tracker ctx (length cs) (fst (S ! i)) b st) = (Inr a1, st1)"
      and 2: "rebalance_stages st1 = (Inr a, st')"
      by (auto simp: py_simps)
    from triD [OF tri_rebalance tri_hold_children [OF o cs inv 1] 2] show "settled_in E A S N st'" .
  qed
  show ?thesis
    unfolding finish_fanout_def
    apply (unfold owing_def, rule tri_get_stage [OF i], rule tri_bind [OF tri_world_op],
        rule tri_bind [OF tri_record_output], fold owing_def)
    using drop pass hold by simp
qed

lemma tri_finish_done:
  assumes o: "owner S N i t b"
  shows "tri (owing E A S N i t b) (finish_done E i t b ctx) (\<lambda>_. settled_in E A S N)"
proof (rule triI)
  fix st a st' assume inv: "owing E A S N i t b st" and f: "finish_done E i t b ctx st = (Inr a, st')"
  have i: "i < length S" and b: "0 \<le> b" and ks: "\<forall>k \<in> set (t_trackers t). k < N" using o by (simp_all add: owner_def)
  let ?sg = "sc_stages st ! i"
  show "settled_in E A S N st'"
  proof (cases "sg_fanout ?sg")
    case (Some op)
    with f have "finish_fanout E i t b op ctx st = (Inr a, st')" by (simp add: finish_done_def pbind_def)
    from triD [OF tri_finish_fanout [OF o] inv this] show ?thesis .
  next
    case None
    have sid: "sg_id ?sg = fst (S ! i)" by (rule inv_stage_facts(2) [OF inv [unfolded owing_def] i])
    have p: "pbind (pmodify (record_output (fst (S ! i)) 1)) (\<lambda>_.
         pbind (pass_on ctx (Suc (t_stage_index t)) (t_trackers t)) (\<lambda>_.
         pbind (release_stage_op (fst (S ! i)) b) (\<lambda>_. rebalance_stages))) st = (Inr a, st')"
      using f None sid by (simp add: finish_done_def pbind_def)
    have "tri (owing E A S N i t b) (pbind (pmodify (record_output (fst (S ! i)) 1)) (\<lambda>_.
         pbind (pass_on ctx (Suc (t_stage_index t)) (t_trackers t)) (\<lambda>_.
         pbind (release_stage_op (fst (S ! i)) b) (\<lambda>_. rebalance_stages)))) (\<lambda>_. settled_in E A S N)"
      unfolding owing_def
      by (rule tri_bind [OF tri_record_output] tri_bind [OF tri_pass_on [OF ks, unfolded settle_all]]
          tri_bind [OF tri_release_all [OF i b]] tri_rebalance | simp only: settle_all)+
    from triD [OF this inv p] show ?thesis .
  qed
qed

definition detached :: "nat \<Rightarrow> task \<Rightarrow> sched \<Rightarrow> sched" where
  "detached i t st =
     snd (detach_op i t (st\<lparr>sc_active := [p \<leftarrow> sc_active st. t_id (snd p) \<noteq> t_id t]\<rparr>))"

lemma collect_eq:
  "collect E (i, t) st =
     (case run_task E (sc_stages (detached i t st) ! i) t (sc_world (detached i t st)) of
          (Inl e, w) \<Rightarrow> finish_failed i (dget (sg_running (sc_stages st ! i)) (t_id t) 0) e ((detached i t st)\<lparr>sc_world := w\<rparr>)
        | (Inr (TaskRetry rt), w) \<Rightarrow>
            finish_retry i t (dget (sg_running (sc_stages st ! i)) (t_id t) 0) rt ((detached i t st)\<lparr>sc_world := w\<rparr>)
        | (Inr TaskDropped, w) \<Rightarrow>
            finish_dropped i t (dget (sg_running (sc_stages st ! i)) (t_id t) 0) ((detached i t st)\<lparr>sc_world := w\<rparr>)
        | (Inr (TaskDone ctx), w) \<Rightarrow>
            finish_done E i t (dget (sg_running (sc_stages st ! i)) (t_id t) 0) ctx ((detached i t st)\<lparr>sc_world := w\<rparr>))"
proof -
  have "detach_op i t (st\<lparr>sc_active := [p \<leftarrow> sc_active st. t_id (snd p) \<noteq> t_id t]\<rparr>) =
      (Inr (dget (sg_running (sc_stages st ! i)) (t_id t) 0), detached i t st)"
    by (simp add: detached_def detach_op_def detach_budget_def)
  then show ?thesis by (simp add: collect_def Let_def pbind_def pmodify_def)
qed

text \<open>The state after the task is taken out of the schedule and its budget is detached.\<close>

lemma collect_detached:
  assumes it: "(i, t) \<in> set A" and inv: "settled_in E A S N st"
  obtains b st1 where
    "owner S (length (sc_trackers st)) i t b"
    "owing E [p \<leftarrow> A. t_id (snd p) \<noteq> t_id t] S (length (sc_trackers st)) i t b st1"
    "sg_operators (sc_stages st1 ! i) = fst (snd (S ! i))"
    "t_op_index t < length (fst (snd (S ! i)))"
    "task_mset st = add_mset t (task_mset st1)"
    "collect E (i, t) st = (case run_task E (sc_stages st1 ! i) t (sc_world st1) of
          (Inl e, w) \<Rightarrow> finish_failed i b e (st1\<lparr>sc_world := w\<rparr>)
        | (Inr (TaskRetry rt), w) \<Rightarrow> finish_retry i t b rt (st1\<lparr>sc_world := w\<rparr>)
        | (Inr TaskDropped, w) \<Rightarrow> finish_dropped i t b (st1\<lparr>sc_world := w\<rparr>)
        | (Inr (TaskDone ctx), w) \<Rightarrow> finish_done E i t b ctx (st1\<lparr>sc_world := w\<rparr>))"
proof -
  let ?A = "[p \<leftarrow> A. t_id (snd p) \<noteq> t_id t]" and ?sg = "sc_stages st ! i"
  let ?b = "dget (sg_running ?sg) (t_id t) 0" and ?N = "length (sc_trackers st)"
  let ?sg' = "?sg\<lparr>sg_running := AList.delete (t_id t) (sg_running ?sg)\<rparr>"
  let ?st = "st\<lparr>sc_stages := (sc_stages st)[i := ?sg'], sc_active := ?A, sc_mgr := sc_mgr st, sc_next_id := sc_next_id st\<rparr>"
  have eq: "detached i t st = ?st"
    using inv_active [OF inv] by (simp add: upd_stage_def detached_def detach_op_def detach_budget_def)
  have tok: "task_ok st i t" by (rule inv_active_ok [OF inv it])
  have invN: "settled_in E A S ?N st" using inv by (simp add: inv_in_def)
  have i: "i < length S" using tok inv_length [OF inv] by (simp add: task_ok_def)
  have len: "i < length (sc_stages st)" using tok by (simp add: task_ok_def)
  have sid: "sg_id ?sg = fst (S ! i)" and ops: "sg_operators ?sg = fst (snd (S ! i))"
    by (rule inv_stage_facts [OF inv i])+
  have "owner S ?N i t ?b" using i tok inv_detach(2) [OF inv it] by (simp add: owner_def task_ok_def)
  moreover have "owing E ?A S ?N i t ?b (detached i t st)"
    using inv_detach(1) [OF invN it] unfolding owing_def eq sid by simp
  moreover have "sg_operators (sc_stages (detached i t st) ! i) = fst (snd (S ! i))"
    using ops len by (simp add: eq)
  moreover have "t_op_index t < length (fst (snd (S ! i)))" using tok ops by (simp add: task_ok_def)
  moreover have "task_mset st = add_mset t (task_mset (detached i t st))"
    using inv_detach(3) [OF inv it] unfolding eq by simp
  ultimately show ?thesis by (rule that [OF _ _ _ _ _ collect_eq])
qed

lemma run_task_retry:
  assumes "run_task E sg t w = (Inr (TaskRetry rt), w')" "t_op_index t < length (sg_operators sg)"
  shows "rt_op_index rt < length (sg_operators sg)" "\<not> rt_retain_budget rt"
proof -
  obtain cx j rb where rt: "rt = RetryTaskResult cx j rb" by (cases rt)
  have "t_op_index t \<le> j \<and> j < t_op_index t + length (drop (t_op_index t) (sg_operators sg)) \<and> \<not> rb"
    by (rule run_ops_retry_index) (use assms(1) rt in \<open>simp add: run_task_def\<close>)
  then show "rt_op_index rt < length (sg_operators sg)" "\<not> rt_retain_budget rt"
    using assms(2) rt by auto
qed

lemma tri_collect:
  assumes it: "(i, t) \<in> set A"
  shows "tri (settled_in E A S N) (collect E (i, t)) (\<lambda>_. settled_in E [p \<leftarrow> A. t_id (snd p) \<noteq> t_id t] S N)"
proof (rule triI)
  fix st a st' assume inv: "settled_in E A S N st" and c: "collect E (i, t) st = (Inr a, st')"
  let ?A = "[p \<leftarrow> A. t_id (snd p) \<noteq> t_id t]" and ?N = "length (sc_trackers st)"
  obtain b st1 where o: "owner S ?N i t b" and w1: "owing E ?A S ?N i t b st1"
    and ops: "sg_operators (sc_stages st1 ! i) = fst (snd (S ! i))" "t_op_index t < length (fst (snd (S ! i)))"
    and col: "collect E (i, t) st = (case run_task E (sc_stages st1 ! i) t (sc_world st1) of
          (Inl e, w) \<Rightarrow> finish_failed i b e (st1\<lparr>sc_world := w\<rparr>)
        | (Inr (TaskRetry rt), w) \<Rightarrow> finish_retry i t b rt (st1\<lparr>sc_world := w\<rparr>)
        | (Inr TaskDropped, w) \<Rightarrow> finish_dropped i t b (st1\<lparr>sc_world := w\<rparr>)
        | (Inr (TaskDone ctx), w) \<Rightarrow> finish_done E i t b ctx (st1\<lparr>sc_world := w\<rparr>))"
    by (rule collect_detached [OF it inv])
  have w: "owing E ?A S ?N i t b (st1\<lparr>sc_world := w\<rparr>)" for w
    using w1 by (simp add: owing_def)
  have "settled_in E ?A S ?N st'"
  proof (cases "run_task E (sc_stages st1 ! i) t (sc_world st1)")
    case (Pair r w')
    show ?thesis
    proof (cases r)
      case (Inl e)
      with c col Pair show ?thesis by (simp add: finish_failed_def py_simps)
    next
      case (Inr res)
      show ?thesis
      proof (cases res)
        case (TaskRetry rt)
        have "rt_op_index rt < length (fst (snd (S ! i)))" "\<not> rt_retain_budget rt"
          using run_task_retry [of E "sc_stages st1 ! i" t "sc_world st1" rt w'] Pair Inr TaskRetry ops by simp_all
        moreover have "finish_retry i t b rt (st1\<lparr>sc_world := w'\<rparr>) = (Inr a, st')"
          using c col Pair Inr TaskRetry by simp
        ultimately show ?thesis by (rule triD [OF tri_finish_retry [OF o] w])
      next
        case TaskDropped
        have "finish_dropped i t b (st1\<lparr>sc_world := w'\<rparr>) = (Inr a, st')"
          using c col Pair Inr TaskDropped by simp
        then show ?thesis by (rule triD [OF tri_finish_dropped [OF o] w])
      next
        case (TaskDone cx)
        have "finish_done E i t b cx (st1\<lparr>sc_world := w'\<rparr>) = (Inr a, st')"
          using c col Pair Inr TaskDone by simp
        then show ?thesis by (rule triD [OF tri_finish_done [OF o] w])
      qed
    qed
  qed
  moreover have "N \<le> ?N" using inv by (simp add: inv_in_def)
  ultimately show "settled_in E ?A S N st'" by (simp add: inv_in_def)
qed

text \<open>The ledger is balanced, whatever is in flight.\<close>

definition balanced :: "env \<Rightarrow> (int \<times> phys_op list \<times> phys_op option) list \<Rightarrow> sched \<Rightarrow> bool" where
  "balanced E S st \<longleftrightarrow> settled_in E (sc_active st) S 0 st"

lemma balancedI: "settled_in E A S N st \<Longrightarrow> balanced E S st"
  by (simp add: balanced_def inv_in_def)

lemma tri_collect_all:
  assumes "set its \<subseteq> set A" "distinct (map (\<lambda>p. t_id (snd p)) its)"
  shows "tri (settled_in E A S N) (collect_all E its) (\<lambda>_. balanced E S)"
  using assms
proof (induction its arbitrary: A)
  case Nil
  show ?case unfolding collect_all.simps by (rule tri_ret) (rule balancedI)
next
  case (Cons it its)
  obtain i t where it: "it = (i, t)" by (cases it)
  let ?A = "[p \<leftarrow> A. t_id (snd p) \<noteq> t_id t]"
  have "set its \<subseteq> set ?A" using Cons.prems it by force
  with Cons.prems have ih: "tri (settled_in E ?A S N) (collect_all E its) (\<lambda>_. balanced E S)"
    by (intro Cons.IH) simp_all
  have "(i, t) \<in> set A" using Cons.prems it by simp
  from tri_bind [OF tri_collect [OF this] ih] show ?case by (simp add: it)
qed

lemma distinct_chosen:
  assumes "\<And>n. length [p \<leftarrow> A. f p = n] \<le> 1" "distinct ns"
  shows "distinct (map f (concat (map (\<lambda>n. [p \<leftarrow> A. f p = n]) ns)))"
  using assms(2)
proof (induction ns)
  case (Cons n ns)
  have "distinct (map f [p \<leftarrow> A. f p = n])"
    using assms(1) [of n] by (cases "[p \<leftarrow> A. f p = n]") auto
  with Cons show ?case by auto
qed simp

lemma inv_active_unique:
  assumes "inv_in E A S N sl D st"
  shows "length [p \<leftarrow> A. t_id (snd p) = n] \<le> 1"
proof -
  have "length [p \<leftarrow> A. t_id (snd p) = n] = count (image_mset (\<lambda>p. t_id (snd p)) (mset A)) n"
    by (induction A) auto
  also have "\<dots> \<le> count (image_mset t_id (task_mset st)) n"
    using inv_active [OF assms] by (simp add: task_mset_def image_mset.compositionality comp_def)
  also have "\<dots> \<le> 1" by (rule inv_ids_unique [OF assms])
  finally show ?thesis .
qed

lemma done_tasks_ok:
  assumes "inv_in E (sc_active st) S N sl D st"
  shows "set (done_tasks pick st) \<subseteq> set (sc_active st)"
    "distinct (map (\<lambda>p. t_id (snd p)) (done_tasks pick st))"
    "sc_active st \<noteq> [] \<Longrightarrow> done_tasks pick st \<noteq> []"
proof -
  let ?c = "concat (map (\<lambda>n. [p \<leftarrow> sc_active st. t_id (snd p) = n]) (remdups (pick st)))"
  have d: "distinct (map (\<lambda>p. t_id (snd p)) ?c)"
    by (rule distinct_chosen [OF inv_active_unique [OF assms]]) simp
  have e: "done_tasks pick st = (if ?c = [] then take 1 (sc_active st) else ?c)"
    unfolding done_tasks_def by (cases ?c) (simp_all only: list.case list.simps if_True if_False simp_thms)
  have t: "set (take 1 (sc_active st)) \<subseteq> set (sc_active st)" by (rule set_take_subset)
  have "set ?c \<subseteq> set (sc_active st)" by auto
  with t show "set (done_tasks pick st) \<subseteq> set (sc_active st)" unfolding e by simp
  have "distinct (map (\<lambda>p. t_id (snd p)) (take 1 (sc_active st)))" by (cases "sc_active st") simp_all
  with d show "distinct (map (\<lambda>p. t_id (snd p)) (done_tasks pick st))" unfolding e by simp
  show "sc_active st \<noteq> [] \<Longrightarrow> done_tasks pick st \<noteq> []" unfolding e by (cases "sc_active st") simp_all
qed

section \<open>Launching\<close>

lemma charged:
  assumes "mgr_wf m" "registered m s" "charge_stage m s b = Inr m'"
  shows "mgr_wf m'" "\<And>x. registered m' x = registered m x"
    "\<And>x. used_of m' x = used_of m x + (if x = s then b else 0)"
proof -
  have m': "m' = m\<lparr>stage_used := AList.update s (used_of m s + b) (stage_used m),
            stage_inflight := AList.update s (stage_inflight_of m s + 1) (stage_inflight m)\<rparr>"
    using charge_stage_ok [OF assms(1,2), of b] assms(3) by simp
  show "mgr_wf m'" unfolding m' by (rule wf_account_update [OF assms(1,2)])
  show "registered m' x = registered m x" for x by (simp add: m' registered_def)
  show "used_of m' x = used_of m x + (if x = s then b else 0)" for x by (simp add: m')
qed

lemma accept_result:
  assumes wf: "mgr_wf m" "estimator_wf est" and ok: "stage_ok E m sg" and t: "t_reserved t = 0" "t_op_index t < length (sg_operators sg)"
    and a: "accept E est m sg t = Inr (b, t', sg', m')"
  shows "t' = t \<and> (case b of None \<Rightarrow> sg' = sg \<and> m' = m
     | Some x \<Rightarrow> 0 \<le> x \<and> sg' = start_running sg t x \<and> charge_stage m (sg_id sg) x = Inr m')"
proof -
  from a t obtain x where e: "estimate_budget E est sg t = Inr x"
    and k: "rbind (try_allocate_stage m (sg_id sg) x) (\<lambda>(ok, m').
           if ok then Inr (Some x, t, start_running sg t x, m') else Inr (None, t, sg, m')) = Inr (b, t', sg', m')"
    by (auto simp: accept_def py_simps)
  from ok e t(2) wf(2) have x: "0 \<le> x" by (auto simp: stage_ok_def nonneg_estimates_def)
  from k obtain ad m1 where ta: "try_allocate_stage m (sg_id sg) x = Inr (ad, m1)"
    and r: "(if ad then (Some x, t, start_running sg t x, m1) else (None, t, sg, m1)) = (b, t', sg', m')"
    by (cases "try_allocate_stage m (sg_id sg) x") (auto simp: py_simps split: if_splits)
  from try_allocate_cases [OF wf(1) ta] r x show ?thesis by (auto split: if_splits)
qed

lemma force_result:
  assumes wf: "mgr_wf m" "estimator_wf est" and ok: "stage_ok E m sg" and t: "t_reserved t = 0" "t_op_index t < length (sg_operators sg)"
    and a: "force_accept E est m sg t = Inr (b, t', sg', m')"
  shows "t' = t \<and> 0 \<le> b \<and> sg' = start_running sg t b \<and> charge_stage m (sg_id sg) b = Inr m'"
proof -
  from a t obtain x where e: "estimate_budget E est sg t = Inr x"
    and k: "rbind (force_allocate_stage m (sg_id sg) x) (\<lambda>m'. Inr (x, t, start_running sg t x, m')) = Inr (b, t', sg', m')"
    by (auto simp: force_accept_def py_simps)
  from ok e t(2) wf(2) have x: "0 \<le> x" by (auto simp: stage_ok_def nonneg_estimates_def)
  from k x show ?thesis by (auto simp: py_simps force_allocate_stage_def)
qed

lemma start_waiting:
  "(start_running sg t b)\<lparr>sg_waiting := ts\<rparr> = sg\<lparr>sg_waiting := ts, sg_running := AList.update (t_id t) b (sg_running sg)\<rparr>"
  "start_running (sg\<lparr>sg_waiting := ts\<rparr>) t b = sg\<lparr>sg_waiting := ts, sg_running := AList.update (t_id t) b (sg_running sg)\<rparr>"
  by (simp_all add: start_running_def)

lemma inv_started:
  assumes inv: "settled_in E A S N st" and i: "i < length S"
    and wt: "sg_waiting (sc_stages st ! i) = t # ts" and b: "0 \<le> b"
    and m: "charge_stage (sc_mgr st) (sg_id (sc_stages st ! i)) b = Inr m'"
    and st': "sc_stages st' = (sc_stages st)[i := (sc_stages st ! i)\<lparr>sg_waiting := ts,
        sg_running := AList.update (t_id t) b (sg_running (sc_stages st ! i))\<rparr>]"
      "sc_active st' = sc_active st @ [(i, t)]" "sc_mgr st' = m'" "sc_trackers st' = sc_trackers st"
      "sc_next_id st' = sc_next_id st"
  shows "settled_in E (A @ [(i, t)]) S N st' \<and> task_mset st' = task_mset st"
proof -
  let ?sg = "sc_stages st ! i"
  let ?st = "st\<lparr>sc_stages := (sc_stages st)[i := ?sg\<lparr>sg_waiting := ts, sg_running := AList.update (t_id t) b (sg_running ?sg)\<rparr>],
      sc_active := A @ [(i, t)], sc_mgr := m', sc_next_id := sc_next_id st\<rparr>"
  note len = inv_stage_facts(1) [OF inv i]
  have "registered (sc_mgr st) (sg_id ?sg)" using inv_stage_ok [OF inv len] by (simp add: stage_ok_def)
  note ch = charged [OF inv_mgr(1) [OF inv] this m]
  have "settled_in E (A @ [(i, t)]) S N ?st"
    by (rule inv_start [OF inv len wt b ch])
  moreover have "settled_in E (A @ [(i, t)]) S N st' = settled_in E (A @ [(i, t)]) S N ?st"
    by (rule sched_inv_cong) (simp_all add: st' inv_active [OF inv])
  moreover have "task_mset st' = task_mset st"
    using mset_update_stage [OF len, of "?sg\<lparr>sg_waiting := ts, sg_running := AList.update (t_id t) b (sg_running ?sg)\<rparr>"] wt
    by (simp add: task_mset_def st')
  ultimately show ?thesis by simp
qed

lemma record_input_frame [simp]:
  "sc_stages (record_input s st) = sc_stages st" "sc_active (record_input s st) = sc_active st"
  "sc_mgr (record_input s st) = sc_mgr st" "sc_trackers (record_input s st) = sc_trackers st"
  "sc_next_id (record_input s st) = sc_next_id st" "sc_world (record_input s st) = sc_world st"
  by (simp_all add: record_input_def split: option.split prod.split)

lemma ambient_est: "ambient m st \<Longrightarrow> estimator_wf (w_estimator (sc_world st))"
  by (simp add: ambient_def est_ok_def)

lemma ambient_charge:
  "ambient m st \<Longrightarrow> charge_stage (sc_mgr st) s b = Inr m' \<Longrightarrow> account_frame m m' \<and> est_ok (sc_world st)"
  using frame_charge [of "sc_mgr st" s b m'] frame_trans [of m "sc_mgr st" m'] ambient_wf [of m st]
  by (simp add: ambient_def)

lemma launch_queue_balanced:
  assumes "settled_in E A S N st" "i < length S" "sg_waiting (sc_stages st ! i) = q"
    "launch_queue E i q st = (Inr a, st')" "ambient m st"
  shows "\<exists>A'. settled_in E (A @ A') S N st' \<and> task_mset st' = task_mset st \<and> ambient m st'"
  using assms
proof (induction q arbitrary: st A)
  case Nil
  then show ?case by (auto intro: exI [of _ "[]"])
next
  case (Cons t ts)
  note inv = Cons.prems(1) and i = Cons.prems(2) and wt = Cons.prems(3)
  let ?sg = "sc_stages st ! i" and ?m = "sc_mgr st"
  note len = inv_stage_facts(1) [OF inv i]
  have tok: "task_ok st i t" using inv_waiting_ok [OF inv len] wt by simp
  from Cons.prems(4) obtain b t' sg' m' where
    ac: "accept E (w_estimator (sc_world st)) ?m ?sg t = Inr (b, t', sg', m')"
    and k: "(case b of None \<Rightarrow> pret () | Some _ \<Rightarrow> pbind (pmodify (start_task i t')) (\<lambda>_. launch_queue E i ts))
       ((upd_stage i (\<lambda>_. sg') st)\<lparr>sc_mgr := m'\<rparr>) = (Inr a, st')"
    by (auto simp: py_simps accept_op_def split: sum.splits)
  have r: "t' = t \<and> (case b of None \<Rightarrow> sg' = ?sg \<and> m' = ?m
     | Some x \<Rightarrow> 0 \<le> x \<and> sg' = start_running ?sg t x \<and> charge_stage ?m (sg_id ?sg) x = Inr m')"
    using tok by (intro accept_result [OF inv_mgr(1) [OF inv] ambient_est [OF Cons.prems(5)] inv_stage_ok [OF inv len] _ _ ac]) (simp_all add: task_ok_def)
  show ?case
  proof (cases b)
    case None
    then have "st' = st" using r k by (simp add: upd_stage_def)
    with inv Cons.prems(5) show ?thesis by (auto intro!: exI [of _ "[]"])
  next
    case (Some x)
    let ?st1 = "start_task i t ((upd_stage i (\<lambda>_. start_running ?sg t x) st)\<lparr>sc_mgr := m'\<rparr>)"
    have "sg_waiting (start_running ?sg t x) = t # ts" using wt by (simp add: start_running_def)
    then have sg1: "sc_stages ?st1 = (sc_stages st)[i := ?sg\<lparr>sg_waiting := ts,
        sg_running := AList.update (t_id t) x (sg_running ?sg)\<rparr>]"
      using len by (simp add: start_task_def upd_stage_def pop_task_def start_waiting)
    have i1: "settled_in E (A @ [(i, t)]) S N ?st1 \<and> task_mset ?st1 = task_mset st"
      using r Some sg1 by (intro inv_started [OF inv i wt]) (simp_all add: start_task_def upd_stage_def)
    have "launch_queue E i ts ?st1 = (Inr a, st')" using k r Some by simp
    moreover have "sg_waiting (sc_stages ?st1 ! i) = ts" using len by (simp add: sg1)
    moreover have "ambient m ?st1"
      using ambient_charge [OF Cons.prems(5), of "sg_id ?sg" x m'] r Some
      by (simp add: ambient_def start_task_def upd_stage_def)
    ultimately obtain A' where "settled_in E ((A @ [(i, t)]) @ A') S N st' \<and> task_mset st' = task_mset ?st1 \<and> ambient m st'"
      using Cons.IH [OF conjunct1 [OF i1] i] by blast
    with i1 show ?thesis by auto
  qed
qed

lemma force_stage_balanced:
  assumes inv: "settled_in E A S N st" and i: "i < length S" and f: "force_stage E i st = (Inr a, st')"
    and amb: "ambient m st"
  shows "\<exists>A'. settled_in E (A @ A') S N st' \<and> task_mset st' = task_mset st \<and> ambient m st'"
proof (cases "sg_waiting (sc_stages st ! i)")
  case Nil
  with f inv amb show ?thesis by (auto simp: force_stage_def peek_task_def intro!: exI [of _ "[]"])
next
  case (Cons t ts)
  let ?sg = "sc_stages st ! i" and ?m = "sc_mgr st"
  note len = inv_stage_facts(1) [OF inv i]
  have tok: "task_ok st i t" using inv_waiting_ok [OF inv len] Cons by simp
  let ?sg1 = "?sg\<lparr>sg_waiting := ts\<rparr>"
  let ?st1 = "upd_stage i (\<lambda>sg. snd (pop_task sg)) (record_input (sg_id ?sg) st)"
  have at: "sc_stages ?st1 ! i = ?sg1" using len Cons by (simp add: upd_stage_def pop_task_def)
  from f Cons obtain t1 st2 where fa: "force_accept_op E i t ?st1 = (Inr t1, st2)"
    and st': "st' = st2\<lparr>sc_active := sc_active st2 @ [(i, t1)]\<rparr>"
    by (auto simp: force_stage_def peek_task_def py_simps)
  from fa obtain b sg' m' where
    ac: "force_accept E (w_estimator (sc_world st)) ?m ?sg1 t = Inr (b, t1, sg', m')"
    and st2: "st2 = (upd_stage i (\<lambda>_. sg') ?st1)\<lparr>sc_mgr := m'\<rparr>"
    by (auto simp: force_accept_op_def at split: sum.splits) (simp_all add: upd_stage_def)
  have ok: "stage_ok E ?m ?sg1"
    using inv_stage_ok [OF inv len] by (simp add: stage_ok_def nonneg_estimates_def estimate_budget_def)
  have r: "t1 = t \<and> 0 \<le> b \<and> sg' = start_running ?sg1 t b \<and> charge_stage ?m (sg_id ?sg1) b = Inr m'"
    using tok by (intro force_result [OF inv_mgr(1) [OF inv] ambient_est [OF amb] ok _ _ ac]) (simp_all add: task_ok_def)
  have "settled_in E (A @ [(i, t)]) S N st' \<and> task_mset st' = task_mset st"
    using r by (intro inv_started [OF inv i Cons, of b m'])
      (simp_all add: st' st2 upd_stage_def start_waiting)
  moreover have "ambient m st'"
    using ambient_charge [OF amb, of "sg_id ?sg" b m'] r by (simp add: ambient_def st' st2 upd_stage_def)
  ultimately show ?thesis by blast
qed

lemma launch_stage_balanced:
  "settled_in E A S N st \<Longrightarrow> i < length S \<Longrightarrow> launch_stage E i st = (Inr a, st') \<Longrightarrow> ambient m st \<Longrightarrow>
     \<exists>A'. settled_in E (A @ A') S N st' \<and> task_mset st' = task_mset st \<and> ambient m st'"
  unfolding launch_stage_def by (rule launch_queue_balanced) simp_all

lemma each_stage_balanced:
  assumes f: "\<And>i A st a st'. settled_in E A S N st \<Longrightarrow> i < length S \<Longrightarrow> f i st = (Inr a, st') \<Longrightarrow> ambient m st \<Longrightarrow>
      \<exists>A'. settled_in E (A @ A') S N st' \<and> task_mset st' = task_mset st \<and> ambient m st'"
    and js: "\<forall>i \<in> set js. i < length S" and inv: "settled_in E A S N st" and e: "each_stage f js st = (Inr a, st')"
    and amb: "ambient m st"
  shows "\<exists>A'. settled_in E (A @ A') S N st' \<and> task_mset st' = task_mset st \<and> ambient m st'"
  using js inv e amb
proof (induction js arbitrary: A st)
  case Nil
  then show ?case by (auto intro: exI [of _ "[]"])
next
  case (Cons i js)
  from Cons.prems(3) obtain a1 st1 where 1: "f i st = (Inr a1, st1)" and 2: "each_stage f js st1 = (Inr a, st')"
    by (auto simp: py_simps)
  from Cons.prems(1) have i: "i < length S" and js: "\<forall>i \<in> set js. i < length S" by simp_all
  from f [OF Cons.prems(2) i 1 Cons.prems(4)] obtain A1 where A1: "settled_in E (A @ A1) S N st1"
    "task_mset st1 = task_mset st" "ambient m st1"
    by blast
  from Cons.IH [OF js A1(1) 2 A1(3)] A1(2) show ?case by auto
qed

lemma launch_ready_balanced:
  assumes "settled_in E A S N st" "launch_ready_tasks E st = (Inr a, st')" "ambient m st"
  shows "\<exists>A'. settled_in E (A @ A') S N st' \<and> task_mset st' = task_mset st \<and> ambient m st'"
proof -
  have "\<forall>i \<in> set [0..<length (sc_stages st)]. i < length S" using inv_length [OF assms(1)] by simp
  from each_stage_balanced [OF launch_stage_balanced this assms(1) _ assms(3)] assms(2) show ?thesis
    by (simp add: launch_ready_tasks_def)
qed

lemma force_launch_balanced:
  assumes inv: "settled_in E A S N st" and f: "force_launch_blocked_tasks E st = (Inr forced, st')"
    and amb: "ambient m st"
  shows "balanced E S st'" "ambient m st'" "task_mset st' = task_mset st" "\<exists>A'. sc_active st' = A @ A'"
proof -
  from f obtain a where e: "each_stage (force_stage E) [0..<length (sc_stages st)] st = (Inr a, st')"
    by (auto simp: force_launch_blocked_tasks_def split: prod.splits sum.splits)
  have "\<forall>i \<in> set [0..<length (sc_stages st)]. i < length S" using inv_length [OF inv] by simp
  then have "\<exists>A'. settled_in E (A @ A') S N st' \<and> task_mset st' = task_mset st \<and> ambient m st'"
    by (rule each_stage_balanced [OF _ _ inv e amb, rotated]) (rule force_stage_balanced)
  then obtain A' where A': "settled_in E (A @ A') S N st'" "task_mset st' = task_mset st" "ambient m st'" by blast
  then show "balanced E S st'" "ambient m st'" "task_mset st' = task_mset st" "\<exists>A'. sc_active st' = A @ A'"
    by (auto intro: balancedI simp: inv_in_def)
qed

section \<open>The main loop\<close>

lemma balanced_inv: "balanced E S st \<Longrightarrow> settled_in E (sc_active st) S 0 st"
  by (simp add: balanced_def)

lemma sched_round_balanced:
  assumes grow: "templates_grow (ev_tk E)" and amb: "ambient m st"
    and bal: "balanced E S st" and r: "sched_round E pick st = (Inr go, st')"
  shows "balanced E S st'" "ambient m st'" "go \<or> sc_active st' = [] \<and> \<not> has_pending_work st'"
proof -
  note inv = balanced_inv [OF bal]
  have "balanced E S st' \<and> ambient m st' \<and> (go \<or> sc_active st' = [] \<and> \<not> has_pending_work st')"
  proof (cases "\<not> has_pending_work st \<and> sc_active st = []")
    case True
    with r bal amb show ?thesis by (auto simp: sched_round_def)
  next
    case False
    with r obtain a1 st1 a2 st2 where 1: "rebalance_stages st = (Inr a1, st1)"
      and 2: "launch_ready_tasks E st1 = (Inr a2, st2)"
      and 3: "(if sc_active st2 = []
             then if has_pending_work st2
                  then pbind (force_launch_blocked_tasks E) (\<lambda>forced.
                         if forced then pret True else praise RuntimeError) st2
                  else (Inr False, st2)
             else pbind (collect_all E (done_tasks pick st2)) (\<lambda>_. pret True) st2) = (Inr go, st')"
      by (auto simp: sched_round_def py_simps)
    have inv1: "settled_in E (sc_active st) S 0 st1" by (rule triD [OF tri_rebalance inv 1])
    have amb1: "ambient m st1" using keepsD [OF ambient_rebalance amb] 1 by simp
    from launch_ready_balanced [OF inv1 2 amb1] obtain A' where A': "settled_in E (sc_active st @ A') S 0 st2"
      and amb2: "ambient m st2" by blast
    then have bal2: "balanced E S st2" by (blast intro: balancedI)
    note inv2 = balanced_inv [OF this]
    show ?thesis
    proof (cases "sc_active st2 = []")
      case act: True
      show ?thesis
      proof (cases "has_pending_work st2")
        case True
        with 3 act obtain st3 where "force_launch_blocked_tasks E st2 = (Inr True, st3)" "go" "st' = st3"
          by (auto simp: py_simps split: if_splits)
        with force_launch_balanced(1,2) [OF inv2 _ amb2] show ?thesis by blast
      next
        case False
        with 3 act bal2 amb2 show ?thesis by auto
      qed
    next
      case False
      with 3 obtain a where c: "collect_all E (done_tasks pick st2) st2 = (Inr a, st')" and "go"
        by (auto simp: py_simps)
      moreover have "ambient m st'" using keepsD [OF ambient_collect_all [OF grow] amb2] c by (metis snd_conv)
      ultimately show ?thesis using triD [OF tri_collect_all [OF done_tasks_ok(1,2) [OF inv2]] inv2] by blast
    qed
  qed
  then show "balanced E S st'" "ambient m st'" "go \<or> sc_active st' = [] \<and> \<not> has_pending_work st'" by simp_all
qed

lemma run_rounds_balanced:
  assumes grow: "templates_grow (ev_tk E)"
    and "ambient m st" "balanced E S st" "run_rounds E pick fuel st = Some (Inr (), st')"
  shows "balanced E S st' \<and> ambient m st' \<and> sc_active st' = [] \<and> \<not> has_pending_work st'"
  using assms(2-)
proof (induction fuel arbitrary: st)
  case (Suc fuel)
  from Suc.prems(3) obtain go st1 where r: "sched_round E pick st = (Inr go, st1)"
    and k: "if go then run_rounds E pick fuel st1 = Some (Inr (), st') else st' = st1"
    by (auto split: prod.splits sum.splits bool.splits)
  note b = sched_round_balanced [OF grow Suc.prems(1,2) r]
  show ?case
  proof (cases go)
    case True
    with k Suc.IH [OF b(2,1)] show ?thesis by simp
  next
    case False
    with k b show ?thesis by simp
  qed
qed simp

lemma sum_list_zero: "(\<And>x. x \<in> set xs \<Longrightarrow> f x = 0) \<Longrightarrow> (\<Sum>x\<leftarrow>xs. f x) = (0::int)"
  by (induction xs) simp_all

text \<open>With nothing in flight and nothing waiting every account is zero.\<close>

lemma empty_tasks: "sc_active st = [] \<Longrightarrow> \<not> has_pending_work st \<Longrightarrow> task_mset st = {#}"
proof -
  assume a: "sc_active st = []" "\<not> has_pending_work st"
  then have "concat (map sg_waiting (sc_stages st)) = []"
    by (simp add: has_pending_work_def has_waiting_tasks_def)
  with a(1) show ?thesis by (simp add: task_mset_def)
qed

lemma empty_running:
  assumes inv: "inv_in E [] S N sl D st" and "sg \<in> set (sc_stages st)"
  shows "run_sum sg = 0"
proof -
  obtain j where j: "j < length (sc_stages st)" "sg = sc_stages st ! j"
    using assms(2) unfolding in_set_conv_nth by blast
  have "n \<notin> set (dkeys (sg_running sg))" for n
    using inv_running [OF inv j(1), of n] unfolding j(2) by auto
  then have "sg_running sg = []" by (cases "sg_running sg") auto
  then show ?thesis by (simp add: run_sum_def)
qed

lemma empty_hold:
  assumes "covered settled st" "task_mset st = {#}" "tr \<in> set (sc_trackers st)"
  shows "tracker_hold s tr = 0"
proof -
  obtain k where k: "k < length (sc_trackers st)" "tr = sc_trackers st ! k"
    using assms(3) unfolding in_set_conv_nth by blast
  have "tr_pending tr \<le> carried k {#} + 0"
    using assms(1) k unfolding covered_def assms(2) by blast
  then show ?thesis by (simp add: tracker_hold_def)
qed

lemma balanced_empty:
  assumes bal: "balanced E S st" and e: "sc_active st = []" "\<not> has_pending_work st"
  shows "used_of (sc_mgr st) s = 0" "mgr_wf (sc_mgr st)"
proof -
  have inv: "inv_in E [] S 0 settled settled st" using balanced_inv [OF bal] unfolding e(1) .
  then have cov: "covered settled st" and led: "ledger settled st" and wf: "mgr_wf (sc_mgr st)"
    by (simp_all add: inv_in_def sched_inv_def stages_ok_def)
  have "(\<Sum>sg\<leftarrow>sc_stages st. if sg_id sg = s then run_sum sg else 0) = 0"
    by (rule sum_list_zero) (simp add: empty_running [OF inv])
  moreover have "(\<Sum>tr\<leftarrow>sc_trackers st. tracker_hold s tr) = 0"
    by (rule sum_list_zero) (rule empty_hold [OF cov empty_tasks [OF e]])
  ultimately have "held st s = 0" by (simp add: held_def)
  moreover have "used_of (sc_mgr st) s = held st s + 0"
    using led unfolding ledger_def by blast
  ultimately show "used_of (sc_mgr st) s = 0" by simp
  show "mgr_wf (sc_mgr st)" by (rule wf)
qed

section \<open>The start\<close>

definition fresh_stages :: "env \<Rightarrow> kv_mgr \<Rightarrow> stage list \<Rightarrow> bool" where
  "fresh_stages E m sgs \<longleftrightarrow> mgr_wf m \<and> distinct (map sg_id sgs) \<and> (\<forall>s. used_of m s = 0) \<and>
     (\<forall>sg \<in> set sgs. registered m (sg_id sg) \<and> sg_operators sg \<noteq> [] \<and>
        nonneg_estimates E sg)"

lemma enqueue_all_frame:
  "sg_id (fold (\<lambda>t sg. enqueue sg t) ts sg) = sg_id sg"
  "sg_operators (fold (\<lambda>t sg. enqueue sg t) ts sg) = sg_operators sg"
  "sg_running (fold (\<lambda>t sg. enqueue sg t) ts sg) = sg_running sg"
  "sg_fanout (fold (\<lambda>t sg. enqueue sg t) ts sg) = sg_fanout sg"
  "sg_bpt (fold (\<lambda>t sg. enqueue sg t) ts sg) = sg_bpt sg"
  by (induction ts arbitrary: sg) simp_all

lemma clear_frame [simp]:
  "sg_id (clear_tasks sg) = sg_id sg" "sg_operators (clear_tasks sg) = sg_operators sg"
  "sg_running (clear_tasks sg) = []" "sg_waiting (clear_tasks sg) = []" "sg_fanout (clear_tasks sg) = sg_fanout sg"
  "sg_bpt (clear_tasks sg) = sg_bpt sg"
  by (simp_all add: clear_tasks_def)

lemma sched_init_empty:
  assumes "fresh_stages E m sgs"
  shows "balanced E (map (\<lambda>sg. (sg_id sg, sg_operators sg, sg_fanout sg)) sgs) (sched_init [] sgs m w n)"
proof -
  let ?st = "sched_init [] sgs m w n"
  have st: "sc_stages ?st = map clear_tasks sgs" "sc_active ?st = []" "sc_mgr ?st = m" "sc_trackers ?st = []"
    by (cases sgs; simp add: sched_init_def Let_def)+
  have stg: "stages_ok E ?st"
    using assms nonneg_estimates_cong [of "clear_tasks _" _ E]
    by (simp add: stages_ok_def st fresh_stages_def stage_ok_def comp_def)
  have M: "task_mset ?st = {#}" by (simp add: task_mset_def st)
  have "held ?st s = 0" for s
    unfolding held_def st by (simp add: run_sum_def sum_list_zero)
  then have led: "ledger settled ?st"
    using assms by (simp add: ledger_def st fresh_stages_def)
  have "sched_inv E settled settled ?st"
    using stg led by (simp add: sched_inv_def trackers_ok_def tasks_ok_def M running_ok_def covered_def st)
  moreover have "shape ?st = map (\<lambda>sg. (sg_id sg, sg_operators sg, sg_fanout sg)) sgs"
    by (simp add: shape_def st)
  ultimately show ?thesis by (simp add: balanced_def inv_in_def st)
qed

lemma sched_init_snoc:
  "sched_init (cs @ [c]) (sg # sgs) m w n =
     (let st = sched_init cs (sg # sgs) m w n in
      upd_stage 0 (\<lambda>sg. enqueue sg (new_task c 0 [] (sc_next_id st))) (st\<lparr>sc_next_id := Suc (sc_next_id st)\<rparr>))"
  by (simp add: sched_init_def Let_def upd_stage_def enumerate_append_eq)

lemma sched_init_balanced:
  assumes "fresh_stages E m sgs"
  shows "balanced E (map (\<lambda>sg. (sg_id sg, sg_operators sg, sg_fanout sg)) sgs) (sched_init ctxs sgs m w n)"
proof (cases sgs)
  case Nil
  then have "sched_init ctxs sgs m w n = sched_init [] sgs m w n" by (simp add: sched_init_def)
  then show ?thesis using sched_init_empty [OF assms] by simp
next
  case (Cons sg rest)
  let ?S = "map (\<lambda>sg. (sg_id sg, sg_operators sg, sg_fanout sg)) sgs"
  show ?thesis
  proof (induction ctxs rule: rev_induct)
    case Nil
    then show ?case by (rule sched_init_empty [OF assms])
  next
    case (snoc c cs)
    let ?st = "sched_init cs sgs m w n"
    note inv = balanced_inv [OF snoc]
    have len: "0 < length (sc_stages ?st)" using inv_length [OF inv] Cons by simp
    have "settled_in E (sc_active ?st) ?S 0
      (upd_stage 0 (\<lambda>sg. enqueue sg (new_task c 0 [] (sc_next_id ?st))) (?st\<lparr>sc_next_id := Suc (sc_next_id ?st)\<rparr>))"
      using inv_enqueue [OF inv len, of "new_task c 0 [] (sc_next_id ?st)"] inv_stage_facts(5) [OF inv, of 0] Cons
        settle_all [of "[]"]
      by (simp add: new_task_def)
    then have "balanced E ?S (upd_stage 0 (\<lambda>sg. enqueue sg (new_task c 0 [] (sc_next_id ?st)))
        (?st\<lparr>sc_next_id := Suc (sc_next_id ?st)\<rparr>))" by (rule balancedI)
    then show ?case unfolding Cons sched_init_snoc Let_def by simp
  qed
qed

end
