(* ===== verification/Pipeline_Term.thy ===== *)
theory Pipeline_Term
  imports Pipeline_Run "HOL-Library.Multiset_Order"
begin

text \<open>
  The scheduler always returns. A task weighs the stages it has left, the operators it has
  left in its stage, and whether its next operator may still ask for a retry; collecting a
  task replaces it by tasks that weigh less.
\<close>

section \<open>Weights\<close>

type_synonym shapes = "(int \<times> phys_op list \<times> phys_op option) list"

text \<open>The next operator has been retried: its context carries the full token limit for it.\<close>

definition flagged :: "phys_op list \<Rightarrow> nat \<Rightarrow> sem_context \<Rightarrow> bool" where
  "flagged ops i ctx \<longleftrightarrow> i < length ops \<and> retry_op_position (state ctx) = position (ops ! i) \<and>
     retry_max_tokens (state ctx) = MAX_TOKEN_LIMIT"

definition task_weight :: "shapes \<Rightarrow> task \<Rightarrow> nat \<times> nat \<times> nat" where
  "task_weight S t =
     (let ops = fst (snd (S ! t_stage_index t)) in
      (length S - t_stage_index t, length ops - t_op_index t,
       if flagged ops (t_op_index t) (t_ctx t) then 0 else 1))"

definition weights :: "shapes \<Rightarrow> sched \<Rightarrow> (nat \<times> nat \<times> nat) multiset" where
  "weights S st = image_mset (task_weight S) (task_mset st)"

definition adds :: "shapes \<Rightarrow> nat \<times> nat \<times> nat \<Rightarrow> (nat \<times> nat \<times> nat) multiset \<Rightarrow> sched \<Rightarrow> bool" where
  "adds S x W st \<longleftrightarrow> length (sc_stages st) = length S \<and> (\<exists>K. weights S st = W + K \<and> (\<forall>k \<in># K. k < x))"

lemma adds_cong:
  "sc_stages st' = sc_stages st \<Longrightarrow> sc_active st' = sc_active st \<Longrightarrow> adds S x W st' = adds S x W st"
  by (simp add: adds_def weights_def task_mset_def)

lemma adds_frame [keeps_intros]:
  "keeps (adds S x W) (pmodify (upd_tracker k f))"
  "keeps (adds S x W) (pmodify (record_output i n))"
  "keeps (adds S x W) (pmodify (record_retry i))"
  "keeps (adds S x W) (pmodify (release_deferred_parent i b))"
  "keeps (adds S x W) (pmodify (new_tracker c n i b))"
  "keeps (adds S x W) (pmodify (\<lambda>st. st\<lparr>sc_out := sc_out st @ xs\<rparr>))"
  "keeps (adds S x W) (world_op p)"
  "keeps (adds S x W) (mgr_op g)"
  "keeps (adds S x W) fresh_id"
  unfolding keeps_def
  by (auto simp: upd_tracker_def record_output_def record_retry_def release_deferred_parent_def
      new_tracker_def add_deferred_parent_def world_op_def mgr_op_def fresh_id_def
      split: prod.splits sum.splits elim!: iffD1 [OF adds_cong, rotated 2])

lemma adds_rebalance [keeps_intros]: "keeps (adds S x W) rebalance_stages"
proof -
  have "adds S x W (st\<lparr>sc_stages := map (tune_thresholds m) (sc_stages st)\<rparr>) = adds S x W st" for m st
    by (simp add: adds_def weights_def task_mset_def comp_def)
  then show ?thesis
    unfolding keeps_def rebalance_stages_def Let_def
    by (auto intro!: keepsD [OF adds_frame(8)])
qed

lemma adds_finalize [keeps_intros]:
  "keeps (adds S x W) (release_stage_op s b)"
  "keeps (adds S x W) (finalize_task t)"
proof -
  show r: "keeps (adds S x W) (release_stage_op s b)" for s b
    unfolding release_stage_op_def by (rule keeps_intros)
  have "keeps (adds S x W) (child_finished k)" for k
    unfolding child_finished_def finalize_tracker_def by (intro keeps_intros r)
  then have "keeps (adds S x W) (finalize_trackers ks)" for ks
    by (induction ks) (auto intro: keeps_intros)
  then show "keeps (adds S x W) (finalize_task t)" by (simp add: finalize_task_def)
qed

lemma adds_enqueue:
  assumes "j < length S" "task_weight S t < x"
  shows "keeps (adds S x W) (enqueue_at j t)"
  unfolding enqueue_at_def
proof (rule keeps_modify)
  fix st assume a: "adds S x W st"
  then have j: "j < length (sc_stages st)" using assms(1) by (simp add: adds_def)
  have "task_mset (upd_stage j (\<lambda>sg. enqueue sg t) st) = add_mset t (task_mset st)"
    using mset_update_stage [OF j, of "enqueue (sc_stages st ! j) t"] by (simp add: task_mset_def upd_stage_def)
  moreover obtain K where "weights S st = W + K" "\<forall>k \<in># K. k < x" using a by (auto simp: adds_def)
  ultimately show "adds S x W (upd_stage j (\<lambda>sg. enqueue sg t) st)"
    using a assms(2) unfolding adds_def weights_def
    by (auto simp: upd_stage_def intro!: exI [of _ "add_mset (task_weight S t) K"])
qed

lemma adds_pass_on:
  assumes "length S - j < fst x"
  shows "keeps (adds S x W) (pass_on ctx j ks)"
proof -
  have lt: "task_weight S (new_task ctx j ks n) < x" for n
    using assms by (cases x) (auto simp: task_weight_def new_task_def Let_def less_prod_def)
  have "keeps (adds S x W) (let t = new_task ctx j ks n in
     if j \<ge> length S
     then pbind (pmodify (\<lambda>st. st\<lparr>sc_out := sc_out st @ [ctx]\<rparr>)) (\<lambda>_. finalize_task t)
     else enqueue_at j t)" for n
    using lt adds_enqueue [of j S] by (auto simp: Let_def not_le intro!: keeps_intros)
  then show ?thesis
    using keepsD [OF adds_frame(9)] unfolding pass_on_def keeps_def
    by (auto simp: pbind_apply fresh_id_def Let_def adds_def)
qed

lemma adds_pass_all:
  assumes "length S - j < fst x"
  shows "keeps (adds S x W) (pass_all cs j ks)"
proof (induction cs)
  case Nil
  show ?case unfolding pass_all.simps by (rule keeps_intros)
next
  case (Cons c cs)
  then show ?case unfolding pass_all.simps by (intro keeps_bind adds_pass_on [OF assms])
qed

section \<open>Retries\<close>

definition no_retry :: "(op_result \<times> sem_context) prog \<Rightarrow> bool" where
  "no_retry p \<longleftrightarrow> (\<forall>w c w'. p w \<noteq> (Inr (RETRY_TASK, c), w'))"

named_theorems no_retry_intros

lemma no_retry_rules [no_retry_intros]:
  "(\<And>a. no_retry (f a)) \<Longrightarrow> no_retry (pbind s f)"
  "r \<noteq> RETRY_TASK \<Longrightarrow> no_retry (pret (r, c))"
  "no_retry (praise e)"
  "no_retry p \<Longrightarrow> no_retry q \<Longrightarrow> no_retry (if b then p else q)"
  "no_retry p \<Longrightarrow> (\<And>a. no_retry (g a)) \<Longrightarrow> no_retry (case x of None \<Rightarrow> p | Some a \<Rightarrow> g a)"
  "(\<And>a b. no_retry (h a b)) \<Longrightarrow> no_retry (case y of (a, b) \<Rightarrow> h a b)"
  by (auto simp: no_retry_def py_simps split: option.splits prod.splits)

lemma no_retry_output [no_retry_intros]: "no_retry (handle_output op ctx out)"
  unfolding handle_output_def Let_def by (intro no_retry_intros) simp

lemma no_retry_ops [no_retry_intros]:
  "no_retry (filter_run_single E op i mx pr ctx)"
  "no_retry (icp_finish op rb sc b ctx)"
  "no_retry (cascade_finish op p v b rb pr2 ctx)"
  "no_retry (classify_call E op cl mx i pr ctx)"
  "no_retry (indexed_search_call E cfg ctx)"
  unfolding filter_run_single_def icp_finish_def cascade_finish_def classify_call_def indexed_search_call_def Let_def
  by (intro no_retry_intros | simp)+

lemma map_call_retry:
  assumes "map_call E op i pr ctx w = (Inr (RETRY_TASK, c), w')"
  shows "map_run_single E op i pr ctx w = (Inr (RETRY_TASK, c), w')"
  using assms no_retry_output unfolding no_retry_def
  by (auto simp: map_call_def py_simps split: if_splits prod.splits)

text \<open>Only \<open>SemMap\<close> asks for a retry.\<close>

lemma op_call_retry:
  assumes "op_call E op pr ctx w = (Inr (RETRY_TASK, c), w')"
  shows "\<exists>i. kind op = SemMap i \<and> map_run_single E op i pr ctx w = (Inr (RETRY_TASK, c), w')"
proof (cases "\<exists>i. kind op = SemMap i")
  case True
  with assms show ?thesis by (auto simp: op_call_def dest: map_call_retry)
next
  case False
  have "no_retry (op_call E op pr ctx)"
    using False unfolding op_call_def icp_filter_call_def cascade_call_def Let_def
    by (cases "kind op") (auto intro!: no_retry_intros)
  with assms show ?thesis by (simp add: no_retry_def)
qed

lemma run_ops_retry_progress:
  assumes "run_ops (op_call E) off retry i (drop i ops) ctx w = (Inr (TaskRetry (RetryTaskResult c j b)), w')"
    "i \<le> length ops"
  shows "flagged ops j c \<and> (i < j \<or> i = j \<and> \<not> flagged ops i ctx)"
  using assms
proof (induction "drop i ops" arbitrary: retry i ctx w)
  case Nil
  then show ?case by (metis Inr_inject fst_conv prog_simps(1) run_ops.simps(1) task_result.distinct(3))
next
  case (Cons op rest)
  have i: "i < length ops" using Cons.hyps(2) by (metis drop_all list.distinct(1) not_le)
  have "op # rest = ops ! i # drop (Suc i) ops"
    using Cons.hyps(2) Cons_nth_drop_Suc [OF i] by simp
  then have op: "op = ops ! i" and rest: "rest = drop (Suc i) ops" by simp_all
  let ?pr = "case retry of Some p \<Rightarrow> p | None \<Rightarrow> - (off + int i)"
  from Cons.prems(1) obtain r c1 w1 where 1: "op_call E op ?pr ctx w = (Inr (r, c1), w1)"
    and 2: "(case r of RETRY_TASK \<Rightarrow> pret (TaskRetry (RetryTaskResult c1 i False))
        | Verdict False \<Rightarrow> pret TaskDropped
        | _ \<Rightarrow> run_ops (op_call E) off None (Suc i) rest c1) w1 = (Inr (TaskRetry (RetryTaskResult c j b)), w')"
    unfolding Cons.hyps(2) [symmetric] by (auto simp: Let_def py_simps)
  show ?case
  proof (cases "r = RETRY_TASK")
    case True
    then obtain ins where m: "map_run_single E op ins ?pr ctx w = (Inr (RETRY_TASK, c1), w1)"
      using op_call_retry 1 by blast
    have j: "j = i" "c = c1" using 2 True by auto
    have "flagged ops i c1" using map_retry_sets [OF m] i op by (simp add: flagged_def)
    moreover have "\<not> flagged ops i ctx"
      using map_no_second_retry [OF _ _ m] op by (auto simp: flagged_def)
    ultimately show ?thesis using j by simp
  next
    case False
    with 2 have "run_ops (op_call E) off None (Suc i) (drop (Suc i) ops) c1 w1 =
        (Inr (TaskRetry (RetryTaskResult c j b)), w')"
      unfolding rest by (cases r) (auto split: bool.splits)
    from Cons.hyps(1) [OF rest this] i show ?thesis by auto
  qed
qed

section \<open>Collecting makes the tasks lighter\<close>

lemma adds_less: "adds S x W st \<Longrightarrow> weights S st < add_mset x W"
proof -
  assume "adds S x W st"
  then obtain K where K: "weights S st = W + K" "\<forall>k \<in># K. k < x" by (auto simp: adds_def)
  have "K < {#x#}" using K(2) by (simp add: mset_lt_single_right_iff)
  then have "W + K < W + {#x#}" by (rule add_strict_left_mono)
  with K(1) show ?thesis by simp
qed

lemma adds_finish:
  assumes "i < length S" "t_stage_index t = i" "fst x = length S - i"
  shows "keeps (adds S x W) (finish_dropped i t b)" "keeps (adds S x W) (finish_failed i b e)"
    "keeps (adds S x W) (finish_done E i t b ctx)"
proof -
  have lt: "length S - Suc i < fst x" using assms by simp
  show "keeps (adds S x W) (finish_dropped i t b)" "keeps (adds S x W) (finish_failed i b e)"
    unfolding finish_dropped_def finish_failed_def by (intro keeps_intros)+
  have "keeps (adds S x W) (finish_fanout E i t b op ctx)" for op
    unfolding finish_fanout_def assms(2) by (intro keeps_intros adds_pass_all [OF lt])
  then show "keeps (adds S x W) (finish_done E i t b ctx)"
    unfolding finish_done_def assms(2) by (intro keeps_intros adds_pass_on [OF lt])
qed

lemma adds_finish_retry:
  assumes "i < length S" "t_stage_index t = i"
    and x: "\<And>p n. task_weight S \<lparr>t_ctx = rt_ctx rt, t_stage_index = i, t_trackers = t_trackers t,
        t_op_index = rt_op_index rt, t_retry_priority = p,
        t_reserved = (if rt_retain_budget rt then b else 0), t_id = n\<rparr> < x"
  shows "keeps (adds S x W) (finish_retry i t b rt)"
  unfolding finish_retry_def assms(2) using x assms(1) by (intro keeps_intros adds_enqueue) simp_all

lemma collect_lighter:
  assumes it: "(i, t) \<in> set A" and inv: "settled_in E A S N st" and c: "collect E (i, t) st = (Inr a, st')"
  shows "weights S st' < weights S st"
proof -
  obtain b st1 where o: "owner S (length (sc_trackers st)) i t b"
    and w: "owing E [p \<leftarrow> A. t_id (snd p) \<noteq> t_id t] S (length (sc_trackers st)) i t b st1"
    and ops: "sg_operators (sc_stages st1 ! i) = fst (snd (S ! i))" "t_op_index t < length (fst (snd (S ! i)))"
    and M: "task_mset st = add_mset t (task_mset st1)"
    and col: "collect E (i, t) st = (case run_task E (sc_stages st1 ! i) t (sc_world st1) of
          (Inl e, w) \<Rightarrow> finish_failed i b e (st1\<lparr>sc_world := w\<rparr>)
        | (Inr (TaskRetry rt), w) \<Rightarrow> finish_retry i t b rt (st1\<lparr>sc_world := w\<rparr>)
        | (Inr TaskDropped, w) \<Rightarrow> finish_dropped i t b (st1\<lparr>sc_world := w\<rparr>)
        | (Inr (TaskDone ctx), w) \<Rightarrow> finish_done E i t b ctx (st1\<lparr>sc_world := w\<rparr>))"
    by (rule collect_detached [OF it inv])
  let ?x = "task_weight S t" and ?W = "weights S st1" and ?ops = "fst (snd (S ! i))"
  have i: "i < length S" and ti: "t_stage_index t = i" using o by (simp_all add: owner_def)
  have x: "fst ?x = length S - i" by (simp add: task_weight_def ti Let_def)
  have a1: "adds S ?x ?W (st1\<lparr>sc_world := w\<rparr>)" for w
    using inv_length [OF w [unfolded owing_def]]
    by (subst adds_cong [of _ st1]) (auto simp: adds_def intro!: exI [of _ "{#}"])
  have st': "st' = snd (collect E (i, t) st)" using c by simp
  have "adds S ?x ?W st'"
  proof (cases "run_task E (sc_stages st1 ! i) t (sc_world st1)")
    case (Pair r w')
    have retry: "keeps (adds S ?x ?W) (finish_retry i t b rt)" if "r = Inr (TaskRetry rt)" for rt
    proof -
      obtain cx j rb where rt: "rt = RetryTaskResult cx j rb" by (cases rt)
      have "flagged ?ops j cx \<and> (t_op_index t < j \<or> t_op_index t = j \<and>
          \<not> flagged ?ops (t_op_index t) (set_stage (sg_id (sc_stages st1 ! i)) (t_ctx t)))"
        using Pair that ops unfolding rt run_task_def by (intro run_ops_retry_progress) simp_all
      then have "task_weight S \<lparr>t_ctx = rt_ctx rt, t_stage_index = i, t_trackers = t_trackers t,
        t_op_index = rt_op_index rt, t_retry_priority = p,
        t_reserved = (if rt_retain_budget rt then b else 0), t_id = n\<rparr> < ?x" for p n
        using ops(2) ti by (auto simp: task_weight_def Let_def rt less_prod_def flagged_def set_stage_def)
      then show ?thesis by (rule adds_finish_retry [OF i ti])
    qed
    from Pair retry adds_finish [OF i ti x] a1 show ?thesis
      unfolding st' col by (auto split: sum.split task_result.split intro: keepsD)
  qed
  then show ?thesis using adds_less M by (simp add: weights_def)
qed

lemma collect_all_lighter:
  assumes "set its \<subseteq> set A" "distinct (map (\<lambda>p. t_id (snd p)) its)" "its \<noteq> []"
    "settled_in E A S N st" "collect_all E its st = (Inr a, st')"
  shows "weights S st' < weights S st"
  using assms
proof (induction its arbitrary: A st)
  case (Cons it its)
  obtain i t where it: "it = (i, t)" by (cases it)
  let ?A = "[p \<leftarrow> A. t_id (snd p) \<noteq> t_id t]"
  have inA: "(i, t) \<in> set A" using Cons.prems(1) it by simp
  from Cons.prems(5) it obtain a1 st1 where 1: "collect E (i, t) st = (Inr a1, st1)"
    and 2: "collect_all E its st1 = (Inr a, st')" by (auto simp: py_simps)
  note l = collect_lighter [OF inA Cons.prems(4) 1]
  show ?case
  proof (cases its)
    case Nil
    with l 2 show ?thesis by simp
  next
    case (Cons it2 its2)
    have "set its \<subseteq> set ?A" using Cons.prems(1,2) it by force
    with Cons.prems Cons 2 triD [OF tri_collect [OF inA] Cons.prems(4) 1]
    have "weights S st' < weights S st1" by (intro Cons.IH [of ?A]) simp_all
    with l show ?thesis by (rule less_trans [rotated])
  qed
qed simp

section \<open>The loop ends\<close>

definition load :: "shapes \<Rightarrow> sched \<Rightarrow> (nat \<times> nat \<times> nat) multiset \<times> nat" where
  "load S st = (weights S st, size (task_mset st) - length (sc_active st))"

lemma rebalance_task_mset:
  assumes "mgr_wf (sc_mgr st)" "rebalance_stages st = (Inr a, st')"
  shows "task_mset st' = task_mset st"
  using rebalance_stages_total [OF assms(1)] assms(2) by (auto simp: task_mset_def comp_def)

lemma active_le: "length (sc_active st) \<le> size (task_mset st)"
  by (simp add: task_mset_def)

lemma each_force_active:
  "each_stage (force_stage E) js st = (Inr a, st') \<Longrightarrow> \<exists>A'. sc_active st' = sc_active st @ A'"
proof (induction js arbitrary: st)
  case (Cons j js)
  from Cons.prems obtain a1 st1 where 1: "force_stage E j st = (Inr a1, st1)"
    and 2: "each_stage (force_stage E) js st1 = (Inr a, st')" by (auto simp: py_simps)
  have "\<exists>A1. sc_active st1 = sc_active st @ A1"
    using 1 by (auto simp: force_stage_def force_accept_op_def py_simps upd_stage_def
        split: option.splits sum.splits prod.splits)
  with Cons.IH [OF 2] show ?case by auto
qed simp

lemma sched_round_lighter:
  assumes amb: "ambient m st" and bal: "balanced E S st" and r: "sched_round E pick st = (Inr True, st')"
  shows "load S st' < load S st"
proof -
  note inv = balanced_inv [OF bal]
  from r have "\<not> (\<not> has_pending_work st \<and> sc_active st = [])" by (auto simp: sched_round_def)
  with r obtain a1 st1 a2 st2 where 1: "rebalance_stages st = (Inr a1, st1)"
      and 2: "launch_ready_tasks E st1 = (Inr a2, st2)"
      and 3: "(if sc_active st2 = []
             then if has_pending_work st2
                  then pbind (force_launch_blocked_tasks E) (\<lambda>forced.
                         if forced then pret True else praise RuntimeError) st2
                  else (Inr False, st2)
             else pbind (collect_all E (done_tasks pick st2)) (\<lambda>_. pret True) st2) = (Inr True, st')"
    by (auto simp: sched_round_def py_simps)
  have M1: "task_mset st1 = task_mset st" by (rule rebalance_task_mset [OF inv_mgr(1) [OF inv] 1])
  have inv1: "settled_in E (sc_active st) S 0 st1" by (rule triD [OF tri_rebalance inv 1])
  have "ambient m st1" using keepsD [OF ambient_rebalance amb] 1 by simp
  from launch_ready_balanced [OF inv1 2 this] obtain A' where A': "settled_in E (sc_active st @ A') S 0 st2"
    and M2: "task_mset st2 = task_mset st1" and amb2: "ambient m st2" by blast
  note inv2 = balanced_inv [OF balancedI [OF A']]
  have W: "weights S st2 = weights S st" by (simp add: weights_def M1 M2)
  show ?thesis
  proof (cases "sc_active st2 = []")
    case True
    then have A: "sc_active st = []" using A' by (simp add: inv_in_def)
    from 3 True obtain f: "force_launch_blocked_tasks E st2 = (Inr True, st')"
      by (auto simp: py_simps split: if_splits)
    have "weights S st' = weights S st"
      using force_launch_balanced(3) [OF inv2 f amb2] W by (simp add: weights_def)
    moreover have "sc_active st' \<noteq> []"
      using f True by (auto simp: force_launch_blocked_tasks_def split: prod.splits sum.splits)
    moreover have "size (task_mset st') = size (task_mset st)"
      using force_launch_balanced(3) [OF inv2 f amb2] M1 M2 by simp
    ultimately show ?thesis
      using A active_le [of st'] by (cases "sc_active st'") (auto simp: load_def less_prod_def)
  next
    case False
    with 3 obtain a where c: "collect_all E (done_tasks pick st2) st2 = (Inr a, st')" by (auto simp: py_simps)
    have "weights S st' < weights S st2"
      using collect_all_lighter [OF done_tasks_ok(1,2) [OF inv2] done_tasks_ok(3) [OF inv2 False] inv2 c] .
    with W show ?thesis by (simp add: load_def less_prod_def)
  qed
qed

lemma run_rounds_end:
  assumes grow: "templates_grow (ev_tk E)"
  shows "ambient m st \<Longrightarrow> balanced E S st \<Longrightarrow> \<exists>fuel r st'. run_rounds E pick fuel st = Some (r, st')"
proof (induction "load S st" arbitrary: st rule: less_induct)
  case less
  obtain r st1 where r: "sched_round E pick st = (r, st1)" by (cases "sched_round E pick st")
  show ?case
  proof (cases "r = Inr True")
    case True
    with r have r': "sched_round E pick st = (Inr True, st1)" by simp
    from less.hyps [OF sched_round_lighter [OF less.prems r'] sched_round_balanced(2,1) [OF grow less.prems r']]
    obtain fuel r2 st2 where "run_rounds E pick fuel st1 = Some (r2, st2)" by blast
    then have "run_rounds E pick (Suc fuel) st = Some (r2, st2)" by (simp add: r')
    then show ?thesis by blast
  next
    case False
    then have "\<exists>r2. run_rounds E pick (Suc 0) st = Some (r2, st1)"
      using r by (cases r) (auto split: bool.splits)
    then show ?thesis by blast
  qed
qed

lemma run_rounds_more:
  "run_rounds E pick fuel st = Some x \<Longrightarrow> run_rounds E pick (fuel + n) st = Some x"
  by (induction fuel arbitrary: st) (auto split: prod.splits sum.splits bool.splits)

section \<open>Properties\<close>

definition demo_pipeline :: "stage list" where
  "demo_pipeline = [stage_builder [demo_filter] 1 0 2, stage_builder [demo_map] 2 1 2]"

definition demo_kv :: kv_mgr where
  "demo_kv = register_stage (register_stage (kv_mgr_init 2 100000) 1 (1/2) (Some 0) (Some 1) None) 2 (1/2) (Some 0) (Some 1) None"

definition demo_start :: sched where
  "demo_start = sched_init [demo_ctx] demo_pipeline demo_kv demo_world 0"

lemma demo_ops:
  "limits_ok demo_filter" "limits_ok demo_map" "behavior demo_filter = TUPLE_INDEPENDENT" "behavior demo_map = TUPLE_INDEPENDENT"
  by (simp_all add: limits_ok_def demo_behaviors)
     (simp_all add: demo_filter_def demo_map_def sem_filter_init_def sem_map_init_def base_op_def)

lemma demo_fresh: "fresh_stages E demo_kv demo_pipeline"
proof -
  have "nonneg_estimates E sg" if "sg \<in> set demo_pipeline" for sg
    using that by (intro nonneg_stage) (auto simp: demo_pipeline_def stage_builder_def demo_ops)
  then show ?thesis
    by (simp add: fresh_stages_def demo_pipeline_def demo_kv_def wf_register mgr_wf_def kv_mgr_init_def
        registered_register) (simp add: stage_builder_def register_stage_def Let_def dwf_def dget_def)
qed

lemma demo_grow: "templates_grow (ev_tk (demo_env a))"
  by (simp add: templates_grow_def prompt_tokens_def apply_chat_template_def demo_env_def)

lemma demo_ratios: "estimator_wf (w_estimator demo_world)"
  by (simp add: estimator_wf_def demo_world_def dwf_def)

lemma fresh_ambient:
  "fresh_stages E m sgs \<Longrightarrow> estimator_wf (w_estimator w) \<Longrightarrow> ambient m (sched_init ctxs sgs m w k)"
  by (simp add: ambient_def sched_init_def Let_def frame_refl fresh_stages_def est_ok_def)

text \<open>
  C4. The scheduler returns: whatever the operators answer and in whichever order the tasks
  finish, a run over stages whose budget estimates are not negative ends after finitely many
  turns of the main loop, with its result or with an exception of an operator. The tokenizer is
  relied on not to give fewer tokens to a conversation with a message more.
\<close>

theorem sched_terminates:
  assumes "templates_grow (ev_tk E)" "estimator_wf (w_estimator w)" "fresh_stages E m sgs"
  shows "\<exists>n. \<forall>fuel \<ge> n. \<exists>r st'. run_rounds E pick fuel (sched_init ctxs sgs m w k) = Some (r, st')"
proof -
  obtain n r st' where "run_rounds E pick n (sched_init ctxs sgs m w k) = Some (r, st')"
    using run_rounds_end [OF assms(1) fresh_ambient [OF assms(3,2)] sched_init_balanced [OF assms(3)]] by blast
  then have "\<forall>fuel \<ge> n. run_rounds E pick fuel (sched_init ctxs sgs m w k) = Some (r, st')"
    by (metis le_add_diff_inverse run_rounds_more)
  then show ?thesis by blast
qed

theorem sched_terminates_witness:
  "fresh_stages (demo_env ''TRUE'') demo_kv demo_pipeline \<and>
   (\<exists>n. \<forall>fuel \<ge> n. \<exists>r st'. run_rounds (demo_env ''TRUE'') (\<lambda>_. []) fuel
      (sched_init [demo_ctx, demo_ctx] demo_pipeline demo_kv demo_world 0) = Some (r, st'))"
  using sched_terminates [OF demo_grow demo_ratios demo_fresh] demo_fresh by blast

lemma run_rounds_clean:
  assumes "templates_grow (ev_tk E)" "estimator_wf (w_estimator w)" "fresh_stages E m sgs"
    "run_rounds E pick fuel (sched_init ctxs sgs m w k) = Some (Inr (), st')"
  shows "sc_active st' = [] \<and> \<not> has_pending_work st' \<and> (\<forall>s. used_of (sc_mgr st') s = 0) \<and> ambient m st'"
proof -
  let ?S = "map (\<lambda>sg. (sg_id sg, sg_operators sg, sg_fanout sg)) sgs"
  have b: "balanced E ?S st' \<and> ambient m st' \<and> sc_active st' = [] \<and> \<not> has_pending_work st'"
    by (rule run_rounds_balanced [OF assms(1) fresh_ambient [OF assms(3,2)] sched_init_balanced [OF assms(3)] assms(4)])
  then show ?thesis using balanced_empty [of E ?S st'] by blast
qed

text \<open>
  C2. The scheduler gives back what it took: when a run over stages with non-negative budget
  estimates starts with no bytes in use and returns normally, no task is left in flight or in a
  queue, and the bytes in use of every stage are zero again, those held back for the parents of
  fanned-out tasks included. The tokenizer is relied on not to give fewer tokens to a
  conversation with a message more.
\<close>

theorem sched_returns_budgets:
  assumes "templates_grow (ev_tk E)" "estimator_wf (w_estimator w)" "fresh_stages E m sgs"
    "run_rounds E pick fuel (sched_init ctxs sgs m w k) = Some (Inr (), st')"
  shows "sc_active st' = [] \<and> \<not> has_pending_work st' \<and> (\<forall>s. used_of (sc_mgr st') s = 0)"
  using run_rounds_clean [OF assms] by blast

lemma demo_run:
  "case run_rounds (demo_env ''TRUE'') (\<lambda>_. []) 3 demo_start of
     Some (Inr _, st) \<Rightarrow> length (sc_out st) = 1 | _ \<Rightarrow> False"
  by code_simp

lemma returned_case:
  "(case x of Some (Inr _, st) \<Rightarrow> P st | _ \<Rightarrow> False) \<Longrightarrow> \<exists>st. x = Some (Inr (), st) \<and> P st"
  by (cases x; cases "the x"; cases "fst (the x)") simp_all

theorem sched_returns_budgets_witness:
  "\<exists>st'. run_rounds (demo_env ''TRUE'') (\<lambda>_. []) 3 (sched_init [demo_ctx] demo_pipeline demo_kv demo_world 0) = Some (Inr (), st') \<and>
     length (sc_out st') = 1 \<and> used_of (sc_mgr st') 1 = 0 \<and> used_of (sc_mgr st') 2 = 0"
proof -
  obtain st' where r: "run_rounds (demo_env ''TRUE'') (\<lambda>_. []) 3 (sched_init [demo_ctx] demo_pipeline demo_kv demo_world 0) =
      Some (Inr (), st')" and n: "length (sc_out st') = 1"
    using returned_case [OF demo_run] unfolding demo_start_def by blast
  have "used_of (sc_mgr st') 1 = 0" "used_of (sc_mgr st') 2 = 0"
    using sched_returns_budgets [OF demo_grow demo_ratios demo_fresh r] by blast+
  with r n show ?thesis by blast
qed

lemma each_force_launches:
  assumes "each_stage (force_stage E) js st = (Inr a, st')"
  shows "sc_active st' = sc_active st \<longleftrightarrow> (\<forall>j \<in> set js. sg_waiting (sc_stages st ! j) = [])"
  using assms
proof (induction js arbitrary: st)
  case (Cons j js)
  from Cons.prems obtain a1 st1 where 1: "force_stage E j st = (Inr a1, st1)"
    and 2: "each_stage (force_stage E) js st1 = (Inr a, st')" by (auto simp: py_simps)
  show ?case
  proof (cases "sg_waiting (sc_stages st ! j)")
    case Nil
    with 1 have "st1 = st" by (simp add: force_stage_def peek_task_def)
    with Cons.IH [OF 2] Nil show ?thesis by simp
  next
    case (Cons t ts)
    with 1 obtain t1 where "sc_active st1 = sc_active st @ [(j, t1)]"
      by (auto simp: force_stage_def peek_task_def force_accept_op_def py_simps upd_stage_def
          split: sum.splits prod.splits)
    with each_force_active [OF 2] Cons show ?thesis by auto
  qed
qed simp

lemma pending_indices:
  "has_pending_work st \<longleftrightarrow> \<not> (\<forall>j \<in> set [0..<length (sc_stages st)]. sg_waiting (sc_stages st ! j) = [])"
  unfolding has_pending_work_def has_waiting_tasks_def set_upt by (metis atLeastLessThan_iff in_set_conv_nth zero_le)

text \<open>
  C26. The scheduler is never stuck: the forced launch answers that it launched something
  exactly when some stage has a waiting task, so the error for a queue without a runnable
  task cannot occur.
\<close>

theorem force_launch_progress:
  "case force_launch_blocked_tasks E st of (Inl _, _) \<Rightarrow> True | (Inr forced, _) \<Rightarrow> forced = has_pending_work st"
  unfolding force_launch_blocked_tasks_def pending_indices
  using each_force_launches [of E "[0..<length (sc_stages st)]" st] by (auto split: prod.split sum.split)

end
