(* ===== verification/Blocking.thy ===== *)
theory Blocking
  imports Pipeline_Term
begin

text \<open>
  The executor of blocking operators (\<open>BlockingExecutor\<close> of
  \<open>kalypso/execution/pipeline_execution.py\<close>): a submitter that admits tasks against the global
  account of the KV manager, a bounded queue and a pool of workers. The programs of this theory
  may also wait forever, which is the value \<open>None\<close>. Which of the possible moves comes next is an
  argument, a choice for every tick of a clock: the submitter admits the next task, a worker takes
  a task off the queue, or a running task ends.
\<close>

section \<open>Programs that may wait forever\<close>

record bworld =
  bw_mgr :: kv_mgr
  bw_world :: world
  bw_tick :: nat
  bw_next_id :: nat

type_synonym 'a bprog = "bworld \<Rightarrow> ('a res \<times> bworld) option"

definition bret :: "'a \<Rightarrow> 'a bprog" where
  "bret a s = Some (Inr a, s)"

definition blift :: "'a res \<Rightarrow> 'a bprog" where
  "blift r s = Some (r, s)"

definition bbind :: "'a bprog \<Rightarrow> ('a \<Rightarrow> 'b bprog) \<Rightarrow> 'b bprog" where
  "bbind p f s = Option.bind (p s) (\<lambda>(r, s'). case r of Inl e \<Rightarrow> Some (Inl e, s') | Inr a \<Rightarrow> f a s')"

definition bworld_op :: "'a prog \<Rightarrow> 'a bprog" where
  "bworld_op p s = (case p (bw_world s) of (r, w) \<Rightarrow> Some (r, s\<lparr>bw_world := w\<rparr>))"

lemma bprog_simps [simp]:
  "bret a s = Some (Inr a, s)" "blift r s = Some (r, s)"
  "p s = None \<Longrightarrow> bbind p f s = None"
  "p s = Some (Inl e, s') \<Longrightarrow> bbind p f s = Some (Inl e, s')"
  "p s = Some (Inr a, s') \<Longrightarrow> bbind p f s = f a s'"
  by (simp_all add: bret_def blift_def bbind_def)

lemma bbind_mono [partial_function_mono]:
  fixes p :: "_ \<Rightarrow> 'x bprog" and q :: "_ \<Rightarrow> 'x \<Rightarrow> 'y bprog"
  assumes "mono_option (\<lambda>f. p f s)" "\<And>a s'. mono_option (\<lambda>f. q f a s')"
  shows "mono_option (\<lambda>f. bbind (p f) (q f) s)"
  unfolding bbind_def
proof (rule bind_mono [OF assms(1)])
  fix y :: "'x res \<times> bworld"
  obtain r s' where y: "y = (r, s')" by (cases y)
  show "mono_option (\<lambda>f. (\<lambda>(r, s'). case r of Inl e \<Rightarrow> Some (Inl e, s') | Inr a \<Rightarrow> q f a s') y)"
    by (cases r) (simp_all add: y assms(2) option.const_mono)
qed

section \<open>The executor\<close>

text \<open>A task: its budget and what its call does.\<close>

type_synonym 'r btask = "int \<times> 'r prog"

datatype be_move = Submit | Start | Finish nat

text \<open>
  The moves that are possible. A put on a full queue waits while the task it carries is already
  admitted, so the next task is built once the queue is within its bound; a bound of zero is none.
\<close>

definition be_moves ::
  "nat \<Rightarrow> ('s \<Rightarrow> 'r btask res) \<Rightarrow> 's list \<Rightarrow> 'r btask list \<Rightarrow> 'r btask list \<Rightarrow> nat \<Rightarrow> kv_mgr \<Rightarrow> be_move list" where
  "be_moves concurrency task_builder seeds queue running idle m =
     (if seeds \<noteq> [] \<and> (concurrency = 0 \<or> length queue \<le> concurrency) \<and>
         (case task_builder (hd seeds) of Inl _ \<Rightarrow> True | Inr t \<Rightarrow> can_admit m (fst t)) then [Submit] else []) @
     (if idle > 0 \<and> queue \<noteq> [] then [Start] else []) @
     map Finish [0..<length running]"

definition remove_nth :: "nat \<Rightarrow> 'a list \<Rightarrow> 'a list" where
  "remove_nth i xs = take i xs @ drop (Suc i) xs"

definition tick :: "bworld \<Rightarrow> bworld" where
  "tick s = s\<lparr>bw_tick := Suc (bw_tick s)\<rparr>"

lemma remove_nth_less: "i < length xs \<Longrightarrow> length (remove_nth i xs) < length xs"
  by (simp add: remove_nth_def)

text \<open>A worker whose task raises ends, after it has released the budget.\<close>

function be_loop ::
  "(nat \<Rightarrow> nat) \<Rightarrow> nat \<Rightarrow> ('s \<Rightarrow> 'r btask res) \<Rightarrow> 's list \<Rightarrow> 'r btask list \<Rightarrow> 'r btask list \<Rightarrow> nat \<Rightarrow> 'r list \<Rightarrow> 'r list bprog" where
  "be_loop pick concurrency task_builder seeds queue running idle results s =
     (if seeds = [] \<and> queue = [] \<and> running = [] then Some (Inr results, s)
      else let moves = be_moves concurrency task_builder seeds queue running idle (bw_mgr s)
      in if moves = [] then None
      else case moves ! (pick (bw_tick s) mod length moves) of
        Submit \<Rightarrow>
          (case task_builder (hd seeds) of
             Inl e \<Rightarrow> Some (Inl e, tick s)
           | Inr t \<Rightarrow>
               be_loop pick concurrency task_builder (tl seeds) (queue @ [t]) running idle results
                 (tick s\<lparr>bw_mgr := (bw_mgr s)\<lparr>global_used := global_used (bw_mgr s) + fst t\<rparr>\<rparr>))
      | Start \<Rightarrow> be_loop pick concurrency task_builder seeds (tl queue) (running @ [hd queue]) (idle - 1) results (tick s)
      | Finish i \<Rightarrow>
          (case snd (running ! i) (bw_world s) of (r, w) \<Rightarrow>
             be_loop pick concurrency task_builder seeds queue (remove_nth i running)
               (case r of Inl e \<Rightarrow> idle | Inr out \<Rightarrow> Suc idle)
               (case r of Inl e \<Rightarrow> results | Inr out \<Rightarrow> results @ [out])
               (tick s\<lparr>bw_world := w, bw_mgr := release_global (bw_mgr s) (fst (running ! i))\<rparr>)))"
  by pat_completeness auto
termination
proof (relation "measure (\<lambda>(pick, c, b, seeds, queue, running, idle, res, s). 3 * length seeds + 2 * length queue + length running)")
  fix pick :: "nat \<Rightarrow> nat" and concurrency task_builder and seeds :: "'s list" and queue running :: "'r btask list" and idle
    and results :: "'r list" and s :: bworld and moves
  assume a: "moves = be_moves concurrency task_builder seeds queue running idle (bw_mgr s)" "moves \<noteq> []"
  then have mem: "moves ! (pick (bw_tick s) mod length moves) \<in> set moves" by simp
  {
    fix t assume "moves ! (pick (bw_tick s) mod length moves) = Submit"
    then have "Submit \<in> set moves" using mem by simp
    then have "seeds \<noteq> []" using a(1) by (auto simp: be_moves_def split: if_splits)
    then show "((pick, concurrency, task_builder, tl seeds, queue @ [t], running, idle, results,
          tick s\<lparr>bw_mgr := (bw_mgr s)\<lparr>global_used := global_used (bw_mgr s) + fst t\<rparr>\<rparr>),
         pick, concurrency, task_builder, seeds, queue, running, idle, results, s)
        \<in> measure (\<lambda>(pick, c, b, seeds, queue, running, idle, res, s). 3 * length seeds + 2 * length queue + length running)"
      by (cases seeds) auto
  next
    assume "moves ! (pick (bw_tick s) mod length moves) = Start"
    then have "Start \<in> set moves" using mem by simp
    then have "queue \<noteq> []" using a(1) by (auto simp: be_moves_def split: if_splits)
    then show "((pick, concurrency, task_builder, seeds, tl queue, running @ [hd queue], idle - 1, results, tick s),
         pick, concurrency, task_builder, seeds, queue, running, idle, results, s)
        \<in> measure (\<lambda>(pick, c, b, seeds, queue, running, idle, res, s). 3 * length seeds + 2 * length queue + length running)"
      by (cases queue) auto
  next
    fix i r w assume "moves ! (pick (bw_tick s) mod length moves) = Finish i"
    then have "Finish i \<in> set moves" using mem by simp
    then have "i < length running" using a(1) by (auto simp: be_moves_def split: if_splits)
    then show "((pick, concurrency, task_builder, seeds, queue, remove_nth i running, (case r of Inl e \<Rightarrow> idle | Inr out \<Rightarrow> Suc idle),
          (case r of Inl e \<Rightarrow> results | Inr out \<Rightarrow> results @ [out]),
          tick s\<lparr>bw_world := w, bw_mgr := release_global (bw_mgr s) (fst (running ! i))\<rparr>),
         pick, concurrency, task_builder, seeds, queue, running, idle, results, s)
        \<in> measure (\<lambda>(pick, c, b, seeds, queue, running, idle, res, s). 3 * length seeds + 2 * length queue + length running)"
      using remove_nth_less [of i running] by auto
  }
qed simp

declare be_loop.simps [simp del]

definition blocking_execute_tasks ::
  "(nat \<Rightarrow> nat) \<Rightarrow> 's list \<Rightarrow> (kv_mgr \<Rightarrow> 's \<Rightarrow> 'r btask res) \<Rightarrow> nat \<Rightarrow> 'r list bprog" where
  "blocking_execute_tasks pick seeds task_builder concurrency s =
     be_loop pick concurrency (task_builder (bw_mgr s)) seeds [] [] concurrency [] s"

section \<open>The executor returns\<close>

text \<open>A task that never raises, and what it may return.\<close>

definition never_raises :: "'r btask \<Rightarrow> bool" where
  "never_raises t \<longleftrightarrow> (\<forall>w. \<exists>v w'. snd t w = (Inr v, w'))"

definition yields :: "'r btask \<Rightarrow> 'r \<Rightarrow> bool" where
  "yields t v \<longleftrightarrow> (\<exists>w w'. snd t w = (Inr v, w'))"

definition budgets :: "'r btask list \<Rightarrow> int" where
  "budgets ts = sum_list (map fst ts)"

lemma budgets_append [simp]: "budgets (xs @ ys) = budgets xs + budgets ys" "budgets [] = 0" "budgets (t # ts) = fst t + budgets ts"
  by (simp_all add: budgets_def)

lemma remove_nth_mset: "i < length xs \<Longrightarrow> mset xs = add_mset (xs ! i) (mset (remove_nth i xs))"
  unfolding remove_nth_def by (subst id_take_nth_drop) simp_all

lemma remove_nth_budgets: "i < length xs \<Longrightarrow> budgets xs = fst (xs ! i) + budgets (remove_nth i xs)"
  unfolding remove_nth_def by (subst id_take_nth_drop) (simp_all add: algebra_simps)

lemma remove_nth_set: "set (remove_nth i xs) \<subseteq> set xs"
  by (auto simp: remove_nth_def dest: in_set_takeD in_set_dropD)

lemma budgets_nonneg: "(\<And>t. t \<in> set ts \<Longrightarrow> 0 \<le> fst t) \<Longrightarrow> 0 \<le> budgets ts"
  unfolding budgets_def by (rule sum_list_nonneg) auto

text \<open>The tasks of a run: built and not yet ended.\<close>

definition calm_tasks :: "kv_mgr \<Rightarrow> 'r btask list \<Rightarrow> bool" where
  "calm_tasks m ts \<longleftrightarrow> (\<forall>t \<in> set ts. never_raises t \<and> 0 \<le> fst t \<and> global_used m + fst t \<le> kv_capacity m)"

definition be_inv ::
  "kv_mgr \<Rightarrow> nat \<Rightarrow> ('s \<Rightarrow> 'r btask res) \<Rightarrow> ('s \<Rightarrow> 'r btask) \<Rightarrow> 's list \<Rightarrow> 'r btask list \<Rightarrow> 'r btask list \<Rightarrow> nat \<Rightarrow> bworld \<Rightarrow> bool" where
  "be_inv m concurrency task_builder tb seeds queue running idle s \<longleftrightarrow>
     concurrency > 0 \<and> idle + length running = concurrency \<and> (\<forall>x \<in> set seeds. task_builder x = Inr (tb x)) \<and>
     calm_tasks m (map tb seeds @ queue @ running) \<and> 0 \<le> global_used m \<and>
     bw_mgr s = m\<lparr>global_used := global_used m + budgets (queue @ running)\<rparr>"

text \<open>There is always a move, and every move keeps the invariant.\<close>

lemma be_inv_moves:
  assumes inv: "be_inv m c b tb seeds queue running idle s" and busy: "\<not> (seeds = [] \<and> queue = [] \<and> running = [])"
  shows "be_moves c b seeds queue running idle (bw_mgr s) \<noteq> []"
proof (cases "running = [] \<and> queue = []")
  case True
  then obtain x xs where x: "seeds = x # xs" using busy by (cases seeds) auto
  then have "can_admit (bw_mgr s) (fst (tb x))" using inv True by (auto simp: be_inv_def calm_tasks_def can_admit_def)
  then show ?thesis using x True inv by (simp add: be_inv_def be_moves_def)
next
  case False
  then show ?thesis using inv by (auto simp: be_inv_def be_moves_def)
qed

lemma be_inv_submit:
  assumes "be_inv m c b tb (x # xs) queue running idle s"
  shows "be_inv m c b tb xs (queue @ [tb x]) running idle
    (tick s\<lparr>bw_mgr := (bw_mgr s)\<lparr>global_used := global_used (bw_mgr s) + fst (tb x)\<rparr>\<rparr>)"
  using assms by (auto simp: be_inv_def calm_tasks_def)

lemma be_inv_start:
  assumes "be_inv m c b tb seeds (t # q) running idle s" "0 < idle"
  shows "be_inv m c b tb seeds q (running @ [t]) (idle - 1) (tick s)"
  using assms by (auto simp: be_inv_def calm_tasks_def tick_def algebra_simps)

lemma be_inv_finish:
  assumes inv: "be_inv m c b tb seeds queue running idle s" and i: "i < length running"
  shows "be_inv m c b tb seeds queue (remove_nth i running) (Suc idle)
    (tick s\<lparr>bw_world := w, bw_mgr := release_global (bw_mgr s) (fst (running ! i))\<rparr>)"
proof -
  let ?run = "remove_nth i running"
  have ct: "calm_tasks m (map tb seeds @ queue @ ?run)"
    using inv remove_nth_set [of i running] by (auto simp: be_inv_def calm_tasks_def)
  then have "0 \<le> budgets (queue @ ?run)" by (intro budgets_nonneg) (auto simp: calm_tasks_def)
  moreover have "Suc idle + length ?run = c" using inv i by (auto simp: be_inv_def remove_nth_def)
  ultimately show ?thesis
    using inv ct remove_nth_budgets [OF i] by (auto simp: be_inv_def release_global_def)
qed

lemma be_moves_mem:
  "Submit \<in> set (be_moves c b seeds queue running idle m) \<Longrightarrow> seeds \<noteq> []"
  "Start \<in> set (be_moves c b seeds queue running idle m) \<Longrightarrow> queue \<noteq> [] \<and> 0 < idle"
  "Finish i \<in> set (be_moves c b seeds queue running idle m) \<Longrightarrow> i < length running"
  by (auto simp: be_moves_def split: if_splits)

definition be_returns :: "kv_mgr \<Rightarrow> 'r btask list \<Rightarrow> 'r list \<Rightarrow> ('r list res \<times> bworld) option \<Rightarrow> bool" where
  "be_returns m tasks results x \<longleftrightarrow> (\<exists>rs ts s'. x = Some (Inr (results @ rs), s') \<and> bw_mgr s' = m \<and> mset ts = mset tasks \<and> list_all2 yields ts rs)"

lemma be_returns_more:
  assumes "be_returns m tasks (results @ [v]) x" "yields t v" "mset tasks' = add_mset t (mset tasks)"
  shows "be_returns m tasks' results x"
proof -
  obtain rs ts s' where r: "x = Some (Inr ((results @ [v]) @ rs), s')" "bw_mgr s' = m" "mset ts = mset tasks" "list_all2 yields ts rs"
    using assms(1) by (auto simp: be_returns_def)
  then show ?thesis
    unfolding be_returns_def using assms(2,3) by (intro exI [of _ "v # rs"] exI [of _ "t # ts"] exI [of _ s']) simp
qed

lemma be_returns_cong: "be_returns m tasks results x \<Longrightarrow> mset tasks' = mset tasks \<Longrightarrow> be_returns m tasks' results x"
  by (simp add: be_returns_def)

lemma be_loop_returns:
  assumes "be_inv m concurrency task_builder tb seeds queue running idle s"
  shows "be_returns m (map tb seeds @ queue @ running) results
    (be_loop pick concurrency task_builder seeds queue running idle results s)"
  using assms
proof (induction pick concurrency task_builder seeds queue running idle results s rule: be_loop.induct)
  case (1 pick concurrency task_builder seeds queue running idle results s)
  let ?moves = "be_moves concurrency task_builder seeds queue running idle (bw_mgr s)"
  let ?mv = "?moves ! (pick (bw_tick s) mod length ?moves)"
  note step = be_loop.simps [of pick concurrency task_builder seeds queue running idle results s]
  show ?case
  proof (cases "seeds = [] \<and> queue = [] \<and> running = []")
    case True
    then show ?thesis using "1.prems" by (subst be_loop.simps) (auto simp: be_returns_def be_inv_def)
  next
    case busy: False
    have ne: "?moves \<noteq> []" by (rule be_inv_moves [OF "1.prems" busy])
    then have mem: "?mv \<in> set ?moves" by simp
    show ?thesis
    proof (cases ?mv)
      case Submit
      then obtain x xs where x: "seeds = x # xs" using mem be_moves_mem(1) by (metis list.exhaust)
      have t: "task_builder x = Inr (tb x)" using "1.prems" x by (simp add: be_inv_def)
      have "be_returns m (map tb xs @ (queue @ [tb x]) @ running) results
          (be_loop pick concurrency task_builder seeds queue running idle results s)"
        using "1.IH"(1) [OF busy refl ne Submit, of "tb x"] t x be_inv_submit [OF "1.prems" [unfolded x]] step busy ne Submit
        by (simp add: Let_def)
      then show ?thesis by (rule be_returns_cong) (simp add: x)
    next
      case Start
      then obtain t q where q: "queue = t # q" and i: "0 < idle" using mem be_moves_mem(2) by (metis list.exhaust)
      have "be_returns m (map tb seeds @ q @ running @ [t]) results
          (be_loop pick concurrency task_builder seeds queue running idle results s)"
        using "1.IH"(2) [OF busy refl ne Start] q be_inv_start [OF "1.prems" [unfolded q] i] step busy ne Start
        by (simp add: Let_def)
      then show ?thesis by (rule be_returns_cong) (simp add: q)
    next
      case (Finish i)
      then have i: "i < length running" using mem be_moves_mem(3) by metis
      obtain v w where v: "snd (running ! i) (bw_world s) = (Inr v, w)"
        using "1.prems" nth_mem [OF i] by (fastforce simp: be_inv_def calm_tasks_def never_raises_def)
      have "be_returns m (map tb seeds @ queue @ remove_nth i running) (results @ [v])
          (be_loop pick concurrency task_builder seeds queue running idle results s)"
        using "1.IH"(3) [OF busy refl ne Finish v [symmetric]] be_inv_finish [OF "1.prems" i] step busy ne Finish v by (simp add: Let_def)
      then show ?thesis by (rule be_returns_more) (use v remove_nth_mset [OF i] in \<open>auto simp: yields_def\<close>)
    qed
  qed
qed

lemma mset_map_order: "mset ts = mset (map f xs) \<Longrightarrow> \<exists>ys. mset ys = mset xs \<and> ts = map f ys"
proof (induction ts arbitrary: xs)
  case (Cons t ts)
  then have "t \<in> set (map f xs)" by (metis list.set_intros(1) set_mset_mset)
  then obtain i where i: "i < length xs" "t = f (xs ! i)" by (auto simp: in_set_conv_nth)
  have m: "mset xs = add_mset (xs ! i) (mset (remove_nth i xs))" by (rule remove_nth_mset [OF i(1)])
  then have "mset ts = mset (map f (remove_nth i xs))" using Cons.prems i(2) by simp
  then obtain ys where "mset ys = mset (remove_nth i xs)" "ts = map f ys" using Cons.IH by blast
  then show ?case using m i(2) by (intro exI [of _ "xs ! i # ys"]) simp
qed simp

lemma blocking_returns:
  assumes "0 < concurrency" "0 \<le> global_used (bw_mgr s)"
    and "\<forall>x \<in> set seeds. task_builder (bw_mgr s) x = Inr (tb x) \<and> never_raises (tb x) \<and> 0 \<le> fst (tb x) \<and>
      global_used (bw_mgr s) + fst (tb x) \<le> kv_capacity (bw_mgr s)"
  shows "\<exists>rs xs s'. blocking_execute_tasks pick seeds task_builder concurrency s = Some (Inr rs, s') \<and> bw_mgr s' = bw_mgr s \<and>
    mset xs = mset seeds \<and> list_all2 (\<lambda>x v. yields (tb x) v) xs rs"
proof -
  have "be_inv (bw_mgr s) concurrency (task_builder (bw_mgr s)) tb seeds [] [] concurrency s"
    using assms by (auto simp: be_inv_def calm_tasks_def)
  from be_loop_returns [OF this, of "[]" pick] obtain rs ts s' where
    r: "blocking_execute_tasks pick seeds task_builder concurrency s = Some (Inr rs, s')" "bw_mgr s' = bw_mgr s"
      "mset ts = mset (map tb seeds)" "list_all2 yields ts rs"
    by (auto simp: be_returns_def blocking_execute_tasks_def)
  obtain xs where xs: "mset xs = mset seeds" "ts = map tb xs" using mset_map_order [OF r(3)] by blast
  then show ?thesis using r by (auto simp: list_all2_map1)
qed

text \<open>
  C16. The blocking executor returns: with at least one worker, if no task raises and each of them
  fits the free part of the KV capacity on its own, a call ends whatever the interleaving of
  submitter and workers is, every seed is run once and its result is among those returned, in
  some order, and the global account is as before.
\<close>

theorem blocking_executor_returns:
  assumes "0 < concurrency" "0 \<le> global_used (bw_mgr s)"
    and "\<forall>x \<in> set seeds. task_builder (bw_mgr s) x = Inr (tb x) \<and> never_raises (tb x) \<and> 0 \<le> fst (tb x) \<and>
      global_used (bw_mgr s) + fst (tb x) \<le> kv_capacity (bw_mgr s)"
  shows "\<exists>rs xs s'. blocking_execute_tasks pick seeds task_builder concurrency s = Some (Inr rs, s') \<and> bw_mgr s' = bw_mgr s \<and>
    mset xs = mset seeds \<and> list_all2 (\<lambda>x v. yields (tb x) v) xs rs"
  using assms by (rule blocking_returns)

text \<open>Tasks of the given budgets that return their budget, and an account of ten bytes.\<close>

definition demo_btask :: "kv_mgr \<Rightarrow> int \<Rightarrow> int btask res" where
  "demo_btask m n = Inr (n, pret n)"

definition demo_bworld :: bworld where
  "demo_bworld = \<lparr>bw_mgr = kv_mgr_init 1 10, bw_world = demo_world, bw_tick = 0, bw_next_id = 0\<rparr>"

theorem blocking_executor_returns_witness:
  "\<exists>rs s'. blocking_execute_tasks (\<lambda>n. n) [6, 7, 8] demo_btask 2 demo_bworld = Some (Inr rs, s') \<and> mset rs = {#6, 7, 8#}"
proof -
  have y: "yields (x, pret x) v \<longleftrightarrow> v = x" for x v :: int by (auto simp: yields_def)
  have "\<exists>rs xs s'. blocking_execute_tasks (\<lambda>n. n) [6, 7, 8] demo_btask 2 demo_bworld = Some (Inr rs, s') \<and> bw_mgr s' = bw_mgr demo_bworld \<and>
    mset xs = mset [6, 7, 8] \<and> list_all2 (\<lambda>x v. yields (x, pret x) v) xs rs"
    by (rule blocking_executor_returns) (auto simp: demo_btask_def demo_bworld_def kv_mgr_init_def never_raises_def)
  then show ?thesis by (auto simp: y list_all2_eq [symmetric] list.rel_eq eq_commute)
qed

text \<open>A seed whose task never fits stays among the seeds.\<close>

definition be_jam :: "('s \<Rightarrow> 'r btask res) \<Rightarrow> 's \<Rightarrow> 's list \<Rightarrow> bworld \<Rightarrow> bool" where
  "be_jam task_builder x seeds s \<longleftrightarrow> x \<in> set seeds \<and> (\<exists>t. task_builder x = Inr t \<and> kv_capacity (bw_mgr s) < fst t) \<and>
     0 \<le> global_used (bw_mgr s) \<and> (\<forall>y \<in> set seeds. \<exists>u. task_builder y = Inr u \<and> 0 \<le> fst u)"

lemma be_jam_submit:
  assumes "be_jam b x seeds s" "Submit \<in> set (be_moves c b seeds queue running idle (bw_mgr s))"
  shows "\<exists>y ys u. seeds = y # ys \<and> b y = Inr u \<and>
    be_jam b x ys (tick s\<lparr>bw_mgr := (bw_mgr s)\<lparr>global_used := global_used (bw_mgr s) + fst u\<rparr>\<rparr>)"
proof -
  obtain y ys where y: "seeds = y # ys" using be_moves_mem(1) [OF assms(2)] by (cases seeds) auto
  obtain u where u: "b y = Inr u" "0 \<le> fst u" using assms(1) y by (auto simp: be_jam_def)
  have "can_admit (bw_mgr s) (fst u)" using assms(2) y u by (auto simp: be_moves_def split: if_splits)
  then have "x \<noteq> y" using assms(1) u by (auto simp: be_jam_def can_admit_def)
  then show ?thesis using assms(1) y u by (auto simp: be_jam_def)
qed

lemma be_jam_finish: "be_jam b x seeds s \<Longrightarrow> be_jam b x seeds (tick s\<lparr>bw_world := w, bw_mgr := release_global (bw_mgr s) n\<rparr>)"
  by (simp add: be_jam_def release_global_def)

lemma be_loop_stuck:
  assumes "be_jam task_builder x seeds s"
  shows "be_loop pick concurrency task_builder seeds queue running idle results s = None"
  using assms
proof (induction pick concurrency task_builder seeds queue running idle results s rule: be_loop.induct)
  case (1 pick concurrency task_builder seeds queue running idle results s)
  let ?moves = "be_moves concurrency task_builder seeds queue running idle (bw_mgr s)"
  let ?mv = "?moves ! (pick (bw_tick s) mod length ?moves)"
  note step = be_loop.simps [of pick concurrency task_builder seeds queue running idle results s]
  have busy: "\<not> (seeds = [] \<and> queue = [] \<and> running = [])" using "1.prems" by (auto simp: be_jam_def)
  show ?case
  proof (cases "?moves = []")
    case True
    then show ?thesis using step busy by (simp add: Let_def)
  next
    case ne: False
    then have mem: "?mv \<in> set ?moves" by simp
    show ?thesis
    proof (cases ?mv)
      case Submit
      obtain y ys u where y: "seeds = y # ys" "task_builder y = Inr u"
        "be_jam task_builder x ys (tick s\<lparr>bw_mgr := (bw_mgr s)\<lparr>global_used := global_used (bw_mgr s) + fst u\<rparr>\<rparr>)"
        using be_jam_submit [OF "1.prems" mem [unfolded Submit]] by blast
      show ?thesis using "1.IH"(1) [OF busy refl ne Submit, of u] y step busy ne Submit by (simp add: Let_def)
    next
      case Start
      have "be_jam task_builder x seeds (tick s)" using "1.prems" by (simp add: be_jam_def tick_def)
      then show ?thesis using "1.IH"(2) [OF busy refl ne Start] step busy ne Start by (simp add: Let_def)
    next
      case (Finish i)
      obtain r w where r: "snd (running ! i) (bw_world s) = (r, w)" by (cases "snd (running ! i) (bw_world s)")
      show ?thesis
        using "1.IH"(3) [OF busy refl ne Finish r [symmetric] be_jam_finish [OF "1.prems"]] step busy ne Finish r by (simp add: Let_def)
    qed
  qed
qed

text \<open>
  C39. A task that does not fit is waited for forever: when a seed builds a task whose budget
  exceeds the KV capacity, a call of the blocking executor never returns, whatever the
  interleaving and whatever the other tasks do.
\<close>

theorem blocking_oversize_hangs:
  assumes "x \<in> set seeds" "\<forall>y \<in> set seeds. task_builder (bw_mgr s) y = Inr (tb y) \<and> 0 \<le> fst (tb y)"
    and "kv_capacity (bw_mgr s) < fst (tb x)" "0 \<le> global_used (bw_mgr s)"
  shows "blocking_execute_tasks pick seeds task_builder concurrency s = None"
proof -
  have "be_jam (task_builder (bw_mgr s)) x seeds s" using assms by (auto simp: be_jam_def)
  then show ?thesis unfolding blocking_execute_tasks_def by (rule be_loop_stuck)
qed

theorem blocking_oversize_hangs_witness:
  "blocking_execute_tasks (\<lambda>n. n) [6, 11] demo_btask 2 demo_bworld = None"
  by (rule blocking_oversize_hangs [where x = 11 and tb = "\<lambda>n. (n, pret n)"]) (auto simp: demo_btask_def demo_bworld_def kv_mgr_init_def)

end
