(* ===== verification/Reducers.thy ===== *)
theory Reducers
  imports Blocking
begin

text \<open>
  The blocking operators (\<open>kalypso/sem_ops/reducers.py\<close>): \<open>SemAgg\<close> merges chunks of contexts
  until one is left, \<open>SemTopK\<close> selects with a quickselect over comparisons by the model and ranks
  what it selected. The halves that \<open>_rank\<close> gathers are ranked one after the other.
\<close>

section \<open>Aggregation\<close>

definition ctx_to_text :: "sem_context \<Rightarrow> string" where
  "ctx_to_text ctx = py_join (nl @ nl) (map (\<lambda>m. py_upper (role m) @ '':'' @ nl @ content m) (ctx_data ctx))"

definition agg_build_prompt :: "string \<Rightarrow> sem_context list \<Rightarrow> message list res" where
  "agg_build_prompt instruction chunk =
     (let docs = map (\<lambda>(i, ctx). ''Document '' @ str_int (int i) @ '':'' @ nl @ ctx_to_text ctx) (enumerate 1 chunk)
      in get_prompt instruction [\<lparr>role = ''user'', msg_type = Some ''text'', content = py_join (nl @ nl) docs\<rparr>] SEM_AGG)"

text \<open>The loop of \<open>_chunk_by_tokens\<close>: finished chunks, the current chunk and its tokens.\<close>

primrec chunk_loop_agg :: "(sem_context \<Rightarrow> int) \<Rightarrow> int \<Rightarrow> int \<Rightarrow> sem_context list \<Rightarrow> sem_context list list \<Rightarrow> sem_context list \<Rightarrow> int \<Rightarrow> sem_context list list" where
  "chunk_loop_agg tokens_of max_tokens overhead [] chunks cur cur_tokens = (if cur \<noteq> [] then chunks @ [cur] else chunks)"
| "chunk_loop_agg tokens_of max_tokens overhead (ctx # ctxs) chunks cur cur_tokens =
     (if cur \<noteq> [] \<and> cur_tokens + tokens_of ctx > max_tokens
      then chunk_loop_agg tokens_of max_tokens overhead ctxs (chunks @ [cur]) [ctx] (overhead + tokens_of ctx)
      else chunk_loop_agg tokens_of max_tokens overhead ctxs chunks (cur @ [ctx]) (cur_tokens + tokens_of ctx))"

definition chunk_by_tokens :: "env \<Rightarrow> string \<Rightarrow> int \<Rightarrow> sem_context list \<Rightarrow> sem_context list list" where
  "chunk_by_tokens E instruction max_tokens ctxs =
     (let overhead = token_length (ev_tk E) (TextData (nl @ nl @ instruction @ nl @ nl));
          per_doc = token_length (ev_tk E) (TextData (nl @ nl @ ''Document 1:'' @ nl))
      in chunk_loop_agg (\<lambda>ctx. token_length (ev_tk E) (MsgData (ctx_data ctx)) + per_doc) max_tokens overhead ctxs [] [] overhead)"

definition reduce_chunk :: "env \<Rightarrow> string \<Rightarrow> int \<Rightarrow> sem_context list \<Rightarrow> sem_context prog" where
  "reduce_chunk E instruction max_tokens chunk =
     (case chunk of [] \<Rightarrow> praise IndexError
      | c # _ \<Rightarrow>
          pbind (plift (agg_build_prompt instruction chunk)) (\<lambda>prompt.
          pbind (execute E (raw_request (state c)) (MsgData prompt) max_tokens False 0) (\<lambda>result.
          pret \<lparr>inp = semantic_input (TextData (cr_text result)) (token_length (ev_tk E) (TextData (cr_text result))) [],
                outputs = [], state = execution_state (raw_request (state c))\<rparr>)))"

definition build_reducer :: "env \<Rightarrow> string \<Rightarrow> int \<Rightarrow> kv_mgr \<Rightarrow> sem_context list \<Rightarrow> sem_context btask res" where
  "build_reducer E instruction max_tokens m chunk =
     rbind (agg_build_prompt instruction chunk) (\<lambda>prompt.
       Inr ((token_length (ev_tk E) (TextData (apply_chat_template (ev_tk E) prompt)) + max_tokens) * bytes_per_token m,
            reduce_chunk E instruction max_tokens chunk))"

partial_function (option) agg_loop ::
  "(nat \<Rightarrow> nat) \<Rightarrow> env \<Rightarrow> string \<Rightarrow> int \<Rightarrow> nat \<Rightarrow> sem_context list \<Rightarrow> bworld \<Rightarrow> (sem_context list res \<times> bworld) option" where
  "agg_loop pick E instruction max_tokens concurrency working_set s =
     (if length working_set \<le> 1 then Some (Inr working_set, s)
      else let chunks = chunk_by_tokens E instruction max_tokens working_set;
               reducible = [c \<leftarrow> chunks. length c > 1];
               passthrough = map hd [c \<leftarrow> chunks. length c = 1]
           in bbind (if reducible \<noteq> []
                     then bbind (blocking_execute_tasks pick reducible (build_reducer E instruction max_tokens) concurrency)
                            (\<lambda>reduced. bret (passthrough @ reduced))
                     else blocking_execute_tasks pick [working_set] (build_reducer E instruction max_tokens) 1)
                (agg_loop pick E instruction max_tokens concurrency) s)"

definition agg_call :: "(nat \<Rightarrow> nat) \<Rightarrow> env \<Rightarrow> string \<Rightarrow> int \<Rightarrow> nat \<Rightarrow> sem_context list \<Rightarrow> sem_context list bprog" where
  "agg_call pick E instruction max_tokens concurrency ctxs =
     (if ctxs = [] then bret []
      else bbind (agg_loop pick E instruction max_tokens concurrency ctxs) (\<lambda>working_set.
        case working_set of
          [] \<Rightarrow> blift (Inl IndexError)
        | c # cs \<Rightarrow> bret (add_output (OutData (class_str ''reducers.SemAgg'') (ctx_data c)) c # cs)))"

section \<open>Top k\<close>

definition build_compare_prompt :: "string \<Rightarrow> sem_context \<Rightarrow> sem_context \<Rightarrow> message list res" where
  "build_compare_prompt instruction first second =
     get_prompt instruction
       [\<lparr>role = ''user'', msg_type = Some ''text'',
         content = ''Document A:'' @ nl @ ctx_to_text first @ nl @ nl @ ''Document B:'' @ nl @ ctx_to_text second\<rparr>] SEM_TOPK"

definition compare_text :: "env \<Rightarrow> string \<Rightarrow> int \<Rightarrow> int \<Rightarrow> message list \<Rightarrow> string prog" where
  "compare_text E instruction max_tokens rr prompt =
     pbind (execute E rr (MsgData prompt) max_tokens False 0) (\<lambda>result. pret (py_upper (py_strip (cr_text result))))"

definition compare_task :: "env \<Rightarrow> string \<Rightarrow> int \<Rightarrow> sem_context \<Rightarrow> kv_mgr \<Rightarrow> sem_context \<Rightarrow> (sem_context \<times> string) btask res" where
  "compare_task E instruction max_tokens pivot m other =
     rbind (build_compare_prompt instruction pivot other) (\<lambda>prompt.
       Inr (token_length (ev_tk E) (MsgData prompt) * bytes_per_token m,
            pbind (compare_text E instruction max_tokens (raw_request (state pivot)) prompt) (\<lambda>v. pret (other, v))))"

definition partition_ctxs :: "(nat \<Rightarrow> nat) \<Rightarrow> env \<Rightarrow> string \<Rightarrow> int \<Rightarrow> nat \<Rightarrow> sem_context \<Rightarrow> sem_context list \<Rightarrow> (sem_context list \<times> sem_context list) bprog" where
  "partition_ctxs pick E instruction max_tokens concurrency pivot others =
     bbind (blocking_execute_tasks pick others (compare_task E instruction max_tokens pivot) concurrency) (\<lambda>results.
       bret (map fst [(o', v) \<leftarrow> results. py_startswith v ''B''], map fst [(o', v) \<leftarrow> results. \<not> py_startswith v ''B'']))"

partial_function (option) quickselect ::
  "(nat \<Rightarrow> nat) \<Rightarrow> env \<Rightarrow> string \<Rightarrow> int \<Rightarrow> nat \<Rightarrow> sem_context list \<Rightarrow> int \<Rightarrow> bworld \<Rightarrow> (sem_context list res \<times> bworld) option" where
  "quickselect pick E instruction max_tokens concurrency ctxs k s =
     (if int (length ctxs) \<le> k then Some (Inr ctxs, s)
      else case ctxs of
        [] \<Rightarrow> Some (Inl IndexError, s)
      | pivot # others \<Rightarrow>
          bbind (partition_ctxs pick E instruction max_tokens concurrency pivot others) (\<lambda>bw s.
            if int (length (fst bw)) \<ge> k then quickselect pick E instruction max_tokens concurrency (fst bw) k s
            else if int (length (fst bw)) + 1 = k then bret (fst bw @ [pivot]) s
            else bbind (quickselect pick E instruction max_tokens concurrency (snd bw) (k - int (length (fst bw)) - 1)) (\<lambda>rest.
                   bret (fst bw @ [pivot] @ rest)) s) s)"

definition compare_ctxs :: "env \<Rightarrow> string \<Rightarrow> int \<Rightarrow> sem_context \<Rightarrow> sem_context \<Rightarrow> bool bprog" where
  "compare_ctxs E instruction max_tokens a b =
     bbind (blift (build_compare_prompt instruction a b)) (\<lambda>prompt.
     bbind (bworld_op (compare_text E instruction max_tokens (raw_request (state a)) prompt)) (\<lambda>v.
       bret (py_startswith v ''A'')))"

text \<open>Inserting a context before the first one it beats.\<close>

primrec insert_ranked :: "env \<Rightarrow> string \<Rightarrow> int \<Rightarrow> sem_context \<Rightarrow> sem_context list \<Rightarrow> sem_context list bprog" where
  "insert_ranked E instruction max_tokens ctx [] = bret [ctx]"
| "insert_ranked E instruction max_tokens ctx (other # ranked) =
     bbind (compare_ctxs E instruction max_tokens ctx other) (\<lambda>better.
       if better then bret (ctx # other # ranked)
       else bbind (insert_ranked E instruction max_tokens ctx ranked) (\<lambda>rest. bret (other # rest)))"

primrec rank_insertion :: "env \<Rightarrow> string \<Rightarrow> int \<Rightarrow> sem_context list \<Rightarrow> sem_context list \<Rightarrow> sem_context list bprog" where
  "rank_insertion E instruction max_tokens [] ranked = bret ranked"
| "rank_insertion E instruction max_tokens (ctx # ctxs) ranked =
     bbind (insert_ranked E instruction max_tokens ctx ranked) (rank_insertion E instruction max_tokens ctxs)"

fun merge_ranked :: "env \<Rightarrow> string \<Rightarrow> int \<Rightarrow> sem_context list \<Rightarrow> sem_context list \<Rightarrow> sem_context list bprog" where
  "merge_ranked E instruction max_tokens [] right = bret right"
| "merge_ranked E instruction max_tokens left [] = bret left"
| "merge_ranked E instruction max_tokens (a # left) (b # right) =
     bbind (compare_ctxs E instruction max_tokens a b) (\<lambda>better.
       if better then bbind (merge_ranked E instruction max_tokens left (b # right)) (\<lambda>rest. bret (a # rest))
       else bbind (merge_ranked E instruction max_tokens (a # left) right) (\<lambda>rest. bret (b # rest)))"

definition MERGE_RANK_THRESHOLD :: nat where
  "MERGE_RANK_THRESHOLD = 8"

function rank :: "env \<Rightarrow> string \<Rightarrow> int \<Rightarrow> sem_context list \<Rightarrow> sem_context list bprog" where
  "rank E instruction max_tokens ctxs =
     (if length ctxs \<le> 1 then bret ctxs
      else if length ctxs < MERGE_RANK_THRESHOLD then rank_insertion E instruction max_tokens ctxs []
      else let mid = length ctxs div 2
           in bbind (rank E instruction max_tokens (take mid ctxs)) (\<lambda>left.
              bbind (rank E instruction max_tokens (drop mid ctxs)) (\<lambda>right.
              merge_ranked E instruction max_tokens left right)))"
  by pat_completeness auto
termination
  by (relation "measure (\<lambda>(_, _, _, ctxs). length ctxs)") auto

declare rank.simps [simp del] quickselect.simps [code] agg_loop.simps [code]

definition topk_call :: "(nat \<Rightarrow> nat) \<Rightarrow> env \<Rightarrow> string \<Rightarrow> int \<Rightarrow> int \<Rightarrow> nat \<Rightarrow> sem_context list \<Rightarrow> sem_context list bprog" where
  "topk_call pick E instruction k max_tokens concurrency ctxs =
     (if int (length ctxs) \<le> k then rank E instruction max_tokens ctxs
      else bbind (quickselect pick E instruction max_tokens concurrency ctxs k) (rank E instruction max_tokens))"

section \<open>A consistent judge\<close>

lemma compare_prompt: "\<exists>prompt. build_compare_prompt i a b = Inr prompt"
  by (simp add: build_compare_prompt_def get_prompt_def has_system_def get_task_prompt_def build_operation_prompt_def op_names)

definition compare_prompt_of :: "string \<Rightarrow> sem_context \<Rightarrow> sem_context \<Rightarrow> message list" where
  "compare_prompt_of i a b = projr (build_compare_prompt i a b)"

lemma compare_prompt_eq: "build_compare_prompt i a b = Inr (compare_prompt_of i a b)"
  using compare_prompt [of i a b] by (auto simp: compare_prompt_of_def)

definition verdict :: "response \<Rightarrow> string" where
  "verdict resp = py_upper (py_strip (rs_text resp))"

text \<open>
  A model that judges by a score: asked to compare two documents it answers A when the first has
  the higher score and B when the second has it, whatever it was asked before.
\<close>

definition judge :: "env \<Rightarrow> string \<Rightarrow> int \<Rightarrow> (sem_context \<Rightarrow> int) \<Rightarrow> sem_context set \<Rightarrow> bool" where
  "judge E i mx score C \<longleftrightarrow> inj_on score C \<and>
     (\<forall>a \<in> C. \<forall>b \<in> C. a \<noteq> b \<longrightarrow> (\<forall>log rr. \<exists>resp.
        ev_engine E log rr (build_request E ''chat'' (MsgData (compare_prompt_of i a b)) mx False 0) = Inr resp \<and>
        (py_startswith (verdict resp) ''A'' \<longleftrightarrow> score a > score b) \<and>
        (py_startswith (verdict resp) ''B'' \<longleftrightarrow> score b > score a)))"

lemma judge_subset: "judge E i mx score C \<Longrightarrow> D \<subseteq> C \<Longrightarrow> judge E i mx score D"
  by (auto simp: judge_def inj_on_def subset_eq)

lemma judge_total:
  assumes "judge E i mx score C" "a \<in> C" "b \<in> C" "a \<noteq> b" "\<not> score a > score b"
  shows "score b > score a"
proof -
  have "score a \<noteq> score b" using assms(1-4) by (auto simp: judge_def dest: inj_onD)
  then show ?thesis using assms(5) by simp
qed

lemma judge_text:
  assumes "judge E i mx score C" "a \<in> C" "b \<in> C" "a \<noteq> b"
  shows "\<exists>v w'. compare_text E i mx rr (compare_prompt_of i a b) w = (Inr v, w') \<and>
    (py_startswith v ''A'' \<longleftrightarrow> score a > score b) \<and> (py_startswith v ''B'' \<longleftrightarrow> score b > score a)"
proof -
  obtain resp where r: "ev_engine E (w_log w) rr (build_request E ''chat'' (MsgData (compare_prompt_of i a b)) mx False 0) = Inr resp"
    "py_startswith (verdict resp) ''A'' \<longleftrightarrow> score a > score b" "py_startswith (verdict resp) ''B'' \<longleftrightarrow> score b > score a"
    using assms unfolding judge_def by blast
  then show ?thesis
    by (simp add: compare_text_def chatcomplete_def run_request_def call_engine_def Let_def pbind_apply verdict_def)
qed

lemma judge_compare:
  assumes "judge E i mx score C" "a \<in> C" "b \<in> C" "a \<noteq> b"
  shows "\<exists>s'. compare_ctxs E i mx a b s = Some (Inr (score a > score b), s') \<and> bw_mgr s' = bw_mgr s"
proof -
  obtain v w' where "compare_text E i mx (raw_request (state a)) (compare_prompt_of i a b) (bw_world s) = (Inr v, w')"
    "py_startswith v ''A'' \<longleftrightarrow> score a > score b"
    using judge_text [OF assms] by blast
  then show ?thesis by (simp add: compare_ctxs_def compare_prompt_eq bbind_def bworld_op_def)
qed

section \<open>Ranking\<close>

abbreviation best_first :: "(sem_context \<Rightarrow> int) \<Rightarrow> sem_context list \<Rightarrow> bool" where
  "best_first score \<equiv> sorted_wrt (\<lambda>a b. score a > score b)"

text \<open>The call returns a list of the contexts \<open>M\<close>, best first, and leaves the accounts alone.\<close>

definition ranks :: "(sem_context \<Rightarrow> int) \<Rightarrow> sem_context list \<Rightarrow> bworld \<Rightarrow> (sem_context list res \<times> bworld) option \<Rightarrow> bool" where
  "ranks score ctxs s x \<longleftrightarrow> (\<exists>rs s'. x = Some (Inr rs, s') \<and> best_first score rs \<and> mset rs = mset ctxs \<and> bw_mgr s' = bw_mgr s)"

lemma insert_ranked_ok:
  assumes "judge E i mx score C" "c \<in> C" "set ranked \<subseteq> C" "c \<notin> set ranked" "best_first score ranked"
  shows "ranks score (c # ranked) s (insert_ranked E i mx c ranked s)"
  using assms(3-)
proof (induction ranked arbitrary: s)
  case (Cons d ranked)
  have d: "d \<in> C" "c \<noteq> d" using Cons.prems by auto
  obtain s1 where s1: "compare_ctxs E i mx c d s = Some (Inr (score c > score d), s1)" "bw_mgr s1 = bw_mgr s"
    using judge_compare [OF assms(1,2) d] by blast
  show ?case
  proof (cases "score c > score d")
    case True
    then show ?thesis using s1 Cons.prems by (fastforce simp: ranks_def)
  next
    case False
    then have lt: "score d > score c" using judge_total [OF assms(1,2) d] by simp
    obtain rs s2 where r: "insert_ranked E i mx c ranked s1 = Some (Inr rs, s2)" "best_first score rs" "mset rs = mset (c # ranked)"
      "bw_mgr s2 = bw_mgr s1" using Cons.IH [of s1] Cons.prems by (auto simp: ranks_def)
    have "set rs = set (c # ranked)" using r(3) by (metis set_mset_mset)
    then have "best_first score (d # rs)" using r(2) lt Cons.prems(3) by auto
    then show ?thesis using s1 r False by (simp add: ranks_def)
  qed
qed (simp add: ranks_def)

lemma rank_insertion_ok:
  assumes "judge E i mx score C" "set (ctxs @ ranked) \<subseteq> C" "distinct (ctxs @ ranked)" "best_first score ranked"
  shows "ranks score (ctxs @ ranked) s (rank_insertion E i mx ctxs ranked s)"
  using assms(2-)
proof (induction ctxs arbitrary: ranked s)
  case (Cons c ctxs)
  obtain rs s1 where r: "insert_ranked E i mx c ranked s = Some (Inr rs, s1)" "best_first score rs" "mset rs = mset (c # ranked)"
    "bw_mgr s1 = bw_mgr s" using insert_ranked_ok [OF assms(1), of c ranked s] Cons.prems by (auto simp: ranks_def)
  have "set rs = set (c # ranked)" using r(3) by (metis set_mset_mset)
  moreover have "distinct rs" using mset_eq_imp_distinct_iff [OF r(3)] Cons.prems(2) by auto
  ultimately have "ranks score (ctxs @ rs) s1 (rank_insertion E i mx ctxs rs s1)"
    using Cons.IH [of rs s1] Cons.prems r(2) by auto
  then show ?case using r by (auto simp: ranks_def)
qed (simp add: ranks_def)

lemma merge_ranked_ok:
  assumes "judge E i mx score C" "set (xs @ ys) \<subseteq> C" "distinct (xs @ ys)" "best_first score xs" "best_first score ys"
  shows "ranks score (xs @ ys) s (merge_ranked E i mx xs ys s)"
  using assms
proof (induction E i mx xs ys arbitrary: s rule: merge_ranked.induct)
  case (3 E i mx a xs b ys)
  have ab: "a \<in> C" "b \<in> C" "a \<noteq> b" using "3.prems" by auto
  obtain s1 where s1: "compare_ctxs E i mx a b s = Some (Inr (score a > score b), s1)" "bw_mgr s1 = bw_mgr s"
    using judge_compare [OF "3.prems"(1) ab] by blast
  show ?case
  proof (cases "score a > score b")
    case True
    obtain rs s2 where r: "merge_ranked E i mx xs (b # ys) s1 = Some (Inr rs, s2)" "best_first score rs" "mset rs = mset (xs @ b # ys)"
      "bw_mgr s2 = bw_mgr s1" using "3.IH"(1) [OF True, of s1] "3.prems" by (auto simp: ranks_def)
    have "set rs = set (xs @ b # ys)" using r(3) by (metis set_mset_mset)
    then have "best_first score (a # rs)" using r(2) True "3.prems"(4,5) by fastforce
    then show ?thesis using s1 r True by (simp add: ranks_def)
  next
    case False
    then have lt: "score b > score a" using judge_total [OF "3.prems"(1) ab] by simp
    obtain rs s2 where r: "merge_ranked E i mx (a # xs) ys s1 = Some (Inr rs, s2)" "best_first score rs" "mset rs = mset (a # xs @ ys)"
      "bw_mgr s2 = bw_mgr s1" using "3.IH"(2) [OF False, of s1] "3.prems" by (auto simp: ranks_def)
    have "set rs = set (a # xs @ ys)" using r(3) by (metis set_mset_mset)
    then have "best_first score (b # rs)" using r(2) lt "3.prems"(4,5) by fastforce
    then show ?thesis using s1 r False by (simp add: ranks_def)
  qed
qed (simp_all add: ranks_def)

lemma rank_ok:
  assumes "judge E i mx score C" "set ctxs \<subseteq> C" "distinct ctxs"
  shows "ranks score ctxs s (rank E i mx ctxs s)"
  using assms
proof (induction E i mx ctxs arbitrary: s rule: rank.induct)
  case (1 E i mx ctxs)
  consider "length ctxs \<le> 1" | "1 < length ctxs" "length ctxs < MERGE_RANK_THRESHOLD" | "\<not> length ctxs \<le> 1" "\<not> length ctxs < MERGE_RANK_THRESHOLD"
    by linarith
  then show ?case
  proof cases
    case 1
    then have "best_first score ctxs" by (cases ctxs) auto
    then show ?thesis using 1 by (subst rank.simps) (simp add: ranks_def)
  next
    case 2
    then show ?thesis using rank_insertion_ok [OF "1.prems"(1), of ctxs "[]" s] "1.prems" by (subst rank.simps) simp
  next
    case 3
    let ?m = "length ctxs div 2"
    have sp: "set (take ?m ctxs) \<subseteq> C" "set (drop ?m ctxs) \<subseteq> C" "distinct (take ?m ctxs)" "distinct (drop ?m ctxs)"
      using "1.prems"(2,3) by (auto dest: in_set_takeD in_set_dropD)
    obtain ls s1 where l: "rank E i mx (take ?m ctxs) s = Some (Inr ls, s1)" "best_first score ls" "mset ls = mset (take ?m ctxs)" "bw_mgr s1 = bw_mgr s"
      using "1.IH"(1) [OF 3 refl "1.prems"(1) sp(1,3), of s] by (auto simp: ranks_def)
    obtain rs s2 where r: "rank E i mx (drop ?m ctxs) s1 = Some (Inr rs, s2)" "best_first score rs" "mset rs = mset (drop ?m ctxs)" "bw_mgr s2 = bw_mgr s1"
      using "1.IH"(2) [OF 3 refl "1.prems"(1) sp(2,4), of s1] by (auto simp: ranks_def)
    have m: "mset (ls @ rs) = mset ctxs" using l(3) r(3) by (metis append_take_drop_id mset_append)
    then have "distinct (ls @ rs)" "set (ls @ rs) \<subseteq> C"
      using mset_eq_imp_distinct_iff [OF m] "1.prems"(2,3) by (auto simp: mset_eq_setD [OF m, symmetric])
    then have "ranks score (ls @ rs) s2 (merge_ranked E i mx ls rs s2)"
      by (intro merge_ranked_ok [OF "1.prems"(1)] l(2) r(2))
    then show ?thesis using 3 l(1,4) r(1,4) m by (subst rank.simps) (auto simp: ranks_def Let_def)
  qed
qed

text \<open>The contexts from the best to the worst.\<close>

definition ranking :: "(sem_context \<Rightarrow> int) \<Rightarrow> sem_context list \<Rightarrow> sem_context list" where
  "ranking score ctxs = sort_key (\<lambda>c. - score c) ctxs"

lemma best_first_unique:
  assumes "best_first score rs" "mset rs = mset ctxs" "inj_on score (set ctxs)"
  shows "rs = ranking score ctxs"
proof -
  have st: "set rs = set ctxs" using assms(2) by (rule mset_eq_setD)
  have so: "sorted (map (\<lambda>c. - score c) rs)" using assms(1) by (simp add: sorted_map sorted_wrt_mono_rel [of _ "\<lambda>a b. score a > score b"])
  have d: "distinct rs" using assms(1) by (induction rs) auto
  then have d': "distinct (ranking score ctxs)" using mset_eq_imp_distinct_iff [OF assms(2)] by (simp add: ranking_def)
  show ?thesis
  proof (rule map_sorted_distinct_set_unique [where f = "\<lambda>c. - score c"])
    show "inj_on (\<lambda>c. - score c) (set rs \<union> set (ranking score ctxs))" using assms(3) st by (auto simp: ranking_def inj_on_def)
    show "distinct (map (\<lambda>c. - score c) rs)" "distinct (map (\<lambda>c. - score c) (ranking score ctxs))"
      using d d' assms(3) st by (auto simp: distinct_map ranking_def inj_on_def)
  qed (use so st in \<open>auto simp: ranking_def\<close>)
qed

section \<open>Selection\<close>

text \<open>Every comparison fits the free part of the KV capacity.\<close>

definition comparisons_fit :: "env \<Rightarrow> string \<Rightarrow> sem_context set \<Rightarrow> kv_mgr \<Rightarrow> bool" where
  "comparisons_fit E i C m \<longleftrightarrow> 0 \<le> global_used m \<and> (\<forall>a \<in> C. \<forall>b \<in> C.
     0 \<le> token_length (ev_tk E) (MsgData (compare_prompt_of i a b)) * bytes_per_token m \<and>
     global_used m + token_length (ev_tk E) (MsgData (compare_prompt_of i a b)) * bytes_per_token m \<le> kv_capacity m)"

lemma partition_ok:
  assumes j: "judge E i mx score C" and C: "pivot \<in> C" "set others \<subseteq> C" "pivot \<notin> set others"
    and fit: "comparisons_fit E i C (bw_mgr s)" and n: "0 < concurrency"
  shows "\<exists>better worse s'. partition_ctxs pick E i mx concurrency pivot others s = Some (Inr (better, worse), s') \<and> bw_mgr s' = bw_mgr s \<and>
    mset better = mset [x \<leftarrow> others. score x > score pivot] \<and> mset worse = mset [x \<leftarrow> others. \<not> score x > score pivot]"
proof -
  let ?m = "bw_mgr s"
  define tb where "tb = (\<lambda>x. (token_length (ev_tk E) (MsgData (compare_prompt_of i pivot x)) * bytes_per_token ?m,
    pbind (compare_text E i mx (raw_request (state pivot)) (compare_prompt_of i pivot x)) (\<lambda>v. pret (x, v))))"
  have y: "\<exists>t w'. snd (tb x) w = (Inr (x, t), w') \<and> (py_startswith t ''B'' \<longleftrightarrow> score x > score pivot)" if "x \<in> set others" for x w
  proof -
    have "x \<in> C" "pivot \<noteq> x" using C that by auto
    then show ?thesis
      using judge_text [OF j C(1), of x "raw_request (state pivot)" w] by (auto simp: tb_def pbind_apply)
  qed
  have yd: "fst v = x \<and> (py_startswith (snd v) ''B'' \<longleftrightarrow> score x > score pivot)" if xo: "x \<in> set others" and yv: "yields (tb x) v" for x v
  proof -
    obtain w w' where w: "snd (tb x) w = (Inr v, w')" using yv by (auto simp: yields_def)
    obtain t w'' where t: "snd (tb x) w = (Inr (x, t), w'')" "py_startswith t ''B'' \<longleftrightarrow> score x > score pivot"
      using y [OF xo, of w] by blast
    from w t(1) have "v = (x, t)" by simp
    then show ?thesis using t(2) by simp
  qed
  have nr: "never_raises (tb x)" if "x \<in> set others" for x unfolding never_raises_def using y [OF that] by blast
  have "compare_task E i mx pivot ?m x = Inr (tb x)" for x by (simp add: compare_task_def compare_prompt_eq tb_def)
  moreover have "0 \<le> fst (tb x) \<and> global_used ?m + fst (tb x) \<le> kv_capacity ?m" if "x \<in> set others" for x
    using fit C that by (auto simp: tb_def comparisons_fit_def)
  ultimately have bt: "\<forall>x \<in> set others. compare_task E i mx pivot ?m x = Inr (tb x) \<and> never_raises (tb x) \<and> 0 \<le> fst (tb x) \<and>
      global_used ?m + fst (tb x) \<le> kv_capacity ?m"
    using nr by blast
  then obtain rs xs s' where r: "blocking_execute_tasks pick others (compare_task E i mx pivot) concurrency s = Some (Inr rs, s')"
    "bw_mgr s' = ?m" "mset xs = mset others" "list_all2 (\<lambda>x v. yields (tb x) v) xs rs"
    using blocking_returns [where task_builder = "compare_task E i mx pivot" and pick = pick, OF n _ bt] fit
    unfolding comparisons_fit_def by blast
  have "set xs \<subseteq> set others" using mset_eq_setD [OF r(3)] by simp
  with r(4) have f: "map fst [(x, v) \<leftarrow> rs. py_startswith v ''B''] = [x \<leftarrow> xs. score x > score pivot]"
    "map fst [(x, v) \<leftarrow> rs. \<not> py_startswith v ''B''] = [x \<leftarrow> xs. \<not> score x > score pivot]"
    by (induction rule: list_all2_induct) (auto simp: case_prod_beta dest!: yd)
  show ?thesis using r(1,2) f r(3) by (auto simp: partition_ctxs_def)
qed

lemma best_first_ranking: "inj_on score (set xs) \<Longrightarrow> distinct xs \<Longrightarrow> best_first score (ranking score xs)"
proof -
  assume a: "inj_on score (set xs)" "distinct xs"
  have "sorted (map (\<lambda>c. - score c) (ranking score xs))" by (simp add: ranking_def)
  moreover have "distinct (map (\<lambda>c. - score c) (ranking score xs))"
    using a by (auto simp: ranking_def distinct_map inj_on_def)
  ultimately have "sorted_wrt (<) (map (\<lambda>c. - score c) (ranking score xs))" by (simp add: strict_sorted_iff)
  then show ?thesis by (simp add: sorted_wrt_map)
qed

lemma ranking_mset: "inj_on score (set xs) \<Longrightarrow> distinct xs \<Longrightarrow> mset ys = mset xs \<Longrightarrow> ranking score ys = ranking score xs"
proof -
  assume a: "inj_on score (set xs)" "distinct xs" "mset ys = mset xs"
  have "best_first score (ranking score ys)"
    using a mset_eq_imp_distinct_iff [OF a(3)] mset_eq_setD [OF a(3)] by (intro best_first_ranking) simp_all
  then show ?thesis by (rule best_first_unique) (use a in \<open>simp_all add: ranking_def\<close>)
qed

text \<open>The ranking splits at the pivot.\<close>

lemma ranking_pivot:
  assumes "inj_on score (set (p # xs))" "distinct (p # xs)"
  shows "ranking score (p # xs) = ranking score [x \<leftarrow> xs. score x > score p] @ p # ranking score [x \<leftarrow> xs. \<not> score x > score p]"
    (is "_ = ?l @ p # ?r")
proof (rule best_first_unique [OF _ _ assms(1), symmetric])
  have i: "inj_on score (set xs)" "distinct xs" using assms by (auto simp: inj_on_def)
  have b: "best_first score ?l" "best_first score ?r"
    using i by (auto intro!: best_first_ranking simp: inj_on_def)
  have l: "score x > score p" if "x \<in> set ?l" for x using that by (simp add: ranking_def)
  have r: "score p > score x" if "x \<in> set ?r" for x
  proof -
    have x: "x \<in> set xs" "\<not> score x > score p" using that by (auto simp: ranking_def)
    then have "score x \<noteq> score p" using assms by (auto simp: inj_on_def)
    then show ?thesis using x(2) by simp
  qed
  have "score x > score y" if "x \<in> set ?l" "y \<in> set ?r" for x y using l [OF that(1)] r [OF that(2)] by (rule less_trans [rotated])
  then show "best_first score (?l @ p # ?r)" using b l r unfolding sorted_wrt_append sorted_wrt.simps list.set by blast
  have "filter_mset (\<lambda>x. score x > score p) (mset xs) + filter_mset (\<lambda>x. \<not> score x > score p) (mset xs) = mset xs"
    by (rule multiset_partition [symmetric])
  then show "mset (?l @ p # ?r) = mset (p # xs)" by (simp add: ranking_def)
qed

text \<open>The call returns \<open>k\<close> of the contexts, the best ones in some order.\<close>

definition selects :: "(sem_context \<Rightarrow> int) \<Rightarrow> sem_context list \<Rightarrow> int \<Rightarrow> kv_mgr \<Rightarrow> (sem_context list res \<times> bworld) option \<Rightarrow> bool" where
  "selects score ctxs k m x \<longleftrightarrow> (\<exists>rs s'. x = Some (Inr rs, s') \<and> mset rs = mset (take (nat k) (ranking score ctxs)) \<and> bw_mgr s' = m)"

lemma quickselect_ok:
  assumes j: "judge E i mx score C" and n: "0 < concurrency"
  shows "set ctxs \<subseteq> C \<Longrightarrow> distinct ctxs \<Longrightarrow> 0 \<le> k \<Longrightarrow> comparisons_fit E i C (bw_mgr s) \<Longrightarrow>
    selects score ctxs k (bw_mgr s) (quickselect pick E i mx concurrency ctxs k s)"
proof (induction "length ctxs" arbitrary: ctxs k s rule: less_induct)
  case less
  show ?case
  proof (cases "int (length ctxs) \<le> k")
    case True
    then show ?thesis by (subst quickselect.simps) (simp add: selects_def ranking_def)
  next
    case False
    then obtain p xs where ctxs: "ctxs = p # xs" using less.prems(3) by (cases ctxs) auto
    have inj: "inj_on score (set ctxs)" using j less.prems(1) by (auto simp: judge_def dest: inj_on_subset)
    obtain better worse s1 where q: "partition_ctxs pick E i mx concurrency p xs s = Some (Inr (better, worse), s1)" "bw_mgr s1 = bw_mgr s"
      "mset better = mset [x \<leftarrow> xs. score x > score p]" "mset worse = mset [x \<leftarrow> xs. \<not> score x > score p]"
      using partition_ok [OF j, of p xs s concurrency pick] less.prems n ctxs by auto
    have sub: "set better \<subseteq> set xs" "set worse \<subseteq> set xs" using mset_eq_setD [OF q(3)] mset_eq_setD [OF q(4)] by auto
    have ln: "length better < length ctxs" "length worse < length ctxs"
      using mset_eq_length [OF q(3)] mset_eq_length [OF q(4)] ctxs by (simp_all add: le_imp_less_Suc)
    have dst: "distinct better" "distinct worse"
      using mset_eq_imp_distinct_iff [OF q(3)] mset_eq_imp_distinct_iff [OF q(4)] less.prems(2) ctxs by simp_all
    have C: "set better \<subseteq> C" "set worse \<subseteq> C" using sub less.prems(1) ctxs by auto
    have ij: "inj_on score (set [x \<leftarrow> xs. P x])" for P using inj ctxs by (auto simp: inj_on_def)
    have rk: "ranking score ctxs = ranking score better @ p # ranking score worse"
      using ranking_pivot [of score p xs] inj less.prems(2) ctxs ranking_mset [OF ij _ q(3)] ranking_mset [OF ij _ q(4)] by simp
    have lr: "length (ranking score better) = length better" by (simp add: ranking_def)
    note run = quickselect.simps [of pick E i mx concurrency ctxs k s]
    consider "int (length better) \<ge> k" | "int (length better) + 1 = k" | "int (length better) + 1 < k" by linarith
    then show ?thesis
    proof cases
      case 1
      then have "quickselect pick E i mx concurrency ctxs k s = quickselect pick E i mx concurrency better k s1"
        using run False ctxs q(1) by simp
      moreover have "selects score better k (bw_mgr s1) (quickselect pick E i mx concurrency better k s1)"
        using less.hyps [OF ln(1) C(1) dst(1) less.prems(3), of s1] less.prems(4) q(2) by simp
      moreover have "take (nat k) (ranking score ctxs) = take (nat k) (ranking score better)" using 1 rk lr by simp
      ultimately show ?thesis using q(2) by (simp add: selects_def)
    next
      case 2
      then have "quickselect pick E i mx concurrency ctxs k s = Some (Inr (better @ [p]), s1)" using run False ctxs q(1) by simp
      moreover have "take (nat k) (ranking score ctxs) = ranking score better @ [p]"
      proof -
        have "nat k = length better + Suc 0" using 2 by simp
        then show ?thesis using rk lr by simp
      qed
      ultimately show ?thesis using q(2) by (simp add: selects_def ranking_def)
    next
      case 3
      let ?k = "k - int (length better) - 1"
      obtain rest s2 where r: "quickselect pick E i mx concurrency worse ?k s1 = Some (Inr rest, s2)"
        "mset rest = mset (take (nat ?k) (ranking score worse))" "bw_mgr s2 = bw_mgr s"
        using less.hyps [OF ln(2) C(2) dst(2), of ?k s1] 3 less.prems(4) q(2) by (auto simp: selects_def)
      have "quickselect pick E i mx concurrency ctxs k s = Some (Inr (better @ [p] @ rest), s2)"
        using run False ctxs q(1) 3 r(1) by simp
      moreover have "take (nat k) (ranking score ctxs) = ranking score better @ p # take (nat ?k) (ranking score worse)"
      proof -
        have "nat k = length better + Suc (nat ?k)" using 3 by simp
        then show ?thesis using rk lr by simp
      qed
      ultimately show ?thesis using r(2,3) by (simp add: selects_def ranking_def)
    qed
  qed
qed

text \<open>
  C15. Top-k is correct: with a model that compares documents by a score, \<open>SemTopK\<close> returns, the
  result is the \<open>k\<close> best contexts, the best first, whatever order the comparisons of a partition
  end in, and the accounts of the KV manager are as before. Every comparison is assumed to fit the
  free part of the KV capacity.
\<close>

theorem topk_correct:
  assumes "distinct ctxs" "judge E instruction mx score (set ctxs)" "0 \<le> k" "0 < concurrency"
    and "comparisons_fit E instruction (set ctxs) (bw_mgr s)"
  shows "\<exists>s'. topk_call pick E instruction k mx concurrency ctxs s = Some (Inr (take (nat k) (sort_key (\<lambda>c. - score c) ctxs)), s') \<and>
    bw_mgr s' = bw_mgr s"
proof -
  have inj: "inj_on score (set ctxs)" using assms(2) by (simp add: judge_def)
  have fin: "\<exists>s'. rank E instruction mx rs t = Some (Inr (take (nat k) (ranking score ctxs)), s') \<and> bw_mgr s' = bw_mgr s"
    if rs: "mset rs = mset (take (nat k) (ranking score ctxs))" and t: "bw_mgr t = bw_mgr s" for rs t
  proof -
    have sub: "set rs \<subseteq> set ctxs" using mset_eq_setD [OF rs] by (auto simp: ranking_def dest: in_set_takeD)
    have d: "distinct rs" using mset_eq_imp_distinct_iff [OF rs] assms(1) by (simp add: ranking_def)
    obtain out s' where o: "rank E instruction mx rs t = Some (Inr out, s')" "best_first score out" "mset out = mset rs" "bw_mgr s' = bw_mgr t"
      using rank_ok [OF assms(2) sub d, of t] by (auto simp: ranks_def)
    let ?top = "take (nat k) (ranking score ctxs)"
    have it: "inj_on score (set ?top)" using inj by (rule inj_on_subset) (auto simp: ranking_def dest: in_set_takeD)
    have "best_first score ?top" using best_first_ranking [OF inj assms(1)] by (rule sorted_wrt_take)
    then have "?top = ranking score ?top" by (rule best_first_unique) (simp_all add: it)
    moreover have "out = ranking score ?top" using best_first_unique [OF o(2) _ it] o(3) rs by simp
    ultimately show ?thesis using o(1,4) t by simp
  qed
  show ?thesis
  proof (cases "int (length ctxs) \<le> k")
    case True
    then show ?thesis using fin [of ctxs s] by (simp add: topk_call_def ranking_def)
  next
    case False
    obtain rs t where "quickselect pick E instruction mx concurrency ctxs k s = Some (Inr rs, t)"
      "mset rs = mset (take (nat k) (ranking score ctxs))" "bw_mgr t = bw_mgr s"
      using quickselect_ok [OF assms(2,4) _ assms(1,3,5), of pick] by (auto simp: selects_def)
    then show ?thesis using fin [of rs t] False by (simp add: topk_call_def ranking_def)
  qed
qed

text \<open>Documents of one letter each, and a model that prefers the later letter.\<close>

definition demo_doc :: "string \<Rightarrow> sem_context" where
  "demo_doc t = \<lparr>inp = \<lparr>data = [\<lparr>role = ''user'', msg_type = None, content = t\<rparr>], token_len = 1, right_data = []\<rparr>, outputs = [],
     state = execution_state 1\<rparr>"

definition demo_judge :: env where
  "demo_judge = (demo_env ''a'')\<lparr>ev_tk := \<lparr>tk_encode = (\<lambda>_. [0]), tk_chat_template = (\<lambda>_. ''t'')\<rparr>,
     ev_engine := (\<lambda>log rr req. Inr \<lparr>rs_id = ''r'', rs_text =
       (if rq_prompt req = MsgData (compare_prompt_of ''i'' (demo_doc ''x'') (demo_doc ''z'')) \<or>
           rq_prompt req = MsgData (compare_prompt_of ''i'' (demo_doc ''x'') (demo_doc ''y'')) \<or>
           rq_prompt req = MsgData (compare_prompt_of ''i'' (demo_doc ''y'') (demo_doc ''z'')) then '' b'' else ''a''), rs_finish = None\<rparr>)\<rparr>"

definition demo_score :: "sem_context \<Rightarrow> int" where
  "demo_score c = (if c = demo_doc ''x'' then 1 else if c = demo_doc ''y'' then 2 else 3)"

lemma demo_prompts:
  "compare_prompt_of ''i'' (demo_doc ''z'') (demo_doc ''x'') \<noteq> compare_prompt_of ''i'' (demo_doc ''x'') (demo_doc ''z'')"
  "compare_prompt_of ''i'' (demo_doc ''z'') (demo_doc ''x'') \<noteq> compare_prompt_of ''i'' (demo_doc ''x'') (demo_doc ''y'')"
  "compare_prompt_of ''i'' (demo_doc ''z'') (demo_doc ''x'') \<noteq> compare_prompt_of ''i'' (demo_doc ''y'') (demo_doc ''z'')"
  "compare_prompt_of ''i'' (demo_doc ''y'') (demo_doc ''x'') \<noteq> compare_prompt_of ''i'' (demo_doc ''x'') (demo_doc ''z'')"
  "compare_prompt_of ''i'' (demo_doc ''y'') (demo_doc ''x'') \<noteq> compare_prompt_of ''i'' (demo_doc ''x'') (demo_doc ''y'')"
  "compare_prompt_of ''i'' (demo_doc ''y'') (demo_doc ''x'') \<noteq> compare_prompt_of ''i'' (demo_doc ''y'') (demo_doc ''z'')"
  "compare_prompt_of ''i'' (demo_doc ''z'') (demo_doc ''y'') \<noteq> compare_prompt_of ''i'' (demo_doc ''x'') (demo_doc ''z'')"
  "compare_prompt_of ''i'' (demo_doc ''z'') (demo_doc ''y'') \<noteq> compare_prompt_of ''i'' (demo_doc ''x'') (demo_doc ''y'')"
  "compare_prompt_of ''i'' (demo_doc ''z'') (demo_doc ''y'') \<noteq> compare_prompt_of ''i'' (demo_doc ''y'') (demo_doc ''z'')"
  by code_simp+

lemma demo_doc_inj [simp]: "demo_doc s = demo_doc t \<longleftrightarrow> s = t"
  by (simp add: demo_doc_def)

lemma demo_judge_ok: "judge demo_judge ''i'' 5 demo_score {demo_doc ''x'', demo_doc ''z'', demo_doc ''y''}"
proof -
  have v: "\<not> py_startswith (verdict r) ''A'' \<and> py_startswith (verdict r) ''B''" if "rs_text r = '' b''" for r
    using that by (simp add: verdict_def) code_simp
  have u: "py_startswith (verdict r) ''A'' \<and> \<not> py_startswith (verdict r) ''B''" if "rs_text r = ''a''" for r
    using that by (simp add: verdict_def) code_simp
  show ?thesis
    unfolding judge_def using demo_prompts
    by (auto simp: demo_judge_def build_request_def demo_score_def inj_on_def u v)
qed

theorem topk_correct_witness:
  "\<exists>s'. topk_call (\<lambda>n. n) demo_judge ''i'' 2 5 20 [demo_doc ''x'', demo_doc ''z'', demo_doc ''y''] demo_bworld =
     Some (Inr [demo_doc ''z'', demo_doc ''y''], s')"
proof -
  have fit: "comparisons_fit demo_judge ''i'' (set [demo_doc ''x'', demo_doc ''z'', demo_doc ''y'']) (bw_mgr demo_bworld)"
    by (simp add: comparisons_fit_def demo_bworld_def kv_mgr_init_def demo_judge_def)
  have j: "judge demo_judge ''i'' 5 demo_score (set [demo_doc ''x'', demo_doc ''z'', demo_doc ''y''])" using demo_judge_ok by simp
  have so: "take (nat 2) (sort_key (\<lambda>c. - demo_score c) [demo_doc ''x'', demo_doc ''z'', demo_doc ''y'']) = [demo_doc ''z'', demo_doc ''y'']"
    by (simp add: demo_score_def numeral_eq_Suc)
  show ?thesis using topk_correct [OF _ j _ _ fit, of 2 20 "\<lambda>n. n"] unfolding so by auto
qed

end
