(* ===== verification/Aggregation.thy ===== *)
theory Aggregation
  imports Reducers
begin

text \<open>
  \<open>SemAgg\<close> (\<open>kalypso/sem_ops/reducers.py\<close>) ends with one context: every round replaces the chunks
  of several contexts by one context each, so the working set shrinks until one is left.
\<close>

section \<open>Chunks\<close>







section \<open>Reductions\<close>





















end
