(* ===== verification/Data_Source.thy ===== *)
theory Data_Source
  imports Sem_Context
begin

text \<open>
  The readers of a query's data (\<open>kalypso/data/data.py\<close>): a directory of numbered text files, a
  single message file or a CSV table becomes a list of contexts. The file system is an argument
  that gives what is at a path. The parts of the standard library the readers use are modelled:
  \<open>Path.stem\<close> and \<open>Path.suffix\<close>, \<open>int\<close> of a string, universal newlines and \<open>csv.DictReader\<close> with
  its default dialect (without its limit on the length of a field).
\<close>

section \<open>Paths and numbers\<close>

datatype fs_node = NoFile | TextFile string | TextDir "(string \<times> string) list"

definition path_name :: "string \<Rightarrow> string" where
  "path_name p = rev (takeWhile (\<lambda>c. c \<noteq> CHR ''/'') (dropWhile (\<lambda>c. c = CHR ''/'') (rev p)))"

text \<open>A dot that is neither the first nor the last character of the name starts the suffix.\<close>

definition path_suffix :: "string \<Rightarrow> string" where
  "path_suffix p =
     (let name = path_name p; ext = rev (takeWhile (\<lambda>c. c \<noteq> CHR ''.'') (rev name))
      in if ext \<noteq> [] \<and> length ext + 1 < length name then CHR ''.'' # ext else [])"

definition path_stem :: "string \<Rightarrow> string" where
  "path_stem p = (let name = path_name p in take (length name - length (path_suffix p)) name)"

definition is_digit :: "char \<Rightarrow> bool" where
  "is_digit c \<longleftrightarrow> 48 \<le> (of_char c :: nat) \<and> (of_char c :: nat) \<le> 57"

text \<open>Digits, where single underscores may stand between two of them.\<close>

primrec digits_value :: "string \<Rightarrow> int \<Rightarrow> bool \<Rightarrow> int res" where
  "digits_value [] n after_digit = (if after_digit then Inr n else Inl ValueError)"
| "digits_value (c # s) n after_digit =
     (if is_digit c then digits_value s (10 * n + int (of_char c) - 48) True
      else if c = CHR ''_'' \<and> after_digit then digits_value s n False
      else Inl ValueError)"

definition int_of_string :: "string \<Rightarrow> int res" where
  "int_of_string s =
     (case py_strip s of
        [] \<Rightarrow> Inl ValueError
      | c # r \<Rightarrow>
          if c = CHR ''-'' then rbind (digits_value r 0 False) (\<lambda>n. Inr (- n))
          else if c = CHR ''+'' then digits_value r 0 False
          else digits_value (c # r) 0 False)"

fun universal_newlines :: "string \<Rightarrow> string" where
  "universal_newlines [] = []"
| "universal_newlines (c # s) =
     (if c = CHR 0x0D
      then (case s of [] \<Rightarrow> nl
            | d # r \<Rightarrow> if d = CHR 0x0A then nl @ universal_newlines r else nl @ universal_newlines s)
      else c # universal_newlines s)"

section \<open>CSV\<close>

datatype csv_state = StartRecord | StartField | InField | InQuoted | QuoteInQuoted

datatype csv_action = AddChars csv_state string | SaveField | EndRecord | EmptyRecord

definition csv_unquoted :: "char \<Rightarrow> csv_action" where
  "csv_unquoted c = (if c = CHR '','' then SaveField else if c = CHR 0x0A then EndRecord else AddChars InField [c])"

definition csv_action :: "csv_state \<Rightarrow> char \<Rightarrow> csv_action" where
  "csv_action st c =
     (case st of
        StartRecord \<Rightarrow> if c = CHR 0x0A then EmptyRecord else if c = CHR 0x22 then AddChars InQuoted [] else csv_unquoted c
      | StartField \<Rightarrow> if c = CHR 0x22 then AddChars InQuoted [] else csv_unquoted c
      | InField \<Rightarrow> csv_unquoted c
      | InQuoted \<Rightarrow> if c = CHR 0x22 then AddChars QuoteInQuoted [] else AddChars InQuoted [c]
      | QuoteInQuoted \<Rightarrow> if c = CHR 0x22 then AddChars InQuoted [c] else csv_unquoted c)"

primrec csv_rows :: "csv_state \<Rightarrow> string \<Rightarrow> string list \<Rightarrow> string \<Rightarrow> string list list" where
  "csv_rows st field row [] = (if st = StartRecord then [] else [row @ [field]])"
| "csv_rows st field row (c # s) =
     (case csv_action st c of
        AddChars st' cs \<Rightarrow> csv_rows st' (field @ cs) row s
      | SaveField \<Rightarrow> csv_rows StartField [] (row @ [field]) s
      | EndRecord \<Rightarrow> (row @ [field]) # csv_rows StartRecord [] [] s
      | EmptyRecord \<Rightarrow> [] # csv_rows StartRecord [] [] s)"

text \<open>
  A row of \<open>DictReader\<close>: missing fields are \<open>None\<close>, surplus ones a list under the key \<open>None\<close>.
  Empty rows after the header are skipped.
\<close>

datatype csv_value = CsvStr string | CsvNone | CsvRest "string list"

type_synonym csv_row = "(string option, csv_value) dict"

definition dict_row :: "string list \<Rightarrow> string list \<Rightarrow> csv_row" where
  "dict_row names row =
     (let d = fold (\<lambda>(k, v). AList.update (Some k) (CsvStr v)) (zip names row) []
      in if length names < length row then AList.update None (CsvRest (drop (length names) row)) d
         else fold (\<lambda>k. AList.update (Some k) CsvNone) (drop (length row) names) d)"

definition dict_reader :: "string \<Rightarrow> csv_row list" where
  "dict_reader text =
     (case csv_rows StartRecord [] [] text of
        [] \<Rightarrow> []
      | names # rows \<Rightarrow> map (dict_row names) [r \<leftarrow> rows. r \<noteq> []])"

fun csv_str :: "csv_value \<Rightarrow> string" where
  "csv_str (CsvStr s) = s"
| "csv_str CsvNone = ''None''"
| "csv_str (CsvRest xs) = ''['' @ py_join '', '' (map py_repr xs) @ '']''"

section \<open>Readers\<close>

definition source_ctx :: "int \<Rightarrow> sem_input \<Rightarrow> int \<Rightarrow> sem_context" where
  "source_ctx rr i n = \<lparr>inp = i, outputs = [], state = (execution_state rr)\<lparr>idx := n\<rparr>\<rparr>"

definition message_ctx :: "int \<Rightarrow> string \<Rightarrow> int \<Rightarrow> sem_context" where
  "message_ctx rr text n =
     source_ctx rr (semantic_input (MsgData (get_data_prompt (TextData (py_strip (universal_newlines text))) [])) (-1) []) n"

definition message_reader :: "int \<Rightarrow> string \<Rightarrow> string \<Rightarrow> sem_context res" where
  "message_reader rr path text = rbind (int_of_string (path_stem path)) (\<lambda>n. Inr (message_ctx rr text n))"

definition csv_row_text :: "csv_row \<Rightarrow> string" where
  "csv_row_text row =
     (let field = (\<lambda>k. py_strip (csv_str (dget row (Some k) (CsvStr [])))); has = (\<lambda>k. Some k \<in> set (dkeys row)) in
      if has ''data'' then field ''data''
      else if has ''Text'' \<and> has ''Sentences'' then
        ''Text ID: '' @ field ''Text ID'' @ nl @ nl @ ''Clinical note:'' @ nl @ field ''Text'' @ nl @ nl @
        ''Numbered sentences:'' @ nl @ field ''Sentences''
      else if has ''Text'' then field ''Text''
      else py_join '' '' (map (\<lambda>v. py_strip (csv_str v)) (map snd row)))"

definition csv_reader :: "tokenizer \<Rightarrow> int \<Rightarrow> string \<Rightarrow> sem_context list" where
  "csv_reader tk rr text =
     map (\<lambda>(i, row). let t = csv_row_text row in
            source_ctx rr (semantic_input (TextData t) (token_length tk (TextData t)) []) (int i))
       (enumerate 0 (dict_reader (universal_newlines text)))"

text \<open>The text files of a directory in the order of their numbers.\<close>

definition is_txt :: "string \<times> string \<Rightarrow> bool" where
  "is_txt f \<longleftrightarrow> drop (length (fst f) - 4) (fst f) = ''.txt''"

definition dir_reader :: "int \<Rightarrow> (string \<times> string) list \<Rightarrow> sem_context list res" where
  "dir_reader rr files =
     rbind (map_res (\<lambda>f. rbind (int_of_string (path_stem (fst f))) (\<lambda>n. Inr (n, f))) (filter is_txt files)) (\<lambda>keyed.
       map_res (\<lambda>(_, f). message_reader rr (fst f) (snd f)) (sort_key fst keyed))"

definition data_source :: "tokenizer \<Rightarrow> (string \<Rightarrow> fs_node) \<Rightarrow> int \<Rightarrow> string \<Rightarrow> sem_context list res" where
  "data_source tk fs rr path =
     (case fs path of
        TextDir files \<Rightarrow> dir_reader rr files
      | node \<Rightarrow>
          let suffix = py_lower (path_suffix path);
              text = (case node of TextFile t \<Rightarrow> Inr t | _ \<Rightarrow> Inl FileNotFoundError)
          in if suffix = ''.json'' then rbind text (\<lambda>t. rbind (message_reader rr path t) (\<lambda>c. Inr [c]))
             else if suffix = ''.csv'' then rbind text (\<lambda>t. Inr (csv_reader tk rr t))
             else Inr [])"

definition research_category_data :: "int \<Rightarrow> sem_context list" where
  "research_category_data no_request =
     map (\<lambda>c. source_ctx no_request (semantic_input (MsgData (get_data_prompt (TextData c) [])) (-1) []) (-1))
       [''ai'', ''biology'', ''chemistry'', ''geology'', ''math'', ''phyics'']"

section \<open>What the readers give\<close>

lemma source_ctx_ok: "data_wf (data i) \<Longrightarrow> right_data i = [] \<Longrightarrow> ctx_ok (source_ctx rr i n)"
  by (simp add: source_ctx_def ctx_ok_def)

lemma map_res_all: "map_res f xs = Inr ys \<Longrightarrow> (\<And>x y. x \<in> set xs \<Longrightarrow> f x = Inr y \<Longrightarrow> P y) \<Longrightarrow> \<forall>y \<in> set ys. P y"
proof
  fix y assume m: "map_res f xs = Inr ys" and p: "\<And>x y. x \<in> set xs \<Longrightarrow> f x = Inr y \<Longrightarrow> P y" and "y \<in> set ys"
  then have "Inr y \<in> set (map f xs)" unfolding map_res_Inr [OF m, symmetric] by simp
  then obtain x where "x \<in> set xs" "f x = Inr y" by (metis in_set_conv_nth length_map nth_map nth_mem)
  then show "P y" by (rule p)
qed

lemma message_ctx_ok: "ctx_ok (message_ctx rr t n)" "ctx_pin (message_ctx rr t n) = None"
    "raw_request (state (message_ctx rr t n)) = rr" "idx (state (message_ctx rr t n)) = n"
    "ctx_data (message_ctx rr t n) = get_data_prompt (TextData (py_strip (universal_newlines t))) []"
  by (simp_all add: message_ctx_def source_ctx_ok semantic_input_def)
     (simp_all add: source_ctx_def execution_state_def)

text \<open>Every context is well shaped, holds no pin and carries the request of the query.\<close>

lemma data_source_ctxs:
  assumes "data_source tk fs rr path = Inr ctxs"
  shows "\<forall>c \<in> set ctxs. ctx_ok c \<and> ctx_pin c = None \<and> raw_request (state c) = rr"
proof -
  let ?P = "\<lambda>c. ctx_ok c \<and> ctx_pin c = None \<and> raw_request (state c) = rr"
  have m: "?P c" if "message_reader rr p t = Inr c" for p t c
    using that by (auto simp: message_reader_def py_simps message_ctx_ok)
  have csv: "?P c" if "c \<in> set (csv_reader tk rr t)" for t c
    using that by (auto simp: csv_reader_def Let_def source_ctx_ok semantic_input_def)
      (auto simp: source_ctx_def execution_state_def)
  show ?thesis
  proof (cases "fs path")
    case (TextDir files)
    then obtain keyed :: "(int \<times> string \<times> string) list" where "map_res (\<lambda>(_, f). message_reader rr (fst f) (snd f)) keyed = Inr ctxs"
      using assms by (simp add: data_source_def dir_reader_def py_simps) blast
    then show ?thesis by (rule map_res_all) (auto dest: m)
  qed (use assms csv in \<open>auto simp: data_source_def Let_def py_simps dest: m split: if_splits\<close>)
qed

section \<open>Properties\<close>

lemma keyed_ctxs:
  assumes "map_res (\<lambda>f. rbind (int_of_string (path_stem (fst f))) (\<lambda>n. Inr (n, f))) files = Inr keyed"
  shows "keyed = map (\<lambda>f. (projr (int_of_string (path_stem (fst f))), f)) files \<and>
    (\<forall>f \<in> set files. \<exists>n. int_of_string (path_stem (fst f)) = Inr n)"
  using assms by (induction files arbitrary: keyed) (auto simp: py_simps)

lemma read_ctxs:
  assumes "\<forall>f \<in> set files. int_of_string (path_stem (fst (snd f))) = Inr (fst f)"
  shows "map_res (\<lambda>(_, f). message_reader rr (fst f) (snd f)) files = Inr (map (\<lambda>(n, f). message_ctx rr (snd f) n) files)"
  using assms by (induction files) (auto simp: message_reader_def)

text \<open>
  C40. A directory is read in numeric order: the contexts stand in the order of the numbers their
  files are named by, there is one for each text file, and each holds the stripped text of its
  file as the data prompt.
\<close>

theorem directory_read_in_order:
  assumes "fs path = TextDir files" "data_source tk fs rr path = Inr ctxs"
  shows "sorted (map (\<lambda>c. idx (state c)) ctxs) \<and>
    mset (map (\<lambda>c. (Inr (idx (state c)), ctx_data c)) ctxs) =
      mset (map (\<lambda>f. (int_of_string (path_stem (fst f)),
        get_data_prompt (TextData (py_strip (universal_newlines (snd f)))) [])) (filter is_txt files))"
proof -
  obtain keyed where k: "map_res (\<lambda>f. rbind (int_of_string (path_stem (fst f))) (\<lambda>n. Inr (n, f))) (filter is_txt files) = Inr keyed"
    and r: "map_res (\<lambda>(_, f). message_reader rr (fst f) (snd f)) (sort_key fst keyed) = Inr ctxs"
    using assms by (auto simp: data_source_def dir_reader_def py_simps)
  note kd = keyed_ctxs [OF k]
  have "\<forall>f \<in> set (sort_key fst keyed). int_of_string (path_stem (fst (snd f))) = Inr (fst f)" using kd by auto
  then have c: "ctxs = map (\<lambda>(n, f). message_ctx rr (snd f) n) (sort_key fst keyed)" using read_ctxs r by simp
  have "map (\<lambda>c. idx (state c)) ctxs = map fst (sort_key fst keyed)"
    by (simp add: c message_ctx_ok case_prod_beta)
  then have s: "sorted (map (\<lambda>c. idx (state c)) ctxs)" by simp
  have "mset (map (\<lambda>c. (Inr (idx (state c)), ctx_data c)) ctxs) =
      mset (map (\<lambda>(n, f). (Inr n, get_data_prompt (TextData (py_strip (universal_newlines (snd f)))) [])) keyed)"
    unfolding c by (simp add: message_ctx_ok case_prod_beta' comp_def)
  also have "\<dots> = mset (map (\<lambda>f. (int_of_string (path_stem (fst f)),
        get_data_prompt (TextData (py_strip (universal_newlines (snd f)))) [])) (filter is_txt files))"
  proof -
    have "Inr (projr (int_of_string (path_stem (fst f)))) = int_of_string (path_stem (fst f))" if "f \<in> set (filter is_txt files)" for f
      using kd that by (metis sum.sel(2))
    then have "map (\<lambda>(n, f). (Inr n, get_data_prompt (TextData (py_strip (universal_newlines (snd f)))) [])) keyed =
      map (\<lambda>f. (int_of_string (path_stem (fst f)), get_data_prompt (TextData (py_strip (universal_newlines (snd f)))) [])) (filter is_txt files)"
      unfolding conjunct1 [OF kd] map_map by (intro map_cong refl) (simp only: o_apply prod.case)
    then show ?thesis by simp
  qed
  finally show ?thesis using s by blast
qed

definition demo_fs :: "string \<Rightarrow> fs_node" where
  "demo_fs p = TextDir [(''10.txt'', ''ten''), (''notes.md'', ''no''), (''9.txt'', ''nine'')]"

definition demo_tk :: tokenizer where
  "demo_tk = \<lparr>tk_encode = map (\<lambda>_. 0), tk_chat_template = (\<lambda>ms. concat (map content ms))\<rparr>"

lemma demo_read: "case data_source demo_tk demo_fs 1 ''d'' of Inr ctxs \<Rightarrow> map (\<lambda>c. idx (state c)) ctxs = [9, 10] | _ \<Rightarrow> False"
  by code_simp

theorem directory_read_in_order_witness:
  "\<exists>ctxs. data_source demo_tk demo_fs 1 ''d'' = Inr ctxs \<and> sorted (map (\<lambda>c. idx (state c)) ctxs) \<and> length ctxs = 2"
proof -
  obtain ctxs where c: "data_source demo_tk demo_fs 1 ''d'' = Inr ctxs" "map (\<lambda>c. idx (state c)) ctxs = [9, 10]"
    using demo_read by (auto split: sum.splits)
  then have "length ctxs = 2" by (metis length_map list.size(3,4) One_nat_def Suc_1 add.commute plus_1_eq_Suc)
  moreover have "sorted (map (\<lambda>c. idx (state c)) ctxs)"
    using directory_read_in_order [of demo_fs "''d''" _ demo_tk 1 ctxs] c(1) by (simp add: demo_fs_def)
  ultimately show ?thesis using c(1) by blast
qed

end
