(* ===== verification/Plan_Exec.thy ===== *)
theory Plan_Exec
  imports Aggregation Data_Source
begin

text \<open>
  The run of a whole query: \<open>PlanExecutor.execute\<close> of \<open>kalypso/execution/pipeline_execution.py\<close>, which
  takes the contexts through the items of a plan, and \<open>SemanticPlan.execute\<close> and \<open>warmup\<close> of
  \<open>kalypso/controller/plan.py\<close>, which read the data, parse and build the plan and run it. The
  value \<open>None\<close> is a run that waits forever, or one for which the turns granted to the scheduler of
  a segment do not suffice. A build that raises is taken to leave the manager as it was: which
  stages it had registered until then is not tracked. Printing the plan and the counters is left
  out.
\<close>

section \<open>Operators and segments\<close>

text \<open>\<open>await item(ctxs)\<close> for a blocking operator.\<close>

definition blocking_call :: "(nat \<Rightarrow> nat) \<Rightarrow> env \<Rightarrow> phys_op \<Rightarrow> sem_context list \<Rightarrow> sem_context list bprog" where
  "blocking_call bpick E op ctxs =
     (case kind op of
        SemAgg i mx c \<Rightarrow> agg_call bpick E i mx c ctxs
      | SemTopK i k mx c \<Rightarrow> topk_call bpick E i k mx c ctxs
      | _ \<Rightarrow> blift (Inl TypeError))"

primrec join_all :: "env \<Rightarrow> phys_op \<Rightarrow> sem_context list \<Rightarrow> sem_context list prog" where
  "join_all E op [] = pret []"
| "join_all E op (ctx # ctxs) =
     pbind (fanout_call E op ctx) (\<lambda>children. pbind (join_all E op ctxs) (\<lambda>rest. pret (children @ rest)))"

type_synonym stage_stats = "(int, int \<times> int) dict"

definition run_segment ::
  "env \<Rightarrow> (sched \<Rightarrow> nat list) \<Rightarrow> nat \<Rightarrow> stage list \<Rightarrow> sem_context list \<Rightarrow> (sem_context list \<times> stage_stats) bprog" where
  "run_segment E pick fuel sgs ctxs s =
     (case run_rounds E pick fuel (sched_init ctxs sgs (bw_mgr s) (bw_world s) (bw_next_id s)) of
        None \<Rightarrow> None
      | Some (r, st) \<Rightarrow>
          Some (case r of Inl e \<Rightarrow> Inl e | Inr _ \<Rightarrow> Inr (sc_out st, sc_stat st),
                s\<lparr>bw_mgr := sc_mgr st, bw_world := sc_world st, bw_next_id := sc_next_id st\<rparr>))"

section \<open>Plans\<close>

text \<open>An operator that is neither blocking nor a join is not a list of stages.\<close>

primrec plan_execute ::
  "env \<Rightarrow> (sched \<Rightarrow> nat list) \<Rightarrow> (nat \<Rightarrow> nat) \<Rightarrow> nat \<Rightarrow> plan_item list \<Rightarrow> sem_context list \<Rightarrow> stage_stats list \<Rightarrow>
   (sem_context list \<times> stage_stats list) bprog" where
  "plan_execute E pick bpick fuel [] ctxs stats = bret (ctxs, stats)"
| "plan_execute E pick bpick fuel (item # plan) ctxs stats =
     (case item of
        OpItem op \<Rightarrow>
          (case behavior op of
             BLOCKING \<Rightarrow> bbind (blocking_call bpick E op ctxs) (\<lambda>ctxs. plan_execute E pick bpick fuel plan ctxs stats)
           | JOINING \<Rightarrow> bbind (bworld_op (join_all E op ctxs)) (\<lambda>ctxs. plan_execute E pick bpick fuel plan ctxs stats)
           | TUPLE_INDEPENDENT \<Rightarrow> blift (Inl TypeError))
      | Segment sgs \<Rightarrow>
          bbind (run_segment E pick fuel sgs ctxs) (\<lambda>(ctxs, stat).
            plan_execute E pick bpick fuel plan ctxs (stats @ [stat])))"

definition warmup ::
  "env \<Rightarrow> (sched \<Rightarrow> nat list) \<Rightarrow> (nat \<Rightarrow> nat) \<Rightarrow> nat \<Rightarrow> sem_context list \<Rightarrow> plan_item list \<Rightarrow> sem_context list bprog" where
  "warmup E pick bpick fuel ctxs plan =
     (if ctxs = [] then bret [] else bbind (plan_execute E pick bpick fuel plan ctxs []) (\<lambda>(out, _). bret out))"

section \<open>Queries\<close>

record query =
  q_ops :: "logical_op list"
  q_data_path :: string

definition build_op ::
  "env \<Rightarrow> (int \<Rightarrow> sem_context list \<Rightarrow> sem_context list) \<Rightarrow> sem_context list \<Rightarrow> phys_op list \<Rightarrow> plan_item list bprog" where
  "build_op E sample ctxs ops s =
     (case build E (w_estimator (bw_world s)) sample ctxs ops (bw_mgr s) of
        Inl e \<Rightarrow> Some (Inl e, s)
      | Inr (plan, m) \<Rightarrow> Some (Inr plan, s\<lparr>bw_mgr := m\<rparr>))"

definition reset_counters :: "world \<Rightarrow> world" where
  "reset_counters w = w\<lparr>w_icp := icp_reset_stats (w_icp w), w_cascade := cascade_reset_stats (w_cascade w)\<rparr>"

text \<open>The tables of joins are read without a request: \<open>no_request\<close> stands for \<open>None\<close>.\<close>

definition no_request :: int where
  "no_request = -1"

definition query_parse :: "environ \<Rightarrow> (nat \<Rightarrow> int) \<Rightarrow> (string \<Rightarrow> fs_node) \<Rightarrow> tokenizer \<Rightarrow> bool \<Rightarrow> logical_op list \<Rightarrow> phys_op list res" where
  "query_parse os ident fs tk virtual_pinning ops =
     parse_ops \<lparr>pe_tk = tk, pe_os = os, pe_load = data_source tk fs no_request, pe_ident = ident\<rparr> virtual_pinning ops"

definition execute_query ::
  "env \<Rightarrow> environ \<Rightarrow> (nat \<Rightarrow> int) \<Rightarrow> (string \<Rightarrow> fs_node) \<Rightarrow> (int \<Rightarrow> sem_context list \<Rightarrow> sem_context list) \<Rightarrow>
   (sched \<Rightarrow> nat list) \<Rightarrow> (nat \<Rightarrow> nat) \<Rightarrow> nat \<Rightarrow> bool \<Rightarrow> int \<Rightarrow> query \<Rightarrow> sem_context list bprog" where
  "execute_query E os ident fs sample pick bpick fuel virtual_pinning rr q =
     bbind (blift (data_source (ev_tk E) fs rr (q_data_path q))) (\<lambda>ctxs.
     bbind (blift (query_parse os ident fs (ev_tk E) virtual_pinning (q_ops q))) (\<lambda>ops.
     bbind (build_op E sample ctxs ops) (\<lambda>plan.
     bbind (bworld_op (pmodify reset_counters)) (\<lambda>_.
     bbind (plan_execute E pick bpick fuel plan ctxs []) (\<lambda>(out, _).
     bbind (bworld_op (pmodify (\<lambda>w. w\<lparr>w_estimator := estimator_reset (w_estimator w)\<rparr>))) (\<lambda>_.
       bret out))))))"

section \<open>Invariants of programs that return\<close>

definition bkeeps :: "(bworld \<Rightarrow> bool) \<Rightarrow> 'a bprog \<Rightarrow> bool" where
  "bkeeps I p \<longleftrightarrow> (\<forall>s a s'. I s \<longrightarrow> p s = Some (Inr a, s') \<longrightarrow> I s')"

named_theorems bkeeps_intros

lemma bkeepsD: "bkeeps I p \<Longrightarrow> I s \<Longrightarrow> p s = Some (Inr a, s') \<Longrightarrow> I s'"
  by (auto simp: bkeeps_def)

lemma bbind_Some:
  "bbind p f s = Some (Inr b, s'') \<longleftrightarrow> (\<exists>a s'. p s = Some (Inr a, s') \<and> f a s' = Some (Inr b, s''))"
  by (cases "p s") (auto simp: bbind_def split: sum.splits)

lemma bkeeps_basic [bkeeps_intros]: "bkeeps I (bret a)" "bkeeps I (blift r)"
  by (simp_all add: bkeeps_def)

lemma bkeeps_bind [bkeeps_intros]: "bkeeps I p \<Longrightarrow> (\<And>a. bkeeps I (f a)) \<Longrightarrow> bkeeps I (bbind p f)"
  unfolding bkeeps_def bbind_Some by blast

lemma bkeeps_if [bkeeps_intros]: "bkeeps I p \<Longrightarrow> bkeeps I q \<Longrightarrow> bkeeps I (if b then p else q)"
  by simp

text \<open>The manager is the given one and the recorded ratios are sound.\<close>

definition at_mgr :: "kv_mgr \<Rightarrow> bworld \<Rightarrow> bool" where
  "at_mgr m s \<longleftrightarrow> bw_mgr s = m \<and> est_ok (bw_world s)"

lemma at_mgr_world [bkeeps_intros]: "keeps est_ok p \<Longrightarrow> bkeeps (at_mgr m) (bworld_op p)"
  by (auto simp: bkeeps_def bworld_op_def at_mgr_def keeps_def split: prod.splits)

end
