(* ===== verification/Query_Frame.thy ===== *)
theory Query_Frame
  imports Plan_Exec
begin

text \<open>
  What the run of a plan leaves behind when it returns: the blocking operators leave the KV
  manager as they found it, the segments leave every stage without bytes in use, and the stages
  registered by the build stay registered in between.
\<close>

section \<open>Blocking operators\<close>

text \<open>A task whose budget is not negative and whose run keeps the recorded ratios sound.\<close>

definition tame :: "'r btask \<Rightarrow> bool" where
  "tame t \<longleftrightarrow> 0 \<le> fst t \<and> keeps est_ok (snd t)"

definition be_frame :: "kv_mgr \<Rightarrow> 'r btask list \<Rightarrow> bworld \<Rightarrow> bool" where
  "be_frame m tasks s \<longleftrightarrow> (\<forall>t \<in> set tasks. tame t) \<and> est_ok (bw_world s) \<and>
     bw_mgr s = m\<lparr>global_used := global_used m + budgets tasks\<rparr>"

lemma be_frame_submit:
  "be_frame m (queue @ running) s \<Longrightarrow> tame t \<Longrightarrow>
     be_frame m ((queue @ [t]) @ running) (tick s\<lparr>bw_mgr := (bw_mgr s)\<lparr>global_used := global_used (bw_mgr s) + fst t\<rparr>\<rparr>)"
  by (auto simp: be_frame_def tick_def)

lemma be_frame_start: "be_frame m ((t # queue) @ running) s \<Longrightarrow> be_frame m (queue @ running @ [t]) (tick s)"
  by (auto simp: be_frame_def tick_def algebra_simps)

lemma be_frame_finish:
  assumes f: "be_frame m (queue @ running) s" and i: "i < length running" and g: "0 \<le> global_used m"
    and r: "snd (running ! i) (bw_world s) = (r, w)"
  shows "be_frame m (queue @ remove_nth i running) (tick s\<lparr>bw_world := w, bw_mgr := release_global (bw_mgr s) (fst (running ! i))\<rparr>)"
proof -
  have t: "tame (running ! i)" using f nth_mem [OF i] by (auto simp: be_frame_def)
  have ts: "\<forall>t \<in> set (queue @ remove_nth i running). tame t"
    using f remove_nth_set [of i running] by (auto simp: be_frame_def)
  then have b: "0 \<le> budgets (queue @ remove_nth i running)" by (intro budgets_nonneg) (simp add: tame_def)
  have "keeps est_ok (snd (running ! i))" using t by (simp add: tame_def)
  from keepsD [OF this, of "bw_world s"] have "est_ok w" using r f by (simp add: be_frame_def)
  then show ?thesis
    using f ts b g remove_nth_budgets [OF i] by (simp add: be_frame_def release_global_def)
qed

lemma be_loop_frame:
  assumes "\<forall>x t. task_builder x = Inr t \<longrightarrow> tame t" "0 \<le> global_used m"
    "be_frame m (queue @ running) s"
    "be_loop pick concurrency task_builder seeds queue running idle results s = Some (Inr rs, s')"
  shows "at_mgr m s'"
  using assms
proof (induction pick concurrency task_builder seeds queue running idle results s rule: be_loop.induct)
  case (1 pick concurrency task_builder seeds queue running idle results s)
  let ?moves = "be_moves concurrency task_builder seeds queue running idle (bw_mgr s)"
  let ?mv = "?moves ! (pick (bw_tick s) mod length ?moves)"
  note step = be_loop.simps [of pick concurrency task_builder seeds queue running idle results s]
  note prems = "1.prems"
  show ?case
  proof (cases "seeds = [] \<and> queue = [] \<and> running = []")
    case True
    then have "s' = s" using prems(4) step by simp
    then show ?thesis using prems(3) True by (simp add: be_frame_def at_mgr_def)
  next
    case busy: False
    then have ne: "?moves \<noteq> []" using prems(4) step by (auto simp: Let_def split: if_splits)
    then have mem: "?mv \<in> set ?moves" by simp
    show ?thesis
    proof (cases ?mv)
      case Submit
      obtain t where t: "task_builder (hd seeds) = Inr t"
        using prems(4) step busy ne Submit by (auto simp: Let_def split: sum.splits)
      have "be_loop pick concurrency task_builder (tl seeds) (queue @ [t]) running idle results
          (tick s\<lparr>bw_mgr := (bw_mgr s)\<lparr>global_used := global_used (bw_mgr s) + fst t\<rparr>\<rparr>) = Some (Inr rs, s')"
        using prems(4) step busy ne Submit t by (simp add: Let_def)
      then show ?thesis
        using "1.IH"(1) [OF busy refl ne Submit t prems(1,2)] be_frame_submit [OF prems(3), of t] prems(1) t by blast
    next
      case Start
      then obtain t q where q: "queue = t # q" using mem be_moves_mem(2) by (metis list.exhaust)
      have "be_loop pick concurrency task_builder seeds q (running @ [t]) (idle - 1) results (tick s) = Some (Inr rs, s')"
        using prems(4) step busy ne Start q by (simp add: Let_def)
      then show ?thesis
        using "1.IH"(2) [OF busy refl ne Start prems(1,2)] be_frame_start [of m t q running s] prems(3) q by simp
    next
      case (Finish i)
      then have i: "i < length running" using mem be_moves_mem(3) by metis
      obtain r w where r: "snd (running ! i) (bw_world s) = (r, w)" by (cases "snd (running ! i) (bw_world s)")
      show ?thesis
        using "1.IH"(3) [OF busy refl ne Finish r [symmetric] prems(1,2) be_frame_finish [OF prems(3) i prems(2) r]]
          prems(4) step busy ne Finish r by (simp add: Let_def)
    qed
  qed
qed

lemma blocking_frame:
  assumes "\<forall>x t. task_builder m x = Inr t \<longrightarrow> tame t" "0 \<le> global_used m"
  shows "bkeeps (at_mgr m) (blocking_execute_tasks pick seeds task_builder concurrency)"
  unfolding bkeeps_def
proof (intro allI impI)
  fix s rs s'
  assume s: "at_mgr m s" and r: "blocking_execute_tasks pick seeds task_builder concurrency s = Some (Inr rs, s')"
  have f: "be_frame m ([] @ []) s" using s by (simp add: be_frame_def at_mgr_def)
  have "be_loop pick concurrency (task_builder m) seeds [] [] concurrency [] s = Some (Inr rs, s')"
    using r s by (simp add: blocking_execute_tasks_def at_mgr_def)
  with be_loop_frame [of "task_builder m", OF assms f] show "at_mgr m s'" by blast
qed

lemma bkeeps_case_list [bkeeps_intros]:
  "bkeeps I p \<Longrightarrow> (\<And>c cs. bkeeps I (q c cs)) \<Longrightarrow> bkeeps I (case xs of [] \<Rightarrow> p | c # cs \<Rightarrow> q c cs)"
  by (cases xs) auto

lemma token_length_nonneg [simp]: "0 \<le> token_length tk d"
  by (cases d) simp_all

lemma reducer_tame:
  assumes "build_reducer E i mx m chunk = Inr t" "0 \<le> mx" "0 \<le> bytes_per_token m"
  shows "tame t"
proof -
  have "keeps est_ok (reduce_chunk E i mx chunk)"
    unfolding reduce_chunk_def by (cases chunk; simp only: list.case; intro keeps_intros)
  then show ?thesis using assms by (auto simp: build_reducer_def tame_def py_simps)
qed

lemma agg_loop_frame:
  assumes m: "0 \<le> bytes_per_token m" "0 \<le> global_used m" and call: "agg_loop pick E i mx c ws s = Some y"
  shows "0 \<le> mx \<longrightarrow> at_mgr m s \<longrightarrow> (\<exists>out. fst y = Inr out) \<longrightarrow> at_mgr m (snd y)"
proof (rule agg_loop.raw_induct [where P = "\<lambda>pick E i mx c ws s y.
    0 \<le> mx \<longrightarrow> at_mgr m s \<longrightarrow> (\<exists>out. fst y = Inr out) \<longrightarrow> at_mgr m (snd y)", OF _ call], intro impI, elim exE)
  fix loop pick E i mx c ws s y out
  assume IH: "\<And>pick E i mx c ws s y. loop pick E i mx c ws s = Some y \<Longrightarrow>
      0 \<le> mx \<longrightarrow> at_mgr m s \<longrightarrow> (\<exists>out. fst y = Inr out) \<longrightarrow> at_mgr m (snd y)"
    and run: "(if length ws \<le> 1 then Some (Inr ws, s)
      else let chunks = chunk_by_tokens E i mx ws;
               reducible = [c \<leftarrow> chunks. length c > 1];
               passthrough = map hd [c \<leftarrow> chunks. length c = 1]
           in bbind (if reducible \<noteq> []
                     then bbind (blocking_execute_tasks pick reducible (build_reducer E i mx) c)
                            (\<lambda>reduced. bret (passthrough @ reduced))
                     else blocking_execute_tasks pick [ws] (build_reducer E i mx) 1)
                (loop pick E i mx c) s) = Some y"
    and mx: "0 \<le> mx" and s: "at_mgr m s" and out: "fst y = Inr out"
  have b: "bkeeps (at_mgr m) (blocking_execute_tasks pick seeds (build_reducer E i mx) n)" for seeds n
    using reducer_tame [OF _ mx m(1)] m(2) by (intro blocking_frame) auto
  show "at_mgr m (snd y)"
  proof (cases "length ws \<le> 1")
    case True
    then show ?thesis using run s by auto
  next
    case False
    let ?chunks = "chunk_by_tokens E i mx ws"
    let ?p = "if [c \<leftarrow> ?chunks. length c > 1] \<noteq> []
       then bbind (blocking_execute_tasks pick [c \<leftarrow> ?chunks. length c > 1] (build_reducer E i mx) c)
              (\<lambda>reduced. bret (map hd [c \<leftarrow> ?chunks. length c = 1] @ reduced))
       else blocking_execute_tasks pick [ws] (build_reducer E i mx) 1"
    have "y = (Inr out, snd y)" using out by (cases y) simp
    then have "bbind ?p (loop pick E i mx c) s = Some (Inr out, snd y)"
      using run False unfolding Let_def by (simp only: if_False)
    then obtain ws' s1 where p: "?p s = Some (Inr ws', s1)" and l: "loop pick E i mx c ws' s1 = Some (Inr out, snd y)"
      unfolding bbind_Some by blast
    have "bkeeps (at_mgr m) ?p" by (intro bkeeps_intros b)
    then have "at_mgr m s1" using s p unfolding bkeeps_def by blast
    then show ?thesis using IH [OF l] mx by simp
  qed
qed

lemma agg_frame:
  assumes "0 \<le> bytes_per_token m" "0 \<le> global_used m" "0 \<le> mx"
  shows "bkeeps (at_mgr m) (agg_call pick E i mx c ctxs)"
proof -
  have "bkeeps (at_mgr m) (agg_loop pick E i mx c ctxs)"
    using agg_loop_frame [OF assms(1,2)] assms(3) unfolding bkeeps_def by fastforce
  then show ?thesis unfolding agg_call_def by (intro bkeeps_intros)
qed

lemma compare_text_est: "keeps est_ok (compare_text E i mx rr prompt)"
  unfolding compare_text_def by (intro keeps_intros)

lemma compare_tame:
  assumes "compare_task E i mx pivot m other = Inr t" "0 \<le> bytes_per_token m"
  shows "tame t"
proof -
  have "keeps est_ok (pbind (compare_text E i mx (raw_request (state pivot)) prompt) (\<lambda>v. pret (other, v)))" for prompt
    by (intro keeps_intros compare_text_est)
  then show ?thesis using assms by (auto simp: compare_task_def tame_def py_simps)
qed

lemma partition_frame:
  assumes "0 \<le> bytes_per_token m" "0 \<le> global_used m"
  shows "bkeeps (at_mgr m) (partition_ctxs pick E i mx c pivot others)"
  unfolding partition_ctxs_def using compare_tame [OF _ assms(1)] assms(2)
  by (intro bkeeps_intros blocking_frame) auto

lemma quickselect_frame:
  assumes m: "0 \<le> bytes_per_token m" "0 \<le> global_used m" and call: "quickselect pick E i mx c ctxs k s = Some y"
  shows "at_mgr m s \<longrightarrow> (\<exists>out. fst y = Inr out) \<longrightarrow> at_mgr m (snd y)"
proof (rule quickselect.raw_induct [where P = "\<lambda>pick E i mx c ctxs k s y.
    at_mgr m s \<longrightarrow> (\<exists>out. fst y = Inr out) \<longrightarrow> at_mgr m (snd y)", OF _ call], intro impI, elim exE)
  fix select pick E i mx c ctxs k s y out
  assume IH: "\<And>pick E i mx c ctxs k s y. select pick E i mx c ctxs k s = Some y \<Longrightarrow>
      at_mgr m s \<longrightarrow> (\<exists>out. fst y = Inr out) \<longrightarrow> at_mgr m (snd y)"
    and run: "(if int (length ctxs) \<le> k then Some (Inr ctxs, s)
      else case ctxs of
        [] \<Rightarrow> Some (Inl IndexError, s)
      | pivot # others \<Rightarrow>
          bbind (partition_ctxs pick E i mx c pivot others) (\<lambda>bw s.
            if int (length (fst bw)) \<ge> k then select pick E i mx c (fst bw) k s
            else if int (length (fst bw)) + 1 = k then bret (fst bw @ [pivot]) s
            else bbind (select pick E i mx c (snd bw) (k - int (length (fst bw)) - 1)) (\<lambda>rest.
                   bret (fst bw @ [pivot] @ rest)) s) s) = Some y"
    and s: "at_mgr m s" and out: "fst y = Inr out"
  have y: "y = (Inr out, snd y)" using out by (cases y) simp
  show "at_mgr m (snd y)"
  proof (cases "int (length ctxs) \<le> k \<or> ctxs = []")
    case True
    then show ?thesis using run s by (auto split: if_splits)
  next
    case False
    then obtain pivot others where x: "ctxs = pivot # others" by (cases ctxs) auto
    have "bbind (partition_ctxs pick E i mx c pivot others) (\<lambda>bw s.
            if int (length (fst bw)) \<ge> k then select pick E i mx c (fst bw) k s
            else if int (length (fst bw)) + 1 = k then bret (fst bw @ [pivot]) s
            else bbind (select pick E i mx c (snd bw) (k - int (length (fst bw)) - 1)) (\<lambda>rest.
                   bret (fst bw @ [pivot] @ rest)) s) s = Some (Inr out, snd y)"
      using run False y unfolding x by (simp del: bprog_simps)
    then obtain bw s1 where p: "partition_ctxs pick E i mx c pivot others s = Some (Inr bw, s1)"
      and k: "(if int (length (fst bw)) \<ge> k then select pick E i mx c (fst bw) k s1
            else if int (length (fst bw)) + 1 = k then bret (fst bw @ [pivot]) s1
            else bbind (select pick E i mx c (snd bw) (k - int (length (fst bw)) - 1)) (\<lambda>rest.
                   bret (fst bw @ [pivot] @ rest)) s1) = Some (Inr out, snd y)"
      unfolding bbind_Some [of "partition_ctxs pick E i mx c pivot others"] by blast
    have "at_mgr m s1" by (rule bkeepsD [OF partition_frame [OF m] s p])
    with k IH show ?thesis by (fastforce simp: bbind_Some split: if_splits)
  qed
qed

lemma compare_frame [bkeeps_intros]: "bkeeps (at_mgr m) (compare_ctxs E i mx a b)"
  unfolding compare_ctxs_def by (intro bkeeps_intros compare_text_est)

lemma rank_insertion_frame [bkeeps_intros]: "bkeeps (at_mgr m) (rank_insertion E i mx ctxs ranked)"
proof -
  have "bkeeps (at_mgr m) (insert_ranked E i mx ctx ranked)" for ctx ranked
    by (induction ranked) (auto simp only: insert_ranked.simps intro!: bkeeps_intros)
  then show ?thesis
    by (induction ctxs arbitrary: ranked) (auto simp only: rank_insertion.simps intro!: bkeeps_intros)
qed

lemma merge_frame [bkeeps_intros]: "bkeeps (at_mgr m) (merge_ranked E i mx left right)"
  by (induction E i mx left right rule: merge_ranked.induct)
     (auto simp only: merge_ranked.simps intro!: bkeeps_intros)

lemma rank_frame [bkeeps_intros]: "bkeeps (at_mgr m) (rank E i mx ctxs)"
proof (induction E i mx ctxs rule: rank.induct)
  case (1 E i mx ctxs)
  show ?case
  proof (cases "length ctxs \<le> 1 \<or> length ctxs < MERGE_RANK_THRESHOLD")
    case True
    then show ?thesis by (subst rank.simps) (auto simp only: Let_def split: if_split intro!: bkeeps_intros)
  next
    case False
    then have "bkeeps (at_mgr m) (rank E i mx (take (length ctxs div 2) ctxs))"
      "bkeeps (at_mgr m) (rank E i mx (drop (length ctxs div 2) ctxs))" using 1 by auto
    then show ?thesis unfolding rank.simps [of E i mx ctxs] Let_def by (intro bkeeps_intros)
  qed
qed

lemma topk_frame:
  assumes "0 \<le> bytes_per_token m" "0 \<le> global_used m"
  shows "bkeeps (at_mgr m) (topk_call pick E i k mx c ctxs)"
proof -
  have "bkeeps (at_mgr m) (quickselect pick E i mx c ctxs k)"
    using quickselect_frame [OF assms, of pick E i mx c ctxs k] unfolding bkeeps_def by fastforce
  then show ?thesis unfolding topk_call_def by (intro bkeeps_intros)
qed

lemma blocking_call_frame:
  assumes "0 \<le> bytes_per_token m" "0 \<le> global_used m" "limits_ok op"
  shows "bkeeps (at_mgr m) (blocking_call bpick E op ctxs)"
  unfolding blocking_call_def using assms agg_frame [OF assms(1,2)] topk_frame [OF assms(1,2)]
  by (cases "kind op") (auto simp: limits_ok_def intro: bkeeps_intros)

section \<open>Plans\<close>

text \<open>No stage has bytes in use, and the rest of the manager is as in \<open>m\<close>.\<close>

definition settled_at :: "kv_mgr \<Rightarrow> bworld \<Rightarrow> bool" where
  "settled_at m s \<longleftrightarrow> account_frame m (bw_mgr s) \<and> (\<forall>k. used_of (bw_mgr s) k = 0) \<and> est_ok (bw_world s)"

definition segment_ok :: "env \<Rightarrow> kv_mgr \<Rightarrow> stage list \<Rightarrow> bool" where
  "segment_ok E m sgs \<longleftrightarrow> distinct (map sg_id sgs) \<and>
     (\<forall>sg \<in> set sgs. registered m (sg_id sg) \<and> sg_operators sg \<noteq> [] \<and> nonneg_estimates E sg)"

definition plan_ok :: "env \<Rightarrow> kv_mgr \<Rightarrow> plan_item list \<Rightarrow> bool" where
  "plan_ok E m plan \<longleftrightarrow> (\<forall>it \<in> set plan. case it of Segment sgs \<Rightarrow> segment_ok E m sgs | OpItem op \<Rightarrow> limits_ok op)"

lemma settled_frame:
  assumes "\<And>m0. account_frame m m0 \<Longrightarrow> bkeeps (at_mgr m0) p"
  shows "bkeeps (settled_at m) p"
  unfolding bkeeps_def
proof (intro allI impI)
  fix s a s' assume s: "settled_at m s" and p: "p s = Some (Inr a, s')"
  then have "at_mgr (bw_mgr s) s'"
    using bkeepsD [OF assms [of "bw_mgr s"] _ p] by (simp add: settled_at_def at_mgr_def)
  with s show "settled_at m s'" by (simp add: settled_at_def at_mgr_def)
qed

lemma join_all_est: "keeps est_ok (join_all E op ctxs)"
  by (induction ctxs) (auto simp only: join_all.simps intro!: keeps_intros)

lemma run_segment_settled:
  assumes "templates_grow (ev_tk E)" "segment_ok E m sgs"
  shows "bkeeps (settled_at m) (run_segment E pick fuel sgs ctxs)"
  unfolding bkeeps_def
proof (intro allI impI)
  fix s a s' assume s: "settled_at m s" and p: "run_segment E pick fuel sgs ctxs s = Some (Inr a, s')"
  then obtain st where r: "run_rounds E pick fuel (sched_init ctxs sgs (bw_mgr s) (bw_world s) (bw_next_id s)) = Some (Inr (), st)"
    and s': "s' = s\<lparr>bw_mgr := sc_mgr st, bw_world := sc_world st, bw_next_id := sc_next_id st\<rparr>"
    by (auto simp: run_segment_def split: option.splits sum.splits)
  have "fresh_stages E (bw_mgr s) sgs"
    using s assms(2) by (auto simp: fresh_stages_def settled_at_def segment_ok_def account_frame_def)
  moreover have "estimator_wf (w_estimator (bw_world s))" using s by (simp add: settled_at_def est_ok_def)
  ultimately have "(\<forall>k. used_of (sc_mgr st) k = 0) \<and> ambient (bw_mgr s) st"
    using run_rounds_clean [OF assms(1) _ _ r] by blast
  with s show "settled_at m s'" by (auto simp: s' settled_at_def ambient_def intro: frame_trans)
qed

lemma plan_execute_settled:
  assumes grow: "templates_grow (ev_tk E)" and m: "0 \<le> bytes_per_token m" "0 \<le> global_used m"
  shows "plan_ok E m plan \<Longrightarrow> bkeeps (settled_at m) (plan_execute E pick bpick fuel plan ctxs stats)"
proof (induction plan arbitrary: ctxs stats)
  case (Cons item plan)
  then have rest: "bkeeps (settled_at m) (plan_execute E pick bpick fuel plan ctxs stats)" for ctxs stats
    by (simp add: plan_ok_def)
  show ?case
  proof (cases item)
    case (Segment sgs)
    then have "segment_ok E m sgs" using Cons.prems by (simp add: plan_ok_def)
    note seg = run_segment_settled [OF grow this]
    show ?thesis
      unfolding plan_execute.simps Segment plan_item.case by (rule bkeeps_bind [OF seg]) (auto simp: rest split: prod.split)
  next
    case (OpItem op)
    have "limits_ok op" using Cons.prems OpItem by (simp add: plan_ok_def)
    then have b: "bkeeps (settled_at m) (blocking_call bpick E op ctxs)"
      using m by (intro settled_frame blocking_call_frame) (simp_all add: account_frame_def)
    have j: "bkeeps (settled_at m) (bworld_op (join_all E op ctxs))"
      by (intro settled_frame at_mgr_world join_all_est)
    show ?thesis
      unfolding plan_execute.simps OpItem plan_item.case
      by (cases "behavior op") (auto simp only: op_behavior.case intro!: bkeeps_intros b j rest)
  qed
qed (auto simp only: plan_execute.simps intro!: bkeeps_intros)

section \<open>Built plans\<close>

text \<open>What a build has taken in, relative to the operators of the query and the manager it started with.\<close>

definition build_sound :: "phys_op set \<Rightarrow> kv_mgr \<Rightarrow> build_state \<Rightarrow> bool" where
  "build_sound ops m st \<longleftrightarrow>
     (\<forall>sg \<in> set (all_stages st). (\<forall>op \<in> set (sg_operators sg). op \<in> ops \<and> behavior op = TUPLE_INDEPENDENT) \<and>
        sg_bpt sg = bytes_per_token m) \<and>
     (\<forall>op \<in> set (b_chain st). op \<in> ops \<and> behavior op = TUPLE_INDEPENDENT) \<and>
     (\<forall>op. OpItem op \<in> set (b_plan st) \<longrightarrow> op \<in> ops) \<and>
     bytes_per_token (b_mgr st) = bytes_per_token m \<and> kv_capacity (b_mgr st) = kv_capacity m \<and>
     global_used (b_mgr st) = global_used m \<and> (\<forall>k. used_of (b_mgr st) k = 0)"

lemma sound_emit: "build_sound ops m st \<Longrightarrow> build_sound ops m (emit_stage st)"
  by (auto simp: build_sound_def emit_stage_def all_stages_def stage_builder_def)

lemma register_account:
  "global_used (register_stage m s f lo hi b) = global_used m"
  "used_of (register_stage m s f lo hi b) t = (if t = s then 0 else used_of m t)"
  by (simp_all add: register_stage_def Let_def)

lemma register_segment_account:
  assumes "register_segment caps sids m = Inr m'" "\<forall>k. used_of m k = 0"
  shows "bytes_per_token m' = bytes_per_token m \<and> kv_capacity m' = kv_capacity m \<and> global_used m' = global_used m \<and>
    (\<forall>k. used_of m' k = 0)"
proof -
  have all: "bytes_per_token m' = bytes_per_token m \<and> kv_capacity m' = kv_capacity m \<and> global_used m' = global_used m \<and>
      (\<forall>k. used_of m' k = 0)" if "register_all mc ac sids m = Inr m'" "\<forall>k. used_of m k = 0" for mc ac sids m
    using that
  proof (induction sids arbitrary: m)
    case (Cons sid sids)
    from Cons.prems(1) obtain f hi where 1: "register_all mc ac sids (register_stage m sid f (Some 0) hi (Some (dget mc sid 0))) = Inr m'"
      by (auto simp: register_one_def py_simps Let_def split: if_splits)
    from Cons.IH [OF 1] Cons.prems(2) show ?case by (simp add: register_account)
  qed simp
  show ?thesis
  proof (cases "register_all caps (assigned_caps (kv_capacity m) caps sids) sids m = Inr m'")
    case True
    then show ?thesis using all assms(2) by blast
  next
    case False
    then consider "m' = m" | sid where "m' = register_stage m sid 1 (Some 1) (Some 1) None"
      using assms(1) by (auto simp del: register_all.simps simp: register_segment_def split: list.splits)
    then show ?thesis using assms(2) by cases (auto simp: register_account)
  qed
qed

lemma sound_flush:
  assumes "flush_segment E est sample ctxs st = Inr st'" "build_sound ops m st"
  shows "build_sound ops m st'"
proof (cases "b_segment st = []")
  case True
  with assms show ?thesis by (simp add: flush_segment_def)
next
  case False
  then obtain caps m1 where r: "register_segment caps (map sg_id (b_segment st)) (b_mgr st) = Inr m1"
    and st': "st' = st\<lparr>b_mgr := m1, b_plan := b_plan st @ [Segment (b_segment st)], b_segment := []\<rparr>"
    using assms(1) by (auto simp: flush_segment_def py_simps)
  have "\<forall>k. used_of (b_mgr st) k = 0" using assms(2) by (simp add: build_sound_def)
  from register_segment_account [OF r this] assms(2) show ?thesis
    by (auto simp: st' build_sound_def all_stages_def plan_stages_def item_stages_def)
qed

lemma sound_fanout:
  assumes "build_sound ops m st" "b_segment st \<noteq> []"
  shows "build_sound ops m (st\<lparr>b_segment := set_last_fanout op (b_segment st)\<rparr>)"
proof -
  have "last (b_segment st) \<in> set (b_segment st)" using assms(2) by simp
  then show ?thesis
    using assms(1) by (auto simp: build_sound_def all_stages_def set_last_fanout_def dest: in_set_butlastD)
qed

lemma sound_step:
  assumes "build_step E est sample ctxs op st = Inr st'" "build_sound ops m st" "op \<in> ops"
  shows "build_sound ops m st'"
proof -
  have plan: "build_sound ops m (s\<lparr>b_plan := b_plan s @ [OpItem op]\<rparr>)" if "build_sound ops m s" for s
    using that assms(3) by (auto simp: build_sound_def all_stages_def plan_stages_def item_stages_def)
  show ?thesis
  proof (cases "behavior op")
    case TUPLE_INDEPENDENT
    with assms show ?thesis by (auto simp: build_step_def build_sound_def all_stages_def)
  next
    case BLOCKING
    with assms(1) show ?thesis
      using plan sound_flush [OF _ sound_emit [OF assms(2)]] by (auto simp: build_step_def py_simps)
  next
    case JOINING
    with assms(1) show ?thesis
      using plan sound_flush [OF _ sound_emit [OF assms(2)]] sound_fanout [OF sound_emit [OF assms(2)]]
      by (auto simp: build_step_def py_simps Let_def split: if_splits)
  qed
qed

lemma sound_loop:
  "build_loop E est sample ctxs os st = Inr st' \<Longrightarrow> build_sound ops m st \<Longrightarrow> set os \<subseteq> ops \<Longrightarrow> build_sound ops m st'"
  by (induction os arbitrary: st) (auto simp: py_simps dest: sound_step)

lemma numbered_distinct: "numbered sgs \<Longrightarrow> distinct (map sg_id sgs)"
  by (auto simp: numbered_def distinct_conv_nth)

lemma concat_distinct: "distinct (map f (concat xss)) \<Longrightarrow> xs \<in> set xss \<Longrightarrow> distinct (map f xs)"
  by (induction xss) auto

lemma build_settles:
  assumes b: "build E est sample ctxs ops m = Inr (plan, m')" and wf: "mgr_wf m" "\<forall>k. used_of m k = 0"
    and lim: "0 \<le> bytes_per_token m" "\<forall>op \<in> set ops. limits_ok op"
  shows "plan_ok E m' plan" "mgr_wf m'" "\<forall>k. used_of m' k = 0"
    "bytes_per_token m' = bytes_per_token m" "kv_capacity m' = kv_capacity m" "global_used m' = global_used m"
proof -
  let ?st0 = "\<lparr>b_plan = [], b_segment = [], b_chain = [], b_next_id = 1, b_offset = 0, b_mgr = m\<rparr>"
  obtain st1 st2 where 1: "build_loop E est sample ctxs ops ?st0 = Inr st1"
    and 2: "flush_segment E est sample ctxs (emit_stage st1) = Inr st2" and 3: "plan = b_plan st2" "m' = b_mgr st2"
    using b by (auto simp: build_def py_simps)
  have "build_sound (set ops) m ?st0" using wf by (simp add: build_sound_def all_stages_def plan_stages_def)
  then have "build_sound (set ops) m st1" by (rule sound_loop [OF 1]) simp
  then have snd: "build_sound (set ops) m st2" by (intro sound_flush [OF 2] sound_emit)
  then show "\<forall>k. used_of m' k = 0" "bytes_per_token m' = bytes_per_token m" "kv_capacity m' = kv_capacity m"
    "global_used m' = global_used m" by (simp_all add: build_sound_def 3)
  note f = build_facts(1) [OF b] build_facts(3) [OF b wf(1)]
  then show "mgr_wf m'" by blast
  have "segment_ok E m' sgs" if seg: "Segment sgs \<in> set plan" for sgs
  proof -
    have sub: "sgs \<in> set (map item_stages plan)" using seg by (force simp: item_stages_def)
    then have "distinct (map sg_id sgs)"
      using concat_distinct [OF numbered_distinct [OF f(1), unfolded plan_stages_def]] by blast
    moreover have in_plan: "sg \<in> set (plan_stages plan)" if "sg \<in> set sgs" for sg
      using sub that by (auto simp: plan_stages_def)
    moreover have "sg_operators sg \<noteq> []" if "sg \<in> set sgs" for sg
      using f(1) in_plan [OF that] unfolding numbered_def by (metis in_set_conv_nth)
    moreover have "nonneg_estimates E sg" if "sg \<in> set sgs" for sg
      using snd in_plan [OF that] lim by (intro nonneg_stage) (auto simp: build_sound_def all_stages_def 3)
    ultimately show ?thesis using f(2) by (simp add: segment_ok_def)
  qed
  moreover have "limits_ok op" if "OpItem op \<in> set plan" for op
    using snd that lim(2) by (auto simp: build_sound_def 3)
  ultimately show "plan_ok E m' plan" by (auto simp: plan_ok_def split: plan_item.split)
qed

section \<open>Parsed operators\<close>

text \<open>The token limits a query may set are not negative.\<close>

definition query_limits_ok :: "logical_op list \<Rightarrow> bool" where
  "query_limits_ok los \<longleftrightarrow> (\<forall>lo \<in> set los.
     0 \<le> or_default (a_cascade_max_tokens (lo_args lo)) 8 \<and> 0 \<le> or_default (a_icp_oracle_max_tokens (lo_args lo)) 8)"

lemma limits_kind: "kind op = kind op' \<Longrightarrow> limits_ok op = limits_ok op'"
  by (simp add: limits_ok_def)

lemma init_limits [simp]:
  "limits_ok (sem_filter_init i 8 p)" "limits_ok (sem_map_init i p)" "limits_ok (cartesian_init t p)"
  "limits_ok (indexed_cartesian_init cfg p)" "limits_ok (indexed_search_init cfg p)" "limits_ok (sem_agg_init i p)"
  "limits_ok (sem_topk_init i k p)"
  by (simp_all add: limits_ok_def sem_filter_init_def sem_map_init_def cartesian_init_def indexed_cartesian_init_def
      indexed_search_init_def sem_agg_init_def sem_topk_init_def base_op_def)

lemma classify_limits: "sem_classify_init tk cl p = Inr op \<Longrightarrow> limits_ok op"
proof -
  assume a: "sem_classify_init tk cl p = Inr op"
  then have "cl \<noteq> []" by (auto simp: sem_classify_init_def)
  then have "0 \<le> Max (set (map (\<lambda>g. token_length tk (TextData g)) cl))"
    by (subst Max_ge_iff) (auto simp: neq_Nil_conv)
  with a show ?thesis by (auto simp: sem_classify_init_def Let_def limits_ok_def base_op_def split: if_splits)
qed

lemma cascade_limits: "cascade_init os i a b c mx l h p = Inr op \<Longrightarrow> 0 \<le> mx \<Longrightarrow> limits_ok op"
  by (auto simp: cascade_init_def Let_def limits_ok_def base_op_def split: if_splits option.splits)

lemma icp_limits: "icp_filter_init i l h mx p = Inr op \<Longrightarrow> 0 \<le> mx \<Longrightarrow> limits_ok op"
  by (auto simp: icp_filter_init_def Let_def limits_ok_def base_op_def split: if_splits option.splits)

lemma parse_op_limits:
  assumes "parse_op P i lo = Inr ops" "query_limits_ok [lo]"
  shows "\<forall>op \<in> set ops. limits_ok op"
proof -
  have l: "0 \<le> or_default (a_cascade_max_tokens (lo_args lo)) 8" "0 \<le> or_default (a_icp_oracle_max_tokens (lo_args lo)) 8"
    using assms(2) by (simp_all add: query_limits_ok_def)
  have prod: "limits_ok op" if "parse_product P (lo_args lo) i = Inr op" for op
    using that by (auto simp: parse_product_def py_simps)
  have cas: "limits_ok op" if "parse_cascade P (lo_args lo) ins i = Inr op" for ins op
    using that l(1) unfolding parse_cascade_def by (rule cascade_limits)
  have orc: "limits_ok op" if "parse_oracle (lo_args lo) i = Inr op" for op
    using that l(2) by (auto simp: parse_oracle_def Let_def split: if_splits intro: icp_limits)
  have flt: "limits_ok op" if "parse_join_filter P (lo_args lo) i = Inr op" for op
    using that by (auto simp: parse_join_filter_def py_simps split: if_splits dest: cas orc)
  show ?thesis
    using assms(1) by (auto simp: parse_op_def Let_def py_simps split: if_splits dest: prod cas orc flt classify_limits)
qed

lemma parse_all_limits: "parse_all P i los = Inr ops \<Longrightarrow> query_limits_ok los \<Longrightarrow> \<forall>op \<in> set ops. limits_ok op"
proof (induction los arbitrary: i ops)
  case (Cons lo los)
  then obtain a b where p: "parse_op P i lo = Inr a" "parse_all P (Suc i) los = Inr b" "ops = a @ b" by (auto simp: py_simps)
  have "query_limits_ok [lo]" "query_limits_ok los" using Cons.prems(2) by (simp_all add: query_limits_ok_def)
  with parse_op_limits [OF p(1)] Cons.IH [OF p(2)] p(3) show ?case by auto
qed simp

lemma flag_kinds: "map kind (set_pin_flag i ops) = map kind ops" "map kind (set_unpin_flag i ops) = map kind ops"
  by (simp_all add: set_pin_flag_def set_unpin_flag_def map_update list_update_id del: nth_map)
     (cases "i < length ops"; simp add: list_update_beyond list_update_same_conv)+

lemma pin_fold_kinds: "map kind (snd (fold pin_step is st)) = map kind (snd st)"
proof (induction "is" arbitrary: st)
  case (Cons i "is")
  have "map kind (snd (pin_step i st)) = map kind (snd st)"
    by (cases st) (simp add: pin_step_def Let_def finalize_chain_def flag_kinds)
  with Cons show ?case by simp
qed simp

lemma parse_ops_limits:
  assumes "parse_ops P vp los = Inr ops" "query_limits_ok los"
  shows "\<forall>op \<in> set ops. limits_ok op"
proof -
  obtain ops0 where p: "parse_all P 0 los = Inr ops0" "apply_pin_unpin vp ops0 = Inr ops"
    using assms(1) by (auto simp: parse_ops_def py_simps)
  have "map kind ops = map kind ops0"
    using p(2) pin_fold_kinds [of _ "([], reset_flags ops0)"]
    by (auto simp: apply_pin_unpin_def Let_def reset_flags_def split: if_splits)
  then have "kind ` set ops = kind ` set ops0" by (metis list.set_map)
  then show ?thesis using parse_all_limits [OF p(1) assms(2)] limits_kind by (metis imageE imageI)
qed

end
