(* ===== verification/Query_Run.thy ===== *)
theory Query_Run
  imports Query_Frame
begin

text \<open>
  A whole query from its data to its result: with the facts about reading, parsing, building,
  scheduling and blocking operators together, a query that returns leaves the KV manager ready for
  the next one.
\<close>

lemma query_settles:
  assumes grow: "templates_grow (ev_tk E)" and lim: "query_limits_ok (q_ops q)"
    and m: "mgr_wf (bw_mgr s)" "\<forall>k. used_of (bw_mgr s) k = 0" "0 \<le> global_used (bw_mgr s)" "0 \<le> bytes_per_token (bw_mgr s)"
    and est: "estimator_wf (w_estimator (bw_world s))"
    and run: "execute_query E os ident fs sample pick bpick fuel vp rr q s = Some (Inr out, s')"
  shows "mgr_wf (bw_mgr s') \<and> (\<forall>k. used_of (bw_mgr s') k = 0) \<and> global_used (bw_mgr s') = global_used (bw_mgr s) \<and>
    kv_capacity (bw_mgr s') = kv_capacity (bw_mgr s) \<and> bytes_per_token (bw_mgr s') = bytes_per_token (bw_mgr s) \<and>
    w_estimator (bw_world s') = []"
proof -
  obtain ctxs ops plan s0 stats s1 where
    p: "query_parse os ident fs (ev_tk E) vp (q_ops q) = Inr ops"
    and b0: "build_op E sample ctxs ops s = Some (Inr plan, s0)"
    and x0: "plan_execute E pick bpick fuel plan ctxs [] (s0\<lparr>bw_world := reset_counters (bw_world s0)\<rparr>) = Some (Inr (out, stats), s1)"
    and s': "s' = s1\<lparr>bw_world := (bw_world s1)\<lparr>w_estimator := estimator_reset (w_estimator (bw_world s1))\<rparr>\<rparr>"
    using run unfolding execute_query_def by (auto simp: bbind_Some bworld_op_def split: prod.splits)
  obtain m' where b: "build E (w_estimator (bw_world s)) sample ctxs ops (bw_mgr s) = Inr (plan, m')" and s0: "s0 = s\<lparr>bw_mgr := m'\<rparr>"
    using b0 by (auto simp: build_op_def split: sum.splits prod.splits)
  have x: "plan_execute E pick bpick fuel plan ctxs []
      (s\<lparr>bw_mgr := m', bw_world := reset_counters (bw_world s)\<rparr>) = Some (Inr (out, stats), s1)"
    using x0 by (simp add: s0)
  have "\<forall>op \<in> set ops. limits_ok op" using p lim unfolding query_parse_def by (rule parse_ops_limits)
  note built = build_settles [OF b m(1,2,4) this]
  have "settled_at m' (s\<lparr>bw_mgr := m', bw_world := reset_counters (bw_world s)\<rparr>)"
    using built(2,3) est by (simp add: settled_at_def frame_refl est_ok_def reset_counters_def)
  moreover have "bkeeps (settled_at m') (plan_execute E pick bpick fuel plan ctxs [])"
    using built(4,6) m(3,4) by (intro plan_execute_settled [OF grow _ _ built(1)]) simp_all
  ultimately have "settled_at m' s1" using x unfolding bkeeps_def by blast
  then show ?thesis using built by (auto simp: settled_at_def account_frame_def s' estimator_reset_def)
qed

section \<open>A query that runs\<close>

definition no_args :: op_args where
  "no_args = \<lparr>a_prompt = None, a_instruction = None, a_classes = None, a_k = None, a_cascade = None, a_llm_cascade = None,
     a_cascade_model = None, a_cascade_api_base = None, a_cascade_port = None, a_cascade_max_tokens = None,
     a_cascade_low = None, a_cascade_high = None, a_low = None, a_high = None, a_icp = None, a_icp_oracle_fallback = None,
     a_right_table = None, a_icp_address = None, a_icp_port = None, a_icp_top_k = None, a_icp_low = None,
     a_icp_high = None, a_icp_cp_id = None, a_icp_oracle_instruction = None, a_icp_oracle_max_tokens = None\<rparr>"

definition demo_query :: query where
  "demo_query = \<lparr>q_ops = [\<lparr>lo_name = SEM_FILTER, lo_args = no_args\<lparr>a_prompt := Some ''p''\<rparr>\<rparr>,
      \<lparr>lo_name = SEM_AGG, lo_args = no_args\<lparr>a_instruction := Some ''a''\<rparr>\<rparr>], q_data_path = ''d''\<rparr>"

definition demo_os :: environ where
  "demo_os = \<lparr>SEMOPS_CASCADE_MODEL = None, SEMOPS_ICP_VLLM_MODEL = None, SEMOPS_CASCADE_API_BASE = None,
     SEMOPS_ICP_VLLM_API_BASE = None, VLLM_8B_API_BASE = None\<rparr>"

definition demo_ready :: bworld where
  "demo_ready = \<lparr>bw_mgr = kv_mgr_init 2 100000, bw_world = demo_world, bw_tick = 0, bw_next_id = 0\<rparr>"

lemma demo_query_runs:
  "case execute_query (demo_env ''TRUE'') demo_os int demo_fs (\<lambda>_ c. c) (\<lambda>_. []) (\<lambda>n. n) 6 True 1 demo_query demo_ready of
     Some (Inr out, _) \<Rightarrow> length out = 1 | _ \<Rightarrow> False"
  by code_simp

end
