(* ===== verification/Refine.thy ===== *)
theory Refine
  imports Py_Prelude
begin

text \<open>
  Refinement of an object by an abstract value: the object answers every call that is legal in
  its abstract state as the specification does, errors included, and moves to the object of the
  specification's next state. The locale \<open>refined_calls\<close> states this for one call and proves it
  for every legal sequence of calls; the components with such a contract interpret it on their
  own operations.
\<close>

primrec run_calls :: "('c \<Rightarrow> 's \<Rightarrow> 'r \<times> 's) \<Rightarrow> 'c list \<Rightarrow> 's \<Rightarrow> 'r list \<times> 's" where
  "run_calls f [] s = ([], s)"
| "run_calls f (c # cs) s =
     (let (r, s) = f c s; (rs, s) = run_calls f cs s in (r # rs, s))"

primrec legal_calls :: "('c \<Rightarrow> 'a \<Rightarrow> bool) \<Rightarrow> ('c \<Rightarrow> 'a \<Rightarrow> 'r \<times> 'a) \<Rightarrow> 'c list \<Rightarrow> 'a \<Rightarrow> bool" where
  "legal_calls ok f [] a \<longleftrightarrow> True"
| "legal_calls ok f (c # cs) a \<longleftrightarrow> ok c a \<and> legal_calls ok f cs (snd (f c a))"

locale refined_calls =
  fixes rep :: "'a \<Rightarrow> 's" and inv :: "'a \<Rightarrow> bool" and ok :: "'c \<Rightarrow> 'a \<Rightarrow> bool"
    and spec :: "'c \<Rightarrow> 'a \<Rightarrow> 'r \<times> 'a" and impl :: "'c \<Rightarrow> 's \<Rightarrow> 'r \<times> 's"
  assumes sim: "inv a \<Longrightarrow> ok c a \<Longrightarrow> impl c (rep a) = (fst (spec c a), rep (snd (spec c a)))"
    and keep: "inv a \<Longrightarrow> ok c a \<Longrightarrow> inv (snd (spec c a))"
begin

lemma run_sim:
  "inv a \<Longrightarrow> legal_calls ok spec cs a \<Longrightarrow>
     run_calls impl cs (rep a) = (fst (run_calls spec cs a), rep (snd (run_calls spec cs a)))"
  by (induction cs arbitrary: a) (simp_all add: sim keep split_beta Let_def)

lemma run_keep: "inv a \<Longrightarrow> legal_calls ok spec cs a \<Longrightarrow> inv (snd (run_calls spec cs a))"
  by (induction cs arbitrary: a) (simp_all add: keep split_beta Let_def)

end

end
