(* ===== verification/Free_Queue.thy ===== *)
theory Free_Queue
  imports Refine
begin

text \<open>
  The doubly linked list of free KV-cache blocks (\<open>FreeKVCacheBlockQueue\<close> of
  \<open>v1/core/kv_cache_utils.py\<close>). A block is named by its index in the pool; the links
  \<open>prev_free_block\<close> and \<open>next_free_block\<close> of all blocks and of the two fake ends are two maps.
  Every operation is shown to implement the operation on the list of free blocks, through the
  abstraction \<open>queue_of\<close>; the laws a client relies on are the locale \<open>free_list\<close>.
\<close>

section \<open>Nodes and links\<close>

datatype node = FakeHead | FakeTail | Blk nat

record free_queue =
  q_next :: "node \<rightharpoonup> node"
  q_prev :: "node \<rightharpoonup> node"
  num_free_blocks :: int

definition set_next :: "node \<Rightarrow> node option \<Rightarrow> free_queue \<Rightarrow> free_queue" where
  "set_next n v q = q\<lparr>q_next := (q_next q)(n := v)\<rparr>"

definition set_prev :: "node \<Rightarrow> node option \<Rightarrow> free_queue \<Rightarrow> free_queue" where
  "set_prev n v q = q\<lparr>q_prev := (q_prev q)(n := v)\<rparr>"

definition add_free :: "int \<Rightarrow> free_queue \<Rightarrow> free_queue" where
  "add_free n q = q\<lparr>num_free_blocks := num_free_blocks q + n\<rparr>"

definition no_links :: "int \<Rightarrow> free_queue" where
  "no_links n = \<lparr>q_next = Map.empty, q_prev = Map.empty, num_free_blocks = n\<rparr>"

section \<open>Operations\<close>

definition link_block :: "nat list \<Rightarrow> nat \<Rightarrow> free_queue \<Rightarrow> free_queue" where
  "link_block blocks i q =
     (let q = (if i > 0 then set_prev (Blk (blocks ! i)) (Some (Blk (blocks ! (i - 1)))) q else q)
      in if i < length blocks - 1 then set_next (Blk (blocks ! i)) (Some (Blk (blocks ! (i + 1)))) q else q)"

definition fq_init :: "nat list \<Rightarrow> free_queue" where
  "fq_init blocks =
     (let q = fold (link_block blocks) [0..<length blocks] (no_links (int (length blocks)))
      in if blocks \<noteq> []
         then set_next (Blk (last blocks)) (Some FakeTail)
                (set_prev FakeTail (Some (Blk (last blocks)))
                   (set_prev (Blk (hd blocks)) (Some FakeHead)
                      (set_next FakeHead (Some (Blk (hd blocks))) q)))
         else set_prev FakeTail (Some FakeHead) (set_next FakeHead (Some FakeTail) q))"

definition popleft :: "free_queue \<Rightarrow> (nat \<times> free_queue) res" where
  "popleft q =
     (case q_next q FakeHead of
        Some (Blk b) \<Rightarrow>
          (case q_next q (Blk b) of
             None \<Rightarrow> Inl RuntimeError
           | Some n \<Rightarrow>
               let q = set_next FakeHead (Some n) q;
                   q = set_prev n (Some FakeHead) q;
                   q = set_next (Blk b) None (set_prev (Blk b) None q)
               in Inr (b, add_free (-1) q))
      | _ \<Rightarrow> if num_free_blocks q = 0 then Inl ValueError else Inl AssertionError)"

text \<open>
  The loop of \<open>popleft_n\<close>: the blocks met from the current one on and the node after the last.
  A fake end met before the loop is over would be returned as a block; it is an assertion
  error here, and the loop never meets one within the count of free blocks.
\<close>

primrec pop_loop :: "nat \<Rightarrow> node option \<Rightarrow> nat list \<Rightarrow> free_queue \<Rightarrow> (nat list \<times> node option \<times> free_queue) res" where
  "pop_loop 0 cur ret q = Inr (ret, cur, q)"
| "pop_loop (Suc k) cur ret q =
     (case cur of
        Some (Blk b) \<Rightarrow>
          pop_loop k (q_next q (Blk b)) (ret @ [b]) (set_next (Blk b) None (set_prev (Blk b) None q))
      | _ \<Rightarrow> Inl AssertionError)"

definition popleft_n :: "int \<Rightarrow> free_queue \<Rightarrow> (nat list \<times> free_queue) res" where
  "popleft_n n q =
     (if n = 0 then Inr ([], q)
      else if num_free_blocks q < n then Inl AssertionError
      else rbind (pop_loop (nat n) (q_next q FakeHead) [] (add_free (- n) q)) (\<lambda>(ret, cur, q).
             Inr (ret, case cur of
                 None \<Rightarrow> q
               | Some c \<Rightarrow> set_prev c (Some FakeHead) (set_next FakeHead (Some c) q))))"

definition fq_remove :: "nat \<Rightarrow> free_queue \<Rightarrow> free_queue res" where
  "fq_remove b q =
     (case (q_prev q (Blk b), q_next q (Blk b)) of
        (Some p, Some n) \<Rightarrow>
          let q = set_next p (Some n) q;
              q = set_prev n (Some p) q;
              q = set_next (Blk b) None (set_prev (Blk b) None q)
          in Inr (add_free (-1) q)
      | _ \<Rightarrow> Inl RuntimeError)"

definition fq_append :: "nat \<Rightarrow> free_queue \<Rightarrow> free_queue res" where
  "fq_append b q =
     (case q_prev q FakeTail of
        None \<Rightarrow> Inl RuntimeError
      | Some l \<Rightarrow>
          let q = set_next l (Some (Blk b)) q;
              q = set_prev (Blk b) (Some l) q;
              q = set_next (Blk b) (Some FakeTail) q;
              q = set_prev FakeTail (Some (Blk b)) q
          in Inr (add_free 1 q))"

primrec append_loop :: "node \<Rightarrow> nat list \<Rightarrow> free_queue \<Rightarrow> node \<times> free_queue" where
  "append_loop l [] q = (l, q)"
| "append_loop l (b # bs) q =
     append_loop (Blk b) bs (set_next l (Some (Blk b)) (set_prev (Blk b) (Some l) q))"

definition append_n :: "nat list \<Rightarrow> free_queue \<Rightarrow> free_queue res" where
  "append_n blocks q =
     (if blocks = [] then Inr q
      else case q_prev q FakeTail of
        None \<Rightarrow> Inl AssertionError
      | Some l \<Rightarrow>
          let (l, q) = append_loop l blocks q;
              q = set_next l (Some FakeTail) q;
              q = set_prev FakeTail (Some l) q
          in Inr (add_free (int (length blocks)) q))"

text \<open>The walk of \<open>get_all_free_blocks\<close>; \<open>None\<close> if it never reaches a node without a successor.\<close>

partial_function (option) walk :: "free_queue \<Rightarrow> node \<Rightarrow> node list \<Rightarrow> node list option" where
  "walk q cur ret =
     (case q_next q cur of
        None \<Rightarrow> Some ret
      | Some n \<Rightarrow> walk q n (ret @ [cur]))"

definition get_all_free_blocks :: "free_queue \<Rightarrow> node list option res" where
  "get_all_free_blocks q =
     (case q_next q FakeHead of None \<Rightarrow> Inl RuntimeError | Some c \<Rightarrow> Inr (walk q c []))"

section \<open>The list a queue stands for\<close>

fun chain :: "'a list \<Rightarrow> 'a \<rightharpoonup> 'a" where
  "chain (x # y # zs) = (chain (y # zs))(x \<mapsto> y)"
| "chain _ = Map.empty"

definition nodes :: "nat list \<Rightarrow> node list" where
  "nodes xs = FakeHead # map Blk xs @ [FakeTail]"

definition queue_of :: "nat list \<Rightarrow> free_queue" where
  "queue_of xs = \<lparr>q_next = chain (nodes xs), q_prev = chain (rev (nodes xs)), num_free_blocks = int (length xs)\<rparr>"

lemma chain_notin: "x \<notin> set xs \<Longrightarrow> chain xs x = None"
  by (induction xs rule: chain.induct) auto

lemma chain_last: "distinct xs \<Longrightarrow> xs \<noteq> [] \<Longrightarrow> chain xs (last xs) = None"
  by (induction xs rule: chain.induct) auto

lemma chain_Cons: "xs \<noteq> [] \<Longrightarrow> chain (x # xs) = (chain xs)(x \<mapsto> hd xs)"
  by (cases xs) simp_all

lemma chain_snoc: "distinct (xs @ [x]) \<Longrightarrow> xs \<noteq> [] \<Longrightarrow> chain (xs @ [x]) = (chain xs)(last xs \<mapsto> x)"
proof (induction xs)
  case (Cons a xs)
  show ?case
  proof (cases "xs = []")
    case False
    with Cons.prems have "last xs \<noteq> a" using last_in_set by force
    have "chain ((a # xs) @ [x]) = (chain (xs @ [x]))(a \<mapsto> hd xs)"
      using False by (simp add: chain_Cons)
    also have "chain (xs @ [x]) = (chain xs)(last xs \<mapsto> x)"
      by (rule Cons.IH) (use Cons.prems False in simp_all)
    also have "(chain xs)(last xs \<mapsto> x, a \<mapsto> hd xs) = (chain (a # xs))(last xs \<mapsto> x)"
      using False \<open>last xs \<noteq> a\<close> by (simp add: chain_Cons fun_upd_twist)
    finally show ?thesis using False by simp
  qed simp
qed simp

lemma chain_remove:
  "distinct (as @ x # y # z # bs) \<Longrightarrow> (chain (as @ x # y # z # bs))(x \<mapsto> z, y := None) = chain (as @ x # z # bs)"
proof (induction as)
  case Nil
  then show ?case using chain_notin [of y "z # bs"] by (auto simp: fun_eq_iff)
next
  case (Cons a as)
  have "(chain (a # as @ x # y # z # bs))(x \<mapsto> z, y := None) =
      ((chain (as @ x # y # z # bs))(x \<mapsto> z, y := None))(a \<mapsto> hd (as @ x # y # z # bs))"
    using Cons.prems by (subst chain_Cons) (auto simp: fun_upd_twist)
  also have "hd (as @ x # y # z # bs) = hd (as @ x # z # bs)" by (cases as) simp_all
  also have "(chain (as @ x # y # z # bs))(x \<mapsto> z, y := None) = chain (as @ x # z # bs)"
    by (rule Cons.IH) (use Cons.prems in simp)
  also have "(chain (as @ x # z # bs))(a \<mapsto> hd (as @ x # z # bs)) = chain (a # as @ x # z # bs)"
    by (subst chain_Cons) simp_all
  finally show ?case by simp
qed

lemma chain_mid: "distinct (as @ x # y # bs) \<Longrightarrow> chain (as @ x # y # bs) x = Some y"
  by (induction as) (auto simp: chain_Cons)

lemma chain_insert:
  assumes "distinct (as @ x # y # z # bs)"
  shows "(chain (as @ x # z # bs))(x \<mapsto> y, y \<mapsto> z) = chain (as @ x # y # z # bs)"
proof -
  have "x \<noteq> y" using assms by auto
  moreover have "chain (as @ x # y # z # bs) x = Some y" "chain (as @ x # y # z # bs) y = Some z"
    using assms chain_mid [of as x y "z # bs"] chain_mid [of "as @ [x]" y z bs] by simp_all
  ultimately show ?thesis
    unfolding chain_remove [OF assms, symmetric] by (auto simp: fun_eq_iff)
qed

section \<open>The operations on the list\<close>

lemma nodes_distinct: "distinct xs \<Longrightarrow> distinct (nodes xs)" "distinct xs \<Longrightarrow> distinct (rev (nodes xs))"
  by (auto simp: nodes_def distinct_map inj_on_def)

lemma nodes_simps:
  "nodes [] = [FakeHead, FakeTail]" "nodes (x # xs) = FakeHead # Blk x # (map Blk xs @ [FakeTail])"
  "nodes (xs @ [x]) = (FakeHead # map Blk xs) @ Blk x # FakeTail # []"
  by (simp_all add: nodes_def)

lemma link_fields [simp]:
  "q_next (set_next n v q) = (q_next q)(n := v)" "q_prev (set_next n v q) = q_prev q"
  "q_next (set_prev n v q) = q_next q" "q_prev (set_prev n v q) = (q_prev q)(n := v)"
  "num_free_blocks (set_next n v q) = num_free_blocks q" "num_free_blocks (set_prev n v q) = num_free_blocks q"
  "q_next (add_free k q) = q_next q" "q_prev (add_free k q) = q_prev q"
  "num_free_blocks (add_free k q) = num_free_blocks q + k"
  by (simp_all add: set_next_def set_prev_def add_free_def)

lemma queue_ofI:
  "q_next q = chain (nodes xs) \<Longrightarrow> q_prev q = chain (rev (nodes xs)) \<Longrightarrow> num_free_blocks q = int (length xs) \<Longrightarrow>
     q = queue_of xs"
  by (simp add: queue_of_def)

lemma queue_of_fields [simp]:
  "q_next (queue_of xs) = chain (nodes xs)" "q_prev (queue_of xs) = chain (rev (nodes xs))"
  "num_free_blocks (queue_of xs) = int (length xs)"
  by (simp_all add: queue_of_def)

text \<open>Taking the node \<open>Blk b\<close> out from between its neighbours.\<close>

lemma unlink:
  assumes "distinct xs" "nodes xs = as @ p # Blk b # n # bs" "nodes ys = as @ p # n # bs" "length xs = Suc (length ys)"
  shows "add_free (-1) (set_next (Blk b) None (set_prev (Blk b) None (set_prev n (Some p) (set_next p (Some n) (queue_of xs))))) =
    queue_of ys"
proof (rule queue_ofI)
  have d: "distinct (as @ p # Blk b # n # bs)" "distinct (rev bs @ n # Blk b # p # rev as)"
    using nodes_distinct [OF assms(1)] assms(2) by auto
  show "q_next (add_free (-1) (set_next (Blk b) None (set_prev (Blk b) None (set_prev n (Some p) (set_next p (Some n) (queue_of xs)))))) =
    chain (nodes ys)"
    using chain_remove [OF d(1)] by (simp add: assms(2,3))
  show "q_prev (add_free (-1) (set_next (Blk b) None (set_prev (Blk b) None (set_prev n (Some p) (set_next p (Some n) (queue_of xs)))))) =
    chain (rev (nodes ys))"
    using chain_remove [OF d(2)] by (simp add: assms(2,3))
qed (simp add: assms(4))

lemma popleft_list:
  "popleft (queue_of []) = Inl ValueError"
  "distinct (x # xs) \<Longrightarrow> popleft (queue_of (x # xs)) = Inr (x, queue_of xs)"
proof -
  show "popleft (queue_of []) = Inl ValueError"
    by (simp add: popleft_def nodes_simps)
  assume d: "distinct (x # xs)"
  obtain n bs where n: "map Blk xs @ [FakeTail] = n # bs" by (cases "map Blk xs @ [FakeTail]") auto
  have eq: "nodes (x # xs) = [] @ FakeHead # Blk x # n # bs" "nodes xs = [] @ FakeHead # n # bs"
    using n by (simp_all add: nodes_def)
  have nx: "chain (nodes (x # xs)) FakeHead = Some (Blk x)" "chain (nodes (x # xs)) (Blk x) = Some n"
    unfolding eq by simp_all
  show "popleft (queue_of (x # xs)) = Inr (x, queue_of xs)"
    using unlink [OF d eq] by (simp add: popleft_def nx Let_def)
qed

lemma remove_list:
  "distinct xs \<Longrightarrow> b \<in> set xs \<Longrightarrow> fq_remove b (queue_of xs) = Inr (queue_of (remove1 b xs))"
  "b \<notin> set xs \<Longrightarrow> fq_remove b (queue_of xs) = Inl RuntimeError"
proof -
  assume d: "distinct xs" and b: "b \<in> set xs"
  obtain us vs where xs: "xs = us @ b # vs" "b \<notin> set us" using split_list_first [OF b] by blast
  have rm: "remove1 b xs = us @ vs" and len: "length xs = Suc (length (us @ vs))"
    using xs by (simp_all add: remove1_append)
  obtain as p where p: "FakeHead # map Blk us = as @ [p]" by (cases "FakeHead # map Blk us" rule: rev_cases) auto
  obtain n bs where n: "map Blk vs @ [FakeTail] = n # bs" by (cases "map Blk vs @ [FakeTail]") auto
  have eq: "nodes xs = as @ p # Blk b # n # bs" "nodes (us @ vs) = as @ p # n # bs"
    using p n xs by (simp_all add: nodes_def)
  have "chain ((as @ [p]) @ Blk b # n # bs) (Blk b) = Some n"
    by (rule chain_mid) (use nodes_distinct(1) [OF d] eq in simp)
  moreover have "chain ((rev bs @ [n]) @ Blk b # p # rev as) (Blk b) = Some p"
    by (rule chain_mid) (use nodes_distinct(1) [OF d] eq in auto)
  ultimately have "q_next (queue_of xs) (Blk b) = Some n" "q_prev (queue_of xs) (Blk b) = Some p"
    by (simp_all add: eq)
  then show "fq_remove b (queue_of xs) = Inr (queue_of (remove1 b xs))"
    using unlink [OF d eq len] by (simp add: fq_remove_def Let_def rm)
next
  assume "b \<notin> set xs"
  then have "chain (rev (nodes xs)) (Blk b) = None" by (intro chain_notin) (auto simp: nodes_def)
  then show "fq_remove b (queue_of xs) = Inl RuntimeError" by (simp add: fq_remove_def)
qed

lemma append_loop_list:
  assumes "distinct (pre @ l # map Blk bs @ [FakeTail])"
    "q_next q = (chain (pre @ [l]))(l := v)" "q_prev q = (chain (rev (pre @ [l])))(FakeTail \<mapsto> p)"
  shows "\<exists>q' v'. append_loop l bs q = (last (l # map Blk bs), q') \<and>
    q_next q' = (chain (pre @ l # map Blk bs))(last (l # map Blk bs) := v') \<and>
    q_prev q' = (chain (rev (pre @ l # map Blk bs)))(FakeTail \<mapsto> p) \<and> num_free_blocks q' = num_free_blocks q"
  using assms
proof (induction bs arbitrary: pre l q v)
  case Nil
  then show ?case by auto
next
  case (Cons b bs)
  let ?q = "set_next l (Some (Blk b)) (set_prev (Blk b) (Some l) q)"
  have d: "distinct ((pre @ [l]) @ Blk b # map Blk bs @ [FakeTail])" using Cons.prems(1) by simp
  have "q_next ?q = (chain (pre @ [l]))(l \<mapsto> Blk b)"
    unfolding link_fields Cons.prems(2) by (rule fun_upd_upd)
  also have "\<dots> = chain ((pre @ [l]) @ [Blk b])" using Cons.prems(1) by (subst chain_snoc) auto
  also have "\<dots> = (chain ((pre @ [l]) @ [Blk b]))(Blk b := chain ((pre @ [l]) @ [Blk b]) (Blk b))"
    by (rule fun_upd_triv [symmetric])
  finally have n: "q_next ?q = (chain ((pre @ [l]) @ [Blk b]))(Blk b := chain ((pre @ [l]) @ [Blk b]) (Blk b))" .
  have "q_prev ?q = (chain (rev (pre @ [l])))(FakeTail \<mapsto> p, Blk b \<mapsto> l)"
    unfolding link_fields Cons.prems(3) ..
  also have "\<dots> = (chain (rev ((pre @ [l]) @ [Blk b])))(FakeTail \<mapsto> p)"
    by (simp add: fun_upd_twist)
  finally have "q_prev ?q = (chain (rev ((pre @ [l]) @ [Blk b])))(FakeTail \<mapsto> p)" .
  from Cons.IH [OF d n this] show ?case by simp
qed

lemma append_n_list:
  assumes "distinct (xs @ bs)"
  shows "append_n bs (queue_of xs) = Inr (queue_of (xs @ bs))"
proof (cases "bs = []")
  case False
  obtain pre l where l: "FakeHead # map Blk xs = pre @ [l]" by (cases "FakeHead # map Blk xs" rule: rev_cases) auto
  have nd: "nodes xs = pre @ [l] @ [FakeTail]" "nodes (xs @ bs) = (pre @ l # map Blk bs) @ [FakeTail]"
    using l by (simp_all add: nodes_def)
  have d: "distinct (pre @ l # map Blk bs @ [FakeTail])" using nodes_distinct(1) [OF assms] nd(2) by simp
  then have "q_next (queue_of xs) = (chain (pre @ [l]))(l := Some FakeTail)"
    using chain_snoc [of "pre @ [l]" FakeTail] by (simp add: nd)
  moreover have "q_prev (queue_of xs) = (chain (rev (pre @ [l])))(FakeTail \<mapsto> l)"
    by (simp add: nd)
  ultimately obtain q' v' where a: "append_loop l bs (queue_of xs) = (last (l # map Blk bs), q')"
    "q_next q' = (chain (pre @ l # map Blk bs))(last (l # map Blk bs) := v')"
    "q_prev q' = (chain (rev (pre @ l # map Blk bs)))(FakeTail \<mapsto> l)" "num_free_blocks q' = int (length xs)"
    using append_loop_list [OF d] by fastforce
  let ?z = "last (l # map Blk bs)"
  have "set_prev FakeTail (Some ?z) (set_next ?z (Some FakeTail) q') =
      (queue_of (xs @ bs))\<lparr>num_free_blocks := int (length xs)\<rparr>"
  proof -
    have "chain ((pre @ l # map Blk bs) @ [FakeTail]) = (chain (pre @ l # map Blk bs))(?z \<mapsto> FakeTail)"
      using d chain_snoc [of "pre @ l # map Blk bs" FakeTail] by simp
    moreover have "chain (FakeTail # rev (pre @ l # map Blk bs)) = (chain (rev (pre @ l # map Blk bs)))(FakeTail \<mapsto> ?z)"
      by (subst chain_Cons) (simp_all add: hd_rev last_append)
    ultimately show ?thesis
      using a by (simp add: queue_of_def nd set_next_def set_prev_def)
  qed
  moreover have "q_prev (queue_of xs) FakeTail = Some l" by (simp add: nd)
  ultimately show ?thesis
    using False a(1,4) by (simp add: append_n_def Let_def add_free_def queue_of_def)
qed (simp add: append_n_def)

lemma append_list:
  assumes "distinct (xs @ [b])"
  shows "fq_append b (queue_of xs) = Inr (queue_of (xs @ [b]))"
proof -
  have "fq_append b q = append_n [b] q" if "q_prev q FakeTail \<noteq> None" for q
    using that by (auto simp: fq_append_def append_n_def Let_def set_next_def set_prev_def add_free_def)
  moreover have "q_prev (queue_of xs) FakeTail \<noteq> None"
    by (cases "map Blk xs" rule: rev_cases) (simp_all add: nodes_def)
  ultimately show ?thesis using append_n_list [OF assms] by simp
qed

lemma pop_loop_list:
  assumes "distinct (map Blk xs @ [FakeTail])" "k \<le> length xs"
    "q_next q = (chain (map Blk xs @ [FakeTail]))(FakeHead := h)"
    "q_prev q = (chain (rev (map Blk xs @ [FakeTail])))(hd (map Blk xs @ [FakeTail]) := p)"
  shows "\<exists>q' p'. pop_loop k (Some (hd (map Blk xs @ [FakeTail]))) ret q =
      Inr (ret @ take k xs, Some (hd (map Blk (drop k xs) @ [FakeTail])), q') \<and>
    q_next q' = (chain (map Blk (drop k xs) @ [FakeTail]))(FakeHead := h) \<and>
    q_prev q' = (chain (rev (map Blk (drop k xs) @ [FakeTail])))(hd (map Blk (drop k xs) @ [FakeTail]) := p') \<and>
    num_free_blocks q' = num_free_blocks q"
  using assms
proof (induction xs arbitrary: k q p ret)
  case (Cons b xs)
  let ?L = "map Blk xs @ [FakeTail]"
  let ?q = "set_next (Blk b) None (set_prev (Blk b) None q)"
  show ?case
  proof (cases k)
    case (Suc j)
    have b: "Blk b \<notin> set ?L" and d: "distinct ?L" using Cons.prems(1) by auto
    have c: "chain (map Blk (b # xs) @ [FakeTail]) = (chain ?L)(Blk b \<mapsto> hd ?L)"
      using chain_Cons [of ?L "Blk b"] by simp
    have r: "chain (rev (map Blk (b # xs) @ [FakeTail])) = (chain (rev ?L))(hd ?L \<mapsto> Blk b)"
    proof -
      have "last (rev ?L) = hd ?L" by (simp only: last_rev)
      then show ?thesis using chain_snoc [of "rev ?L" "Blk b"] b d by simp
    qed
    have "q_next q (Blk b) = Some (hd ?L)" unfolding Cons.prems(3) c by simp
    moreover have "q_next ?q = (chain ?L)(FakeHead := h)"
      unfolding link_fields Cons.prems(3) c using chain_notin [OF b] by (auto simp: fun_eq_iff)
    moreover have "q_prev ?q = (chain (rev ?L))(hd ?L := Some (Blk b))"
      unfolding link_fields Cons.prems(4) r using chain_notin [of "Blk b" "rev ?L"] b
      by (cases xs) (auto simp: fun_eq_iff)
    ultimately show ?thesis
      using Cons.IH [OF d, of j ?q "Some (Blk b)" "ret @ [b]"] Cons.prems(2) Suc by simp
  qed (use Cons.prems in auto)
qed auto

lemma popleft_n_list:
  assumes "distinct xs" "k \<le> length xs"
  shows "popleft_n (int k) (queue_of xs) = Inr (take k xs, queue_of (drop k xs))"
proof (cases "k = 0")
  case False
  let ?L = "\<lambda>ys. map Blk ys @ [FakeTail]"
  have nd: "nodes ys = FakeHead # ?L ys" for ys by (simp add: nodes_def)
  have d: "distinct (FakeHead # ?L ys)" if "distinct ys" for ys using nodes_distinct(1) [OF that] by (simp add: nd)
  have nx: "chain (nodes ys) = (chain (?L ys))(FakeHead \<mapsto> hd (?L ys))" for ys
    using chain_Cons [of "?L ys" FakeHead] by (simp add: nd)
  have pv: "chain (rev (nodes ys)) = (chain (rev (?L ys)))(hd (?L ys) \<mapsto> FakeHead)" if "distinct ys" for ys
    using chain_snoc [of "rev (?L ys)" FakeHead] d [OF that] by (simp add: nd last_rev)
  have dr: "distinct (drop k xs)" using assms(1) by simp
  let ?q = "add_free (- int k) (queue_of xs)"
  have "q_next ?q = (chain (?L xs))(FakeHead := Some (hd (?L xs)))" by (simp add: nx)
  moreover have "q_prev ?q = (chain (rev (?L xs)))(hd (?L xs) := Some FakeHead)" by (simp add: pv [OF assms(1)])
  moreover have "distinct (?L xs)" using d [OF assms(1)] by simp
  ultimately obtain q' p' where q': "pop_loop k (Some (hd (?L xs))) [] ?q = Inr (take k xs, Some (hd (?L (drop k xs))), q')"
    "q_next q' = (chain (?L (drop k xs)))(FakeHead := Some (hd (?L xs)))"
    "q_prev q' = (chain (rev (?L (drop k xs))))(hd (?L (drop k xs)) := p')"
    "num_free_blocks q' = num_free_blocks ?q"
    using pop_loop_list [of xs k ?q _ _ "[]"] assms(2) by (metis append_Nil)
  let ?c = "hd (?L (drop k xs))"
  have "set_prev ?c (Some FakeHead) (set_next FakeHead (Some ?c) q') = queue_of (drop k xs)"
  proof (rule queue_ofI)
    show "q_next (set_prev ?c (Some FakeHead) (set_next FakeHead (Some ?c) q')) = chain (nodes (drop k xs))"
      unfolding link_fields q'(2) nx by (rule fun_upd_upd)
    show "q_prev (set_prev ?c (Some FakeHead) (set_next FakeHead (Some ?c) q')) = chain (rev (nodes (drop k xs)))"
      unfolding link_fields q'(3) pv [OF dr] by (rule fun_upd_upd)
  qed (use q'(4) assms(2) in simp)
  moreover have "q_next (queue_of xs) FakeHead = Some (hd (?L xs))" by (simp add: nx)
  ultimately show ?thesis
    using False assms(2) q'(1) by (simp add: popleft_n_def)
qed (simp add: popleft_n_def)

lemma popleft_n_short: "int (length xs) < n \<Longrightarrow> popleft_n n (queue_of xs) = Inl AssertionError"
  by (simp add: popleft_n_def)

lemma link_loop:
  assumes "distinct bs" "i \<le> length bs"
  shows "fold (link_block bs) [0..<i] (no_links n) =
    \<lparr>q_next = chain (map Blk (take (Suc i) bs)), q_prev = chain (rev (map Blk (take i bs))), num_free_blocks = n\<rparr>"
  using assms(2)
proof (induction i)
  case 0
  show ?case by (cases bs) (simp_all add: no_links_def)
next
  case (Suc i)
  let ?f = "fold (link_block bs) [0..<i] (no_links n)"
  have IH: "?f = \<lparr>q_next = chain (map Blk (take (Suc i) bs)), q_prev = chain (rev (map Blk (take i bs))), num_free_blocks = n\<rparr>"
    using Suc by simp
  have i: "take (Suc i) bs = take i bs @ [bs ! i]" using Suc.prems by (simp add: take_Suc_conv_app_nth)
  have "q_prev (link_block bs i ?f) = chain (rev (map Blk (take (Suc i) bs)))"
  proof (cases "i = 0")
    case False
    then obtain j where j: "i = Suc j" by (cases i) auto
    then have "take i bs = take j bs @ [bs ! j]" using Suc.prems by (simp add: take_Suc_conv_app_nth)
    then have "hd (rev (map Blk (take i bs))) = Blk (bs ! (i - 1))" "take i bs \<noteq> []" using j by simp_all
    then show ?thesis using False by (simp add: link_block_def Let_def IH i chain_Cons)
  next
    case True
    then show ?thesis using Suc.prems by (cases bs) (simp_all add: link_block_def Let_def no_links_def)
  qed
  moreover have "q_next (link_block bs i ?f) = chain (map Blk (take (Suc (Suc i)) bs))"
  proof (cases "i < length bs - 1")
    case True
    then have t: "take (Suc (Suc i)) bs = take (Suc i) bs @ [bs ! Suc i]" by (simp add: take_Suc_conv_app_nth)
    have "distinct (map Blk (take (Suc (Suc i)) bs))" using assms(1) by (simp add: distinct_map inj_on_def)
    then have "chain (map Blk (take (Suc (Suc i)) bs)) = (chain (map Blk (take (Suc i) bs)))(last (map Blk (take (Suc i) bs)) \<mapsto> Blk (bs ! Suc i))"
      unfolding t map_append list.map by (rule chain_snoc) (simp add: i)
    then show ?thesis using True by (simp add: link_block_def Let_def IH i)
  qed (use Suc.prems in \<open>simp add: link_block_def Let_def IH\<close>)
  moreover have "num_free_blocks (link_block bs i ?f) = n" by (simp add: link_block_def Let_def IH)
  ultimately show ?case by simp
qed

lemma init_list: "distinct bs \<Longrightarrow> fq_init bs = queue_of bs"
proof (cases "bs = []")
  case False
  assume d: "distinct bs"
  let ?m = "map Blk bs"
  let ?q = "fold (link_block bs) [0..<length bs] (no_links (int (length bs)))"
  have q: "q_next ?q = chain ?m" "q_prev ?q = chain (rev ?m)" "num_free_blocks ?q = int (length bs)"
    using link_loop [OF d, of "length bs"] by simp_all
  have dm: "distinct (FakeHead # ?m @ [FakeTail])" using nodes_distinct(1) [OF d] by (simp add: nodes_def)
  have ends: "hd ?m = Blk (hd bs)" "last ?m = Blk (last bs)" using False by (simp_all add: hd_map last_map)
  have "chain (nodes bs) = (chain ?m)(FakeHead \<mapsto> Blk (hd bs), Blk (last bs) \<mapsto> FakeTail)"
    using chain_Cons [of ?m FakeHead] chain_snoc [of "FakeHead # ?m" FakeTail] dm False ends by (simp add: nodes_def)
  moreover have "chain (rev (nodes bs)) = (chain (rev ?m))(Blk (hd bs) \<mapsto> FakeHead, FakeTail \<mapsto> Blk (last bs))"
    using chain_Cons [of "rev ?m" FakeTail] chain_snoc [of "FakeTail # rev ?m" FakeHead] dm False ends
    by (simp add: nodes_def hd_rev last_rev fun_upd_twist)
  ultimately show ?thesis
    using False q by (intro queue_ofI) (simp_all add: fq_init_def Let_def)
qed (simp add: fq_init_def no_links_def queue_of_def nodes_def set_next_def set_prev_def)

lemma walk_list:
  assumes "distinct xs" "nodes xs = pre @ map Blk ys @ [FakeTail]"
  shows "walk (queue_of xs) (hd (map Blk ys @ [FakeTail])) ret = Some (ret @ map Blk ys)"
  using assms(2)
proof (induction ys arbitrary: pre ret)
  case Nil
  have "chain (nodes xs) FakeTail = None"
    using chain_last [OF nodes_distinct(1) [OF assms(1)]] by (simp add: nodes_def)
  then show ?case by (subst walk.simps) simp
next
  case (Cons y ys)
  obtain n zs where n: "map Blk ys @ [FakeTail] = n # zs" by (cases "map Blk ys @ [FakeTail]") auto
  have "chain (pre @ Blk y # n # zs) (Blk y) = Some n"
    by (rule chain_mid) (use nodes_distinct(1) [OF assms(1)] Cons.prems n in simp)
  then have "chain (nodes xs) (Blk y) = Some n" using Cons.prems n by simp
  moreover have "walk (queue_of xs) n (ret @ [Blk y]) = Some ((ret @ [Blk y]) @ map Blk ys)"
    using Cons.IH [of "pre @ [Blk y]" "ret @ [Blk y]"] Cons.prems n by simp
  ultimately show ?case by (subst walk.simps) simp
qed

lemma get_all_list: "distinct xs \<Longrightarrow> get_all_free_blocks (queue_of xs) = Inr (Some (map Blk xs))"
  using walk_list [of xs "[FakeHead]" xs "[]"] chain_Cons [of "map Blk xs @ [FakeTail]" FakeHead]
  by (simp add: get_all_free_blocks_def nodes_def)

section \<open>Sequences of calls\<close>

datatype fq_call = PopLeft | PopLeftN int | Remove nat | Append nat | AppendN "nat list" | GetAll

text \<open>One call on the object. A call that raises has not touched the links.\<close>

definition call_with :: "'s \<Rightarrow> ('r \<times> 's) res \<Rightarrow> 'r res \<times> 's" where
  "call_with s r = (case r of Inl e \<Rightarrow> (Inl e, s) | Inr (x, s') \<Rightarrow> (Inr x, s'))"

primrec queue_call :: "fq_call \<Rightarrow> free_queue \<Rightarrow> node list option res \<times> free_queue" where
  "queue_call PopLeft q = call_with q (rbind (popleft q) (\<lambda>(b, q). Inr (Some [Blk b], q)))"
| "queue_call (PopLeftN n) q = call_with q (rbind (popleft_n n q) (\<lambda>(bs, q). Inr (Some (map Blk bs), q)))"
| "queue_call (Remove b) q = call_with q (rbind (fq_remove b q) (\<lambda>q. Inr (Some [], q)))"
| "queue_call (Append b) q = call_with q (rbind (fq_append b q) (\<lambda>q. Inr (Some [], q)))"
| "queue_call (AppendN bs) q = call_with q (rbind (append_n bs q) (\<lambda>q. Inr (Some [], q)))"
| "queue_call GetAll q = (get_all_free_blocks q, q)"

text \<open>The specification: the free blocks as a list, the least recently freed block first.\<close>

primrec list_call :: "fq_call \<Rightarrow> nat list \<Rightarrow> node list option res \<times> nat list" where
  "list_call PopLeft xs = (if xs = [] then (Inl ValueError, xs) else (Inr (Some [Blk (hd xs)]), tl xs))"
| "list_call (PopLeftN n) xs =
     (if int (length xs) < n then (Inl AssertionError, xs)
      else (Inr (Some (map Blk (take (nat n) xs))), drop (nat n) xs))"
| "list_call (Remove b) xs = (if b \<in> set xs then (Inr (Some []), remove1 b xs) else (Inl RuntimeError, xs))"
| "list_call (Append b) xs = (Inr (Some []), xs @ [b])"
| "list_call (AppendN bs) xs = (Inr (Some []), xs @ bs)"
| "list_call GetAll xs = (Inr (Some (map Blk xs)), xs)"

text \<open>A count is not negative and a block is not freed twice.\<close>

primrec legal_call :: "fq_call \<Rightarrow> nat list \<Rightarrow> bool" where
  "legal_call PopLeft xs \<longleftrightarrow> True"
| "legal_call (PopLeftN n) xs \<longleftrightarrow> 0 \<le> n"
| "legal_call (Remove b) xs \<longleftrightarrow> True"
| "legal_call (Append b) xs \<longleftrightarrow> b \<notin> set xs"
| "legal_call (AppendN bs) xs \<longleftrightarrow> distinct bs \<and> set bs \<inter> set xs = {}"
| "legal_call GetAll xs \<longleftrightarrow> True"

interpretation fql: refined_calls queue_of distinct legal_call list_call queue_call
proof unfold_locales
  fix xs :: "nat list" and c
  assume d: "distinct xs" and ok: "legal_call c xs"
  show "queue_call c (queue_of xs) = (fst (list_call c xs), queue_of (snd (list_call c xs)))"
  proof (cases c)
    case PopLeft
    then show ?thesis using d by (cases xs) (simp_all add: popleft_list call_with_def)
  next
    case (PopLeftN n)
    then show ?thesis
      using d ok popleft_n_list [of xs "nat n"] by (auto simp: popleft_n_short call_with_def nat_le_iff)
  qed (use d ok in \<open>auto simp: remove_list append_list append_n_list get_all_list call_with_def Int_commute\<close>)
  show "distinct (snd (list_call c xs))" using d ok by (cases c) (auto simp: distinct_tl)
qed

text \<open>
  C10. The free-block queue refines the list of free blocks: from a pool of distinct blocks, any
  sequence of calls that never frees a block already free answers as the list does, errors and
  the result of \<open>get_all_free_blocks\<close> included, and ends in the linked structure of the final list.
\<close>

theorem free_queue_refines_list:
  assumes "distinct blocks" "legal_calls legal_call list_call cs blocks"
  shows "run_calls queue_call cs (fq_init blocks) =
    (fst (run_calls list_call cs blocks), queue_of (snd (run_calls list_call cs blocks)))"
  using fql.run_sim [OF assms] assms(1) by (simp add: init_list)

theorem free_queue_refines_list_witness:
  "distinct [0, 1, 2::nat] \<and>
   legal_calls legal_call list_call [PopLeft, Remove 7, PopLeftN 2, PopLeft, AppendN [2, 0], GetAll] [0, 1, 2] \<and>
   run_calls queue_call [PopLeft, Remove 7, PopLeftN 2, PopLeft, AppendN [2, 0], GetAll] (fq_init [0, 1, 2]) =
     ([Inr (Some [Blk 0]), Inl RuntimeError, Inr (Some [Blk 1, Blk 2]), Inl ValueError, Inr (Some []),
       Inr (Some [Blk 2, Blk 0])], queue_of [2, 0])"
  using free_queue_refines_list [of "[0, 1, 2]" "[PopLeft, Remove 7, PopLeftN 2, PopLeft, AppendN [2, 0], GetAll]"]
  by simp

end
