(* ===== verification/Block_Hash.thy ===== *)
theory Block_Hash
  imports Py_Prelude "HOL-Library.Word"
begin

text \<open>
  Keys of KV-cache blocks (\<open>v1/core/kv_cache_utils.py\<close>): packing a hash with its group, the extra
  keys of a block, the chain of block hashes of a request, and hashes at a coarser block size.
  Byte strings are lists of 8-bit words. The hash function is a parameter; that it separates
  different inputs is a hypothesis where it is needed.
\<close>

unbundle bit_operations_syntax

type_synonym bytes = "8 word list"

section \<open>Packing a hash and a group\<close>

definition to_bytes4 :: "int \<Rightarrow> bytes res" where
  "to_bytes4 n =
     (if 0 \<le> n \<and> n < 2 ^ 32
      then Inr [word_of_int (n div 2 ^ 24), word_of_int (n div 2 ^ 16), word_of_int (n div 2 ^ 8), word_of_int n]
      else Inl OverflowError)"

definition from_bytes :: "bytes \<Rightarrow> int" where
  "from_bytes bs = foldl (\<lambda>n b. n * 256 + uint b) 0 bs"

definition make_block_hash_with_group_id :: "bytes \<Rightarrow> int \<Rightarrow> bytes res" where
  "make_block_hash_with_group_id block_hash group_id =
     rbind (to_bytes4 group_id) (\<lambda>g. Inr (block_hash @ g))"

definition get_block_hash :: "bytes \<Rightarrow> bytes" where
  "get_block_hash key = take (length key - 4) key"

definition get_group_id :: "bytes \<Rightarrow> int" where
  "get_group_id key = from_bytes (drop (length key - 4) key)"

datatype external_hash = ExtBytes bytes | ExtInt int

definition maybe_convert_block_hash :: "bool \<Rightarrow> bytes \<Rightarrow> external_hash" where
  "maybe_convert_block_hash use_int hash_bytes =
     (if \<not> use_int then ExtBytes hash_bytes
      else ExtInt (from_bytes hash_bytes AND (push_bit 64 1 - 1)))"

section \<open>Requests\<close>

text \<open>
  The fields of a \<open>Request\<close> the block keys and the block manager read. The rows of the prompt
  embeddings are given as the bytes of each row. \<open>r_pinned\<close> is set for every request here, as it is
  for the requests that \<open>from_engine_core_request\<close> makes; the constructor alone leaves it unset.
\<close>

record mm_feature =
  mm_identifier :: "string option"
  mm_offset :: int
  mm_length :: int

record request =
  request_id :: string
  all_token_ids :: "int list"
  block_hashes :: "bytes list"
  mm_features :: "mm_feature list"
  lora_request :: "(string \<times> int) option"
  cache_salt :: "string option"
  prompt_embeds :: "bytes list option"
  num_computed_tokens :: int
  num_preemptions :: int
  r_pinned :: bool
  skip_reading_prefix_cache :: bool

definition num_tokens :: "request \<Rightarrow> int" where
  "num_tokens r = int (length (all_token_ids r))"

section \<open>Extra keys\<close>

text \<open>A tuple of extra keys holds strings and bytes, without a mark of where each came from.\<close>

datatype extra_key = KStr string | KBytes bytes

definition need_extra_keys :: "request \<Rightarrow> bool" where
  "need_extra_keys r \<longleftrightarrow> mm_features r \<noteq> [] \<or> lora_request r \<noteq> None \<or> cache_salt r \<noteq> None"

function mm_loop :: "mm_feature list \<Rightarrow> int \<Rightarrow> int \<Rightarrow> nat \<Rightarrow> extra_key list \<Rightarrow> (extra_key list \<times> int) res" where
  "mm_loop feats start_token_idx end_token_idx i keys =
     (if i < length feats
      then case mm_identifier (feats ! i) of
          None \<Rightarrow> Inl AssertionError
        | Some ident \<Rightarrow>
            let offset = mm_offset (feats ! i); len = mm_length (feats ! i)
            in if end_token_idx > offset
               then if start_token_idx > offset + len
                    then mm_loop feats start_token_idx end_token_idx (Suc i) keys
                    else if end_token_idx \<ge> offset + len
                    then mm_loop feats start_token_idx end_token_idx (Suc i) (keys @ [KStr ident])
                    else Inr (keys @ [KStr ident], int i)
               else Inr (keys, int i)
      else Inr (keys, int i))"
  by pat_completeness auto
termination
  by (relation "measure (\<lambda>(feats, _, _, i, _). length feats - i)") auto

declare mm_loop.simps [simp del]

definition gen_mm_extra_hash_keys :: "request \<Rightarrow> int \<Rightarrow> int \<Rightarrow> int \<Rightarrow> (extra_key list \<times> int) res" where
  "gen_mm_extra_hash_keys r start_token_idx end_token_idx start_mm_idx =
     (let feats = mm_features r in
      if feats = [] then Inr ([], start_mm_idx)
      else if mm_offset (last feats) + mm_length (last feats) < start_token_idx then Inr ([], start_mm_idx)
      else if start_mm_idx < 0
      then if - start_mm_idx \<le> int (length feats)
           then mm_loop feats start_token_idx end_token_idx (nat (int (length feats) + start_mm_idx)) []
           else Inl AssertionError
      else mm_loop feats start_token_idx end_token_idx (nat start_mm_idx) [])"

definition gen_lora_extra_hash_keys :: "request \<Rightarrow> extra_key list" where
  "gen_lora_extra_hash_keys r = (case lora_request r of None \<Rightarrow> [] | Some (name, _) \<Rightarrow> [KStr name])"

definition gen_prompt_embeds_extra_hash_keys :: "request \<Rightarrow> int \<Rightarrow> int \<Rightarrow> extra_key list" where
  "gen_prompt_embeds_extra_hash_keys r start_token_idx end_token_idx =
     (case prompt_embeds r of
        None \<Rightarrow> []
      | Some rows \<Rightarrow> [KBytes (concat (py_slice start_token_idx end_token_idx rows))])"

definition cache_salt_keys :: "request \<Rightarrow> int \<Rightarrow> extra_key list" where
  "cache_salt_keys r start_token_idx =
     (case cache_salt r of
        None \<Rightarrow> []
      | Some salt \<Rightarrow> if start_token_idx = 0 \<and> salt \<noteq> '''' then [KStr salt] else [])"

definition generate_block_hash_extra_keys ::
    "request \<Rightarrow> int \<Rightarrow> int \<Rightarrow> int \<Rightarrow> (extra_key list option \<times> int) res" where
  "generate_block_hash_extra_keys r start_token_idx end_token_idx start_mm_idx =
     rbind (gen_mm_extra_hash_keys r start_token_idx end_token_idx start_mm_idx) (\<lambda>(mm_keys, new_start_mm_idx).
       let keys = gen_lora_extra_hash_keys r @ mm_keys @ cache_salt_keys r start_token_idx @
                    gen_prompt_embeds_extra_hash_keys r start_token_idx end_token_idx
       in Inr (if keys = [] then None else Some keys, new_start_mm_idx))"

section \<open>The chain of hashes\<close>

text \<open>What the hash function is applied to: the seed string, or parent, tokens and extra keys.\<close>

datatype hash_input = Seed string | Content bytes "int list" "extra_key list option"

definition init_none_hash :: "(hash_input \<Rightarrow> bytes) \<Rightarrow> string option \<Rightarrow> bytes \<Rightarrow> bytes" where
  "init_none_hash hash_fn hash_seed urandom =
     (case hash_seed of None \<Rightarrow> urandom | Some s \<Rightarrow> hash_fn (Seed s))"

definition hash_block_tokens ::
    "(hash_input \<Rightarrow> bytes) \<Rightarrow> bytes \<Rightarrow> bytes option \<Rightarrow> int list \<Rightarrow> extra_key list option \<Rightarrow> bytes" where
  "hash_block_tokens hash_fn none_hash parent toks keys =
     hash_fn (Content (case parent of None \<Rightarrow> none_hash | Some h \<Rightarrow> if h = [] then none_hash else h) toks keys)"

text \<open>The loop over full blocks; \<open>None\<close> when it never ends, which a positive block size excludes.\<close>

partial_function (option) hasher_loop ::
    "(hash_input \<Rightarrow> bytes) \<Rightarrow> bytes \<Rightarrow> int \<Rightarrow> request \<Rightarrow> int \<Rightarrow> int \<Rightarrow> bytes option \<Rightarrow> bytes list \<Rightarrow> bytes list res option" where
  "hasher_loop hash_fn none_hash block_size r start_token_idx mm_idx prev new_hashes =
     (let end_token_idx = start_token_idx + block_size in
      if end_token_idx > num_tokens r then Some (Inr new_hashes)
      else case generate_block_hash_extra_keys r start_token_idx end_token_idx mm_idx of
          Inl e \<Rightarrow> Some (Inl e)
        | Inr (keys, mm_idx) \<Rightarrow>
            let h = hash_block_tokens hash_fn none_hash prev
                      (py_slice start_token_idx end_token_idx (all_token_ids r)) keys
            in hasher_loop hash_fn none_hash block_size r (start_token_idx + block_size) mm_idx
                 (Some h) (new_hashes @ [h]))"

definition request_block_hasher ::
    "(hash_input \<Rightarrow> bytes) \<Rightarrow> bytes \<Rightarrow> int \<Rightarrow> request \<Rightarrow> bytes list res option" where
  "request_block_hasher hash_fn none_hash block_size r =
     (let start_token_idx = int (length (block_hashes r)) * block_size in
      if start_token_idx + block_size > num_tokens r then Some (Inr [])
      else hasher_loop hash_fn none_hash block_size r start_token_idx
             (if start_token_idx > 0 then -1 else 0)
             (if block_hashes r = [] then None else Some (last (block_hashes r))) [])"

text \<open>Output tokens are appended and the new full blocks hashed; \<open>None\<close> if the hasher does not return.\<close>

definition append_output_token_ids ::
    "(hash_input \<Rightarrow> bytes) \<Rightarrow> bytes \<Rightarrow> int \<Rightarrow> int list \<Rightarrow> request \<Rightarrow> request res option" where
  "append_output_token_ids hash_fn none_hash block_size token_ids r =
     (let r = r\<lparr>all_token_ids := all_token_ids r @ token_ids\<rparr>
      in map_option (\<lambda>res. rbind res (\<lambda>hs. Inr (r\<lparr>block_hashes := block_hashes r @ hs\<rparr>)))
           (request_block_hasher hash_fn none_hash block_size r))"

section \<open>Hashes at a coarser block size\<close>

record scaled_hashes =
  s_hashes :: "bytes list"
  scale_factor :: int

definition scaled_init :: "bytes list \<Rightarrow> int \<Rightarrow> int \<Rightarrow> scaled_hashes res" where
  "scaled_init hashes hash_block_size target_block_size =
     (if hash_block_size = 0 then Inl ZeroDivisionError
      else if target_block_size mod hash_block_size \<noteq> 0 then Inl AssertionError
      else Inr \<lparr>s_hashes = hashes, scale_factor = target_block_size div hash_block_size\<rparr>)"

definition scaled_len :: "scaled_hashes \<Rightarrow> int res" where
  "scaled_len s = (if scale_factor s = 0 then Inl ZeroDivisionError else Inr (int (length (s_hashes s)) div scale_factor s))"

primrec merge_hashes :: "bytes list \<Rightarrow> int list \<Rightarrow> bytes \<Rightarrow> bytes res" where
  "merge_hashes hs [] merged = Inr merged"
| "merge_hashes hs (i # is') merged = rbind (py_nth hs i) (\<lambda>h. merge_hashes hs is' (merged @ h))"

definition get_value_at :: "scaled_hashes \<Rightarrow> int \<Rightarrow> bytes res" where
  "get_value_at s idx =
     (let base = idx * scale_factor s; end_idx = base + scale_factor s
      in rbind (py_nth (s_hashes s) base) (merge_hashes (s_hashes s) [base + 1..end_idx - 1]))"

fun rmap :: "('a \<Rightarrow> 'b res) \<Rightarrow> 'a list \<Rightarrow> 'b list res" where
  "rmap f [] = Inr []"
| "rmap f (x # xs) = rbind (f x) (\<lambda>y. rbind (rmap f xs) (\<lambda>ys. Inr (y # ys)))"

text \<open>\<open>__getitem__\<close> on the slice \<open>[start:]\<close>.\<close>

definition scaled_from :: "scaled_hashes \<Rightarrow> int \<Rightarrow> bytes list res" where
  "scaled_from s start =
     rbind (scaled_len s) (\<lambda>n. rmap (get_value_at s) [py_bound (nat n) start..n - 1])"

text \<open>\<open>__iter__\<close>.\<close>

definition scaled_iter :: "scaled_hashes \<Rightarrow> bytes list res" where
  "scaled_iter s = rbind (scaled_len s) (\<lambda>n. rmap (get_value_at s) [0..n - 1])"

section \<open>Keys unpack to what was packed\<close>

lemma from_to_bytes4:
  assumes "to_bytes4 n = Inr bs"
  shows "length bs = 4" "from_bytes bs = n"
proof -
  have n: "0 \<le> n" "n < 2 ^ 32"
    and bs: "bs = [word_of_int (n div 2 ^ 24), word_of_int (n div 2 ^ 16), word_of_int (n div 2 ^ 8), word_of_int n]"
    using assms by (auto simp: to_bytes4_def split: if_splits)
  show "length bs = 4" by (simp add: bs)
  have u: "uint (word_of_int k :: 8 word) = k mod 256" for k
    by (simp add: uint_word_of_int take_bit_eq_mod)
  have d: "n div 2 ^ 16 = n div 2 ^ 8 div 256" "n div 2 ^ 24 = n div 2 ^ 8 div 256 div 256"
    by (simp_all add: zdiv_zmult2_eq [symmetric])
  have "n div 2 ^ 24 < 256" using n by simp
  then have "n div 2 ^ 24 mod 256 = n div 2 ^ 24" using n by simp
  then have "from_bytes bs = ((n div 2 ^ 24 * 256 + n div 2 ^ 16 mod 256) * 256 + n div 2 ^ 8 mod 256) * 256 + n mod 256"
    by (simp add: bs from_bytes_def u)
  also have "n div 2 ^ 24 * 256 + n div 2 ^ 16 mod 256 = n div 2 ^ 16"
    unfolding d using div_mult_mod_eq [of "n div 2 ^ 8 div 256" 256] by simp
  also have "n div 2 ^ 16 * 256 + n div 2 ^ 8 mod 256 = n div 2 ^ 8"
    unfolding d using div_mult_mod_eq [of "n div 2 ^ 8" 256] by simp
  also have "n div 2 ^ 8 * 256 + n mod 256 = n"
    using div_mult_mod_eq [of n 256] by simp
  finally show "from_bytes bs = n" .
qed

lemma make_key_iff:
  "make_block_hash_with_group_id h g = Inr key \<longleftrightarrow> (\<exists>bs. to_bytes4 g = Inr bs \<and> key = h @ bs)"
  by (auto simp: make_block_hash_with_group_id_def py_simps)

lemma make_key_cases:
  "make_block_hash_with_group_id h g =
     (if 0 \<le> g \<and> g < 2 ^ 32 then Inr (h @ projr (to_bytes4 g)) else Inl OverflowError)"
  by (simp add: make_block_hash_with_group_id_def to_bytes4_def)

lemma make_key_inj:
  assumes "make_block_hash_with_group_id h g = Inr key" "make_block_hash_with_group_id h' g' = Inr key"
  shows "h = h'" "g = g'"
proof -
  obtain a b where a: "to_bytes4 g = Inr a" "key = h @ a" "to_bytes4 g' = Inr b" "key = h' @ b"
    using assms by (auto simp: make_key_iff)
  then have "length a = length b" using from_to_bytes4(1) by metis
  then have e: "h = h'" "a = b" using a(2,4) by auto
  then show "h = h'" by simp
  show "g = g'" using from_to_bytes4(2) [OF a(1)] from_to_bytes4(2) [OF a(3)] e(2) by simp
qed

text \<open>
  C33. A key made of a block hash and a group id gives both back, for every group id of 32 bits;
  every other group id is refused with \<open>OverflowError\<close>.
\<close>

theorem block_key_roundtrip:
  "case make_block_hash_with_group_id h g of
     Inr key \<Rightarrow> get_block_hash key = h \<and> get_group_id key = g \<and> 0 \<le> g \<and> g < 2 ^ 32
   | Inl e \<Rightarrow> e = OverflowError \<and> (g < 0 \<or> 2 ^ 32 \<le> g)"
proof (cases "make_block_hash_with_group_id h g")
  case (Inr key)
  then obtain bs where bs: "to_bytes4 g = Inr bs" "key = h @ bs" by (auto simp: make_key_iff)
  moreover have "0 \<le> g" "g < 2 ^ 32" using bs(1) by (auto simp: to_bytes4_def split: if_splits)
  ultimately show ?thesis
    using Inr from_to_bytes4 [OF bs(1)] by (simp add: get_block_hash_def get_group_id_def)
qed (auto simp: make_key_cases split: if_splits)

section \<open>The hasher computes the chain\<close>

text \<open>The contents of the blocks \<open>j\<close>, \<dots>, \<open>j + k - 1\<close> of a request: tokens and extra keys.\<close>

primrec block_contents :: "request \<Rightarrow> int \<Rightarrow> nat \<Rightarrow> nat \<Rightarrow> int \<Rightarrow> (int list \<times> extra_key list option) list res" where
  "block_contents r B 0 j m = Inr []"
| "block_contents r B (Suc k) j m =
     rbind (generate_block_hash_extra_keys r (int j * B) (int j * B + B) m) (\<lambda>(keys, m').
       rbind (block_contents r B k (Suc j) m') (\<lambda>cs.
         Inr ((py_slice (int j * B) (int j * B + B) (all_token_ids r), keys) # cs)))"

primrec chain_hashes :: "(hash_input \<Rightarrow> bytes) \<Rightarrow> bytes \<Rightarrow> bytes option \<Rightarrow> (int list \<times> extra_key list option) list \<Rightarrow> bytes list" where
  "chain_hashes hf nh prev [] = []"
| "chain_hashes hf nh prev (c # cs) =
     (let h = hash_block_tokens hf nh prev (fst c) (snd c) in h # chain_hashes hf nh (Some h) cs)"

definition full_blocks :: "int \<Rightarrow> request \<Rightarrow> nat" where
  "full_blocks B r = nat (num_tokens r div B)"

lemma length_chain [simp]: "length (chain_hashes hf nh prev cs) = length cs"
  by (induction cs arbitrary: prev) (simp_all add: Let_def)

lemma chain_Nil_iff [simp]: "chain_hashes hf nh prev cs = [] \<longleftrightarrow> cs = []"
  by (cases cs) (simp_all add: Let_def)

lemma take_chain: "take i (chain_hashes hf nh prev cs) = chain_hashes hf nh prev (take i cs)"
  by (induction cs arbitrary: i prev) (simp_all add: Let_def take_Cons' )

lemma length_contents: "block_contents r B k j m = Inr cs \<Longrightarrow> length cs = k"
  by (induction k arbitrary: j m cs) (auto simp: py_simps)

lemma int_le_div_iff:
  assumes "0 < (b::int)"
  shows "m \<le> n div b \<longleftrightarrow> m * b \<le> n"
proof
  assume "m \<le> n div b"
  then have "m * b \<le> n div b * b" using assms by (simp add: mult_right_mono)
  also have "\<dots> \<le> n" using div_mult_mod_eq [of n b] pos_mod_sign [OF assms, of n] by linarith
  finally show "m * b \<le> n" .
next
  assume "m * b \<le> n"
  then show "m \<le> n div b" using zdiv_mono1 [OF _ assms, of "m * b" n] assms by simp
qed

lemma more_full_blocks: "0 < B \<Longrightarrow> j < full_blocks B r \<longleftrightarrow> int j * B + B \<le> num_tokens r"
  using int_le_div_iff [of B "int j + 1" "num_tokens r"] by (auto simp: full_blocks_def algebra_simps)

lemma hasher_loop_chain:
  assumes B: "0 < B"
  shows "hasher_loop hf nh B r (int j * B) m prev acc =
    Some (rbind (block_contents r B (full_blocks B r - j) j m) (\<lambda>cs. Inr (acc @ chain_hashes hf nh prev cs)))"
proof (induction "full_blocks B r - j" arbitrary: j m prev acc)
  case 0
  then have "\<not> int j * B + B \<le> num_tokens r" using more_full_blocks [OF B, of j r] by simp
  then show ?case using 0 by (subst hasher_loop.simps) (simp add: Let_def)
next
  case (Suc k)
  then have "j < full_blocks B r" and k: "k = full_blocks B r - Suc j" by simp_all
  then have le: "int j * B + B \<le> num_tokens r" using more_full_blocks [OF B, of j r] by simp
  have nx: "int j * B + B = int (Suc j) * B" by (simp add: algebra_simps)
  show ?case
  proof (cases "generate_block_hash_extra_keys r (int j * B) (int j * B + B) m")
    case (Inl e)
    then show ?thesis using le Suc.hyps(2) [symmetric] by (subst hasher_loop.simps) (simp add: Let_def)
  next
    case (Inr km)
    obtain keys m' where km: "km = (keys, m')" by (cases km)
    let ?h = "hash_block_tokens hf nh prev (py_slice (int j * B) (int j * B + B) (all_token_ids r)) keys"
    have "hasher_loop hf nh B r (int j * B) m prev acc =
        hasher_loop hf nh B r (int (Suc j) * B) m' (Some ?h) (acc @ [?h])"
      using le Inr km by (subst hasher_loop.simps) (simp add: Let_def nx del: of_nat_Suc)
    also have "\<dots> = Some (rbind (block_contents r B k (Suc j) m') (\<lambda>cs. Inr ((acc @ [?h]) @ chain_hashes hf nh (Some ?h) cs)))"
      using Suc.hyps(1) [OF k, of m' "Some ?h" "acc @ [?h]"] k by simp
    finally show ?thesis
      using Inr km Suc.hyps(2) [symmetric]
      by (cases "block_contents r B k (Suc j) m'") (simp_all add: Let_def)
  qed
qed

lemma hasher_chain:
  assumes B: "0 < B"
  shows "request_block_hasher hf nh B r = Some
    (let k = length (block_hashes r)
     in rbind (block_contents r B (full_blocks B r - k) k (if k > 0 then -1 else 0)) (\<lambda>cs.
          Inr (chain_hashes hf nh (if block_hashes r = [] then None else Some (last (block_hashes r))) cs)))"
proof (cases "length (block_hashes r) < full_blocks B r")
  case True
  then have "\<not> int (length (block_hashes r)) * B + B > num_tokens r" using more_full_blocks [OF B] by simp
  moreover have "int (length (block_hashes r)) * B > 0 \<longleftrightarrow> length (block_hashes r) > 0"
    using B by (simp add: zero_less_mult_iff)
  ultimately show ?thesis
    unfolding request_block_hasher_def Let_def hasher_loop_chain [OF B] by simp
next
  case False
  then have "int (length (block_hashes r)) * B + B > num_tokens r" using more_full_blocks [OF B] by (simp add: not_le)
  then show ?thesis using False by (simp add: request_block_hasher_def Let_def)
qed

section \<open>Equal hashes mean equal prefixes\<close>

lemma chain_nth:
  assumes "\<And>x. hf x \<noteq> []" "i < length cs"
  shows "chain_hashes hf nh prev cs ! i =
    (if i = 0 then hash_block_tokens hf nh prev (fst (cs ! 0)) (snd (cs ! 0))
     else hf (Content (chain_hashes hf nh prev cs ! (i - 1)) (fst (cs ! i)) (snd (cs ! i))))"
  using assms(2)
proof (induction cs arbitrary: i prev)
  case (Cons c cs)
  show ?case
  proof (cases i)
    case (Suc j)
    then show ?thesis
      using Cons.IH [of j "Some (hash_block_tokens hf nh prev (fst c) (snd c))"] Cons.prems assms(1)
      by (cases j) (simp_all add: Let_def hash_block_tokens_def)
  qed (simp add: Let_def)
qed simp

lemma chain_hashes_inj:
  assumes hf: "inj hf" "\<And>x. hf x \<noteq> []"
  shows "i < length cs1 \<Longrightarrow> i < length cs2 \<Longrightarrow>
    chain_hashes hf nh prev cs1 ! i = chain_hashes hf nh prev cs2 ! i \<Longrightarrow> take (Suc i) cs1 = take (Suc i) cs2"
proof (induction i)
  case 0
  then have "hash_block_tokens hf nh prev (fst (cs1 ! 0)) (snd (cs1 ! 0)) =
      hash_block_tokens hf nh prev (fst (cs2 ! 0)) (snd (cs2 ! 0))"
    by (simp add: chain_nth [where hf = hf, OF hf(2)])
  then have "cs1 ! 0 = cs2 ! 0" using injD [OF hf(1)] by (simp add: hash_block_tokens_def prod_eq_iff) blast
  then show ?case using 0 by (simp add: take_Suc_conv_app_nth)
next
  case (Suc i)
  then have "hf (Content (chain_hashes hf nh prev cs1 ! i) (fst (cs1 ! Suc i)) (snd (cs1 ! Suc i))) =
      hf (Content (chain_hashes hf nh prev cs2 ! i) (fst (cs2 ! Suc i)) (snd (cs2 ! Suc i)))"
    by (simp add: chain_nth [where hf = hf, OF hf(2), of "Suc i"])
  from injD [OF hf(1) this] have e: "chain_hashes hf nh prev cs1 ! i = chain_hashes hf nh prev cs2 ! i" "cs1 ! Suc i = cs2 ! Suc i"
    by (simp_all add: prod_eq_iff)
  have "take (Suc i) cs1 = take (Suc i) cs2" by (rule Suc.IH) (use Suc.prems e(1) in simp_all)
  then show ?case using Suc.prems e(2) by (simp add: take_Suc_conv_app_nth [of "Suc i"])
qed

lemma chain_is_content:
  "i < length cs \<Longrightarrow> \<exists>q t k. chain_hashes hf nh prev cs ! i = hf (Content q t k)"
proof (induction cs arbitrary: i prev)
  case (Cons c cs)
  then show ?case by (cases i) (auto simp: Let_def hash_block_tokens_def)
qed simp

lemma chain_same_index:
  assumes hf: "inj hf" "\<And>x. hf x \<noteq> []" "\<And>q t k. hf (Content q t k) \<noteq> nh"
  shows "i < length cs1 \<Longrightarrow> j < length cs2 \<Longrightarrow>
    chain_hashes hf nh None cs1 ! i = chain_hashes hf nh None cs2 ! j \<Longrightarrow> i = j"
proof (induction i arbitrary: j)
  case 0
  then show ?case
    using chain_is_content [of "j - 1" cs2 hf nh None] hf(3)
    by (cases j) (auto simp: chain_nth [where hf = hf, OF hf(2)] hash_block_tokens_def inj_eq [OF hf(1)])
next
  case (Suc i)
  show ?case
  proof (cases j)
    case 0
    then show ?thesis
      using Suc.prems chain_is_content [of i cs1 hf nh None] hf(3)
      by (auto simp: chain_nth [where hf = hf, OF hf(2)] hash_block_tokens_def inj_eq [OF hf(1)])
  next
    case (Suc k)
    have "hf (Content (chain_hashes hf nh None cs1 ! i) (fst (cs1 ! Suc i)) (snd (cs1 ! Suc i))) =
        hf (Content (chain_hashes hf nh None cs2 ! k) (fst (cs2 ! Suc k)) (snd (cs2 ! Suc k)))"
      using Suc.prems \<open>j = Suc k\<close>
      by (simp add: chain_nth [where hf = hf, OF hf(2), of "Suc i"] chain_nth [where hf = hf, OF hf(2), of "Suc k"])
    from injD [OF hf(1) this] show ?thesis using Suc.IH [of k] Suc.prems \<open>j = Suc k\<close> by simp
  qed
qed

text \<open>The tokens of the blocks, put together, are the tokens of the prefix.\<close>

lemma contents_tokens:
  assumes "0 \<le> B" "block_contents r B k j m = Inr cs"
  shows "i \<le> k \<Longrightarrow> concat (map fst (take i cs)) = take (i * nat B) (drop (j * nat B) (all_token_ids r))"
  using assms(2)
proof (induction k arbitrary: i j m cs)
  case (Suc k)
  obtain keys m' cs' where c: "block_contents r B k (Suc j) m' = Inr cs'"
    "cs = (py_slice (int j * B) (int j * B + B) (all_token_ids r), keys) # cs'"
    using Suc.prems(2) by (auto simp: py_simps)
  have sl: "py_slice (int j * B) (int j * B + B) (all_token_ids r) = take (nat B) (drop (j * nat B) (all_token_ids r))"
    using assms(1) by (subst py_slice_nat) (simp_all add: nat_add_distrib nat_mult_distrib)
  show ?case
  proof (cases i)
    case (Suc l)
    then have "concat (map fst (take l cs')) = take (l * nat B) (drop (Suc j * nat B) (all_token_ids r))"
      using Suc.IH [OF _ c(1)] Suc.prems(1) by simp
    then show ?thesis
      using Suc c(2) sl take_add [of "nat B" "l * nat B" "drop (j * nat B) (all_token_ids r)"]
      by (simp add: add.commute)
  qed simp
qed simp

lemma fresh_hasher:
  assumes "0 < B" "block_hashes r = []" "request_block_hasher hf nh B r = Some (Inr hs)"
  obtains cs where "block_contents r B (length hs) 0 0 = Inr cs" "hs = chain_hashes hf nh None cs"
    "length cs = length hs" "length hs = full_blocks B r"
proof -
  obtain cs where cs: "block_contents r B (full_blocks B r) 0 0 = Inr cs" "hs = chain_hashes hf nh None cs"
    using assms(3) hasher_chain [OF assms(1), of hf nh r] by (auto simp: assms(2) Let_def py_simps)
  moreover have "length hs = full_blocks B r" using cs length_contents by simp
  ultimately show ?thesis using that by simp
qed

section \<open>A hash function without collisions\<close>

text \<open>
  A prefix-free encoding of the inputs: an example of a function that separates them.
\<close>

definition prefix_free :: "('a \<Rightarrow> 'b list) \<Rightarrow> bool" where
  "prefix_free e \<longleftrightarrow> (\<forall>x y r s. e x @ r = e y @ s \<longrightarrow> x = y \<and> r = s)"

lemma prefix_freeD: "prefix_free e \<Longrightarrow> e x @ r = e y @ s \<Longrightarrow> x = y \<and> r = s"
  by (simp add: prefix_free_def)

primrec enc_nat :: "nat \<Rightarrow> bytes" where
  "enc_nat 0 = [0]"
| "enc_nat (Suc n) = 1 # enc_nat n"

definition enc_int :: "int \<Rightarrow> bytes" where
  "enc_int i = (if i < 0 then 1 # enc_nat (nat (- i)) else 0 # enc_nat (nat i))"

primrec enc_list :: "('a \<Rightarrow> bytes) \<Rightarrow> 'a list \<Rightarrow> bytes" where
  "enc_list e [] = [0]"
| "enc_list e (x # xs) = 1 # e x @ enc_list e xs"

definition enc_char :: "char \<Rightarrow> bytes" where
  "enc_char c = enc_nat (of_char c)"

definition enc_bytes :: "bytes \<Rightarrow> bytes" where
  "enc_bytes b = enc_list (\<lambda>x. [x]) b"

primrec enc_key :: "extra_key \<Rightarrow> bytes" where
  "enc_key (KStr s) = 0 # enc_list enc_char s"
| "enc_key (KBytes b) = 1 # enc_bytes b"

primrec enc_opt :: "('a \<Rightarrow> bytes) \<Rightarrow> 'a option \<Rightarrow> bytes" where
  "enc_opt e None = [0]"
| "enc_opt e (Some x) = 1 # e x"

primrec enc_input :: "hash_input \<Rightarrow> bytes" where
  "enc_input (Seed s) = 0 # enc_list enc_char s"
| "enc_input (Content p ts ks) =
     1 # enc_bytes p @ enc_list enc_int ts @ enc_opt (enc_list enc_key) ks"

lemma prefix_free_enc_nat: "prefix_free enc_nat"
  unfolding prefix_free_def
proof (intro allI impI)
  fix x y r s assume "enc_nat x @ r = enc_nat y @ s"
  then show "x = y \<and> r = s"
  proof (induction x arbitrary: y)
    case 0
    then show ?case by (cases y) simp_all
  next
    case (Suc x)
    then show ?case by (cases y) auto
  qed
qed

lemma prefix_free_enc_int: "prefix_free enc_int"
  unfolding prefix_free_def
proof (intro allI impI)
  fix x y r s assume eq: "enc_int x @ r = enc_int y @ s"
  then have "x < 0 \<longleftrightarrow> y < 0" by (simp add: enc_int_def split: if_splits)
  then have "nat \<bar>x\<bar> = nat \<bar>y\<bar> \<and> r = s"
    using eq prefix_freeD [OF prefix_free_enc_nat, of "nat \<bar>x\<bar>" r "nat \<bar>y\<bar>" s] by (simp add: enc_int_def split: if_splits)
  with \<open>x < 0 \<longleftrightarrow> y < 0\<close> show "x = y \<and> r = s" by linarith
qed

lemma prefix_free_enc_list:
  assumes "prefix_free e" shows "prefix_free (enc_list e)"
  unfolding prefix_free_def
proof (intro allI impI)
  fix x y r s assume "enc_list e x @ r = enc_list e y @ s"
  then show "x = y \<and> r = s"
  proof (induction x arbitrary: y)
    case Nil
    then show ?case by (cases y) simp_all
  next
    case (Cons a x)
    then obtain b ys where y: "y = b # ys" by (cases y) simp_all
    then have "e a @ (enc_list e x @ r) = e b @ (enc_list e ys @ s)" using Cons.prems by simp
    then have "a = b \<and> enc_list e x @ r = enc_list e ys @ s" using prefix_freeD [OF assms] by blast
    then show ?case using Cons.IH y by simp
  qed
qed

lemma prefix_free_enc_char: "prefix_free enc_char"
  unfolding prefix_free_def enc_char_def
proof (intro allI impI)
  fix x y :: char and r s
  assume "enc_nat (of_char x) @ r = enc_nat (of_char y) @ s"
  from prefix_freeD [OF prefix_free_enc_nat this] show "x = y \<and> r = s" by simp
qed

lemma prefix_free_enc_bytes: "prefix_free enc_bytes"
proof -
  have "prefix_free (\<lambda>x :: 8 word. [x])" by (simp add: prefix_free_def)
  moreover have "enc_bytes = enc_list (\<lambda>x. [x])" by (rule ext) (rule enc_bytes_def)
  ultimately show ?thesis using prefix_free_enc_list by metis
qed

lemmas prefix_free_string = prefix_free_enc_list [OF prefix_free_enc_char]

lemma prefix_free_enc_key: "prefix_free enc_key"
  unfolding prefix_free_def
proof (intro allI impI)
  fix x y r s assume eq: "enc_key x @ r = enc_key y @ s"
  show "x = y \<and> r = s"
  proof (cases x; cases y)
    fix a b assume "x = KStr a" "y = KStr b"
    then show ?thesis using eq prefix_freeD [OF prefix_free_string, of a r b s] by simp
  next
    fix a b assume "x = KBytes a" "y = KBytes b"
    then show ?thesis using eq prefix_freeD [OF prefix_free_enc_bytes, of a r b s] by simp
  qed (use eq in simp_all)
qed

lemma prefix_free_enc_opt:
  assumes "prefix_free e" shows "prefix_free (enc_opt e)"
  unfolding prefix_free_def
proof (intro allI impI)
  fix x y r s assume "enc_opt e x @ r = enc_opt e y @ s"
  then show "x = y \<and> r = s"
    using prefix_freeD [OF assms, of "the x" r "the y" s] by (cases x; cases y) simp_all
qed

lemma enc_input_inj: "inj enc_input"
proof (rule injI)
  fix x y assume eq: "enc_input x = enc_input y"
  show "x = y"
  proof (cases x; cases y)
    fix s t assume "x = Seed s" "y = Seed t"
    then show ?thesis using eq prefix_freeD [OF prefix_free_string, of s "[]" t "[]"] by simp
  next
    fix p ts ks q us ls assume xy: "x = Content p ts ks" "y = Content q us ls"
    then have "p = q \<and> enc_list enc_int ts @ enc_opt (enc_list enc_key) ks = enc_list enc_int us @ enc_opt (enc_list enc_key) ls"
      using eq by (intro prefix_freeD [OF prefix_free_enc_bytes]) simp
    then have "p = q" and "ts = us \<and> enc_opt (enc_list enc_key) ks = enc_opt (enc_list enc_key) ls"
      using prefix_freeD [OF prefix_free_enc_list [OF prefix_free_enc_int], of ts "enc_opt (enc_list enc_key) ks" us]
      by blast+
    then show ?thesis
      using xy prefix_freeD [OF prefix_free_enc_opt [OF prefix_free_enc_list [OF prefix_free_enc_key]], of ks "[]" ls "[]"]
      by simp
  qed (use eq in simp_all)
qed

lemma enc_input_nonempty: "enc_input x \<noteq> []"
  by (cases x) simp_all

section \<open>Prefix caching is sound\<close>

text \<open>
  C5. Prefix caching never confuses two prefixes: with a hash function that separates different
  inputs and returns neither the empty string nor, for a block, the seed \<open>NONE_HASH\<close>, if a block
  hash of one request agrees with a block hash of another, then the blocks have the same position
  and so agree all hashes, tokens and extra keys (LoRA name, salt, multimodal and embedding keys)
  of the blocks up to that position.
\<close>

theorem prefix_hash_sound:
  assumes hf: "inj hf" "\<forall>x. hf x \<noteq> []" "\<forall>q t k. hf (Content q t k) \<noteq> nh" and B: "0 < B"
    and r: "block_hashes r1 = []" "block_hashes r2 = []"
    and h1: "request_block_hasher hf nh B r1 = Some (Inr hs1)"
    and h2: "request_block_hasher hf nh B r2 = Some (Inr hs2)"
    and i: "i < length hs1" "j < length hs2" "hs1 ! i = hs2 ! j"
  shows "i = j \<and> take (Suc i) hs1 = take (Suc i) hs2 \<and>
    take (Suc i * nat B) (all_token_ids r1) = take (Suc i * nat B) (all_token_ids r2) \<and>
    (\<exists>cs1 cs2. block_contents r1 B (length hs1) 0 0 = Inr cs1 \<and> block_contents r2 B (length hs2) 0 0 = Inr cs2 \<and>
       take (Suc i) (map snd cs1) = take (Suc i) (map snd cs2))"
proof -
  have ne: "\<And>x. hf x \<noteq> []" and nn: "\<And>q t k. hf (Content q t k) \<noteq> nh" using hf(2,3) by simp_all
  obtain cs1 where c1: "block_contents r1 B (length hs1) 0 0 = Inr cs1" "hs1 = chain_hashes hf nh None cs1" "length cs1 = length hs1"
    by (rule fresh_hasher [OF B r(1) h1])
  obtain cs2 where c2: "block_contents r2 B (length hs2) 0 0 = Inr cs2" "hs2 = chain_hashes hf nh None cs2" "length cs2 = length hs2"
    by (rule fresh_hasher [OF B r(2) h2])
  have h: "chain_hashes hf nh None cs1 ! i = chain_hashes hf nh None cs2 ! j" using i(3) c1(2) c2(2) by simp
  have ij: "i = j" by (rule chain_same_index [OF hf(1) ne nn _ _ h]) (simp_all only: c1(3) c2(3) i)
  have eq: "take (Suc i) cs1 = take (Suc i) cs2"
    by (rule chain_hashes_inj [OF hf(1) ne _ _ h [folded ij]]) (use i(1,2) ij c1(3) c2(3) in simp_all)
  have toks: "take (Suc i * nat B) (all_token_ids r) = concat (map fst (take (Suc i) cs))"
    if "block_contents r B k 0 0 = Inr cs" "i < k" for r k cs
    using contents_tokens [of B r k 0 0 cs "Suc i"] that B by simp
  have "take (Suc i * nat B) (all_token_ids r1) = take (Suc i * nat B) (all_token_ids r2)"
    unfolding toks [OF c1(1) i(1)] toks [OF c2(1) i(2) [folded ij]] eq ..
  moreover have "take (Suc i) hs1 = take (Suc i) hs2"
    unfolding c1(2) c2(2) take_chain eq ..
  moreover have "take (Suc i) (map snd cs1) = take (Suc i) (map snd cs2)" unfolding take_map eq ..
  ultimately show ?thesis using c1(1) c2(1) ij by blast
qed

definition plain_request :: "int list \<Rightarrow> request" where
  "plain_request toks = \<lparr>request_id = ''r'', all_token_ids = toks, block_hashes = [], mm_features = [],
     lora_request = None, cache_salt = None, prompt_embeds = None, num_computed_tokens = 0, num_preemptions = 0, r_pinned = False,
     skip_reading_prefix_cache = False\<rparr>"

theorem prefix_hash_sound_witness:
  "\<exists>hs1 hs2. request_block_hasher enc_input [7] 2 (plain_request [1, 2, 3, 4, 5]) = Some (Inr hs1) \<and>
     request_block_hasher enc_input [7] 2 (plain_request [1, 2, 3, 4, 6, 8]) = Some (Inr hs2) \<and>
     hs1 ! 1 = hs2 ! 1 \<and> take (Suc 1) hs1 = take (Suc 1) hs2 \<and>
     take (Suc 1 * nat 2) [1, 2, 3, 4, 5] = take (Suc 1 * nat 2) ([1, 2, 3, 4, 6, 8] :: int list)"
proof -
  have "\<exists>hs1. request_block_hasher enc_input [7] 2 (plain_request [1, 2, 3, 4, 5]) = Some (Inr hs1) \<and> 1 < length hs1 \<and>
     (\<exists>hs2. request_block_hasher enc_input [7] 2 (plain_request [1, 2, 3, 4, 6, 8]) = Some (Inr hs2) \<and> 1 < length hs2 \<and> hs1 ! 1 = hs2 ! 1)"
    by (simp add: hasher_chain plain_request_def full_blocks_def num_tokens_def numeral_eq_Suc
        generate_block_hash_extra_keys_def gen_mm_extra_hash_keys_def gen_lora_extra_hash_keys_def
        cache_salt_keys_def gen_prompt_embeds_extra_hash_keys_def Let_def py_slice_nat)
  then obtain hs1 hs2 where h: "request_block_hasher enc_input [7] 2 (plain_request [1, 2, 3, 4, 5]) = Some (Inr hs1)"
    "request_block_hasher enc_input [7] 2 (plain_request [1, 2, 3, 4, 6, 8]) = Some (Inr hs2)"
    "1 < length hs1" "1 < length hs2" "hs1 ! 1 = hs2 ! 1" by blast
  from prefix_hash_sound [OF enc_input_inj _ _ _ _ _ h(1,2) h(3-5)] h show ?thesis
    by (auto simp: enc_input_nonempty plain_request_def)
qed

section \<open>Hashing as tokens arrive\<close>

lemma generate_same:
  "generate_block_hash_extra_keys (r\<lparr>all_token_ids := ts, block_hashes := hs\<rparr>) a b m = generate_block_hash_extra_keys r a b m"
  by (simp add: generate_block_hash_extra_keys_def gen_mm_extra_hash_keys_def gen_lora_extra_hash_keys_def
      cache_salt_keys_def gen_prompt_embeds_extra_hash_keys_def)

lemma chain_append:
  "chain_hashes hf nh prev (cs @ ds) = chain_hashes hf nh prev cs @
     chain_hashes hf nh (if cs = [] then prev else Some (last (chain_hashes hf nh prev cs))) ds"
  by (induction cs arbitrary: prev) (auto simp: Let_def)

lemma full_blocks_mono: "0 < B \<Longrightarrow> num_tokens r \<le> num_tokens r' \<Longrightarrow> full_blocks B r \<le> full_blocks B r'"
  by (simp add: full_blocks_def nat_mono zdiv_mono1)

text \<open>
  Multimodal inputs. Hashing that starts at the first block walks through all inputs; hashing
  that goes on at token \<open>e > 0\<close> looks at the last input only. Both agree if every input but the
  last ends within the tokens already hashed and the last one does not end exactly there.
\<close>

definition mm_end :: "mm_feature \<Rightarrow> int" where
  "mm_end f = mm_offset f + mm_length f"

definition mm_named :: "request \<Rightarrow> bool" where
  "mm_named r \<longleftrightarrow> (\<forall>f \<in> set (mm_features r). mm_identifier f \<noteq> None)"

definition mm_settled :: "request \<Rightarrow> int \<Rightarrow> bool" where
  "mm_settled r e \<longleftrightarrow> e = 0 \<or> mm_features r = [] \<or>
     (\<forall>f \<in> set (butlast (mm_features r)). 0 < mm_length f \<and> mm_end f \<le> e) \<and> mm_end (last (mm_features r)) \<noteq> e"

text \<open>
  An index the hasher may stand at when it comes to token \<open>s\<close>, and two indices that give the same
  keys from there on.
\<close>

definition mm_index :: "request \<Rightarrow> int \<Rightarrow> int \<Rightarrow> bool" where
  "mm_index r s m \<longleftrightarrow> mm_features r = [] \<or> m = -1 \<or>
     0 \<le> m \<and> (int (length (mm_features r)) \<le> m \<longrightarrow> mm_end (last (mm_features r)) \<le> s)"

definition same_index :: "request \<Rightarrow> int \<Rightarrow> int \<Rightarrow> int \<Rightarrow> bool" where
  "same_index r s m m' \<longleftrightarrow> m = m' \<or> mm_features r = [] \<or> mm_end (last (mm_features r)) < s \<or>
     m = int (length (mm_features r)) - 1 \<and> m' = -1"

lemma mm_loop_index:
  assumes "\<forall>f \<in> set feats. mm_identifier f \<noteq> None" "s \<le> e" "feats \<noteq> []"
  shows "\<exists>ks j. mm_loop feats s e i acc = Inr (ks, int j) \<and> (length feats \<le> j \<longrightarrow> length feats \<le> i \<or> mm_end (last feats) \<le> e) \<and>
    ((\<forall>f \<in> set (butlast feats). 0 < mm_length f \<and> mm_end f \<le> e) \<longrightarrow> length feats - 1 \<le> j)"
  using assms
proof (induction feats s e i acc rule: mm_loop.induct)
  case (1 feats s e i acc)
  show ?case
  proof (cases "i < length feats")
    case False
    then show ?thesis by (subst mm_loop.simps) auto
  next
    case True
    let ?f = "feats ! i"
    obtain k where k: "mm_identifier ?f = Some k" using "1.prems"(1) True by (meson nth_mem option.exhaust)
    have bl: "?f \<in> set (butlast feats)" if "\<not> length feats - 1 \<le> i"
      using that True by (metis in_set_conv_nth length_butlast linorder_not_le nth_butlast)
    have lst: "mm_end (last feats) \<le> e" if "length feats \<le> Suc i" "mm_end ?f \<le> e"
    proof -
      have "i = length feats - 1" using that(1) True by linarith
      then show ?thesis using that(2) "1.prems"(3) by (simp add: last_conv_nth)
    qed
    consider "\<not> e > mm_offset ?f" | "e > mm_offset ?f" "s > mm_end ?f" | "e > mm_offset ?f" "\<not> s > mm_end ?f" "e \<ge> mm_end ?f"
      | "e > mm_offset ?f" "\<not> s > mm_end ?f" "\<not> e \<ge> mm_end ?f" by blast
    then show ?thesis
    proof cases
      case 1
      have "length feats - 1 \<le> i" if "\<forall>f \<in> set (butlast feats). 0 < mm_length f \<and> mm_end f \<le> e"
        using bl that 1 by (fastforce simp: mm_end_def)
      then show ?thesis using 1 True k by (subst mm_loop.simps) (auto simp: Let_def)
    next
      case 2
      from "1.IH"(1) [OF True k refl refl 2(1) 2(2) [unfolded mm_end_def] "1.prems"] lst 2(2) "1.prems"(2) True
      show ?thesis using 2 k by (subst mm_loop.simps) (auto simp: Let_def mm_end_def)
    next
      case 3
      from "1.IH"(2) [OF True k refl refl 3(1) 3(2,3) [unfolded mm_end_def] "1.prems"] lst 3(3) True
      show ?thesis using 3 k by (subst mm_loop.simps) (auto simp: Let_def mm_end_def)
    next
      case 4
      have "length feats - 1 \<le> i" if "\<forall>f \<in> set (butlast feats). 0 < mm_length f \<and> mm_end f \<le> e"
        using bl that 4 by fastforce
      then show ?thesis using 4 True k by (subst mm_loop.simps) (auto simp: Let_def mm_end_def)
    qed
  qed
qed

lemma gen_mm_index:
  assumes n: "mm_named r" and se: "s < e" and m: "mm_index r s m"
  shows "\<exists>ks m'. gen_mm_extra_hash_keys r s e m = Inr (ks, m') \<and> mm_index r e m' \<and> (0 < e \<and> mm_settled r e \<longrightarrow> same_index r e m' (-1))"
proof (cases "mm_features r = [] \<or> mm_end (last (mm_features r)) < s")
  case True
  then show ?thesis using m se by (auto simp: gen_mm_extra_hash_keys_def Let_def mm_index_def same_index_def mm_end_def)
next
  case False
  let ?f = "mm_features r"
  define i where "i = (if m < 0 then length ?f - 1 else nat m)"
  have ne: "?f \<noteq> []" "0 < length ?f" using False by auto
  have g: "gen_mm_extra_hash_keys r s e m = mm_loop ?f s e i []"
  proof (cases "m < 0")
    case True
    then have "m = -1" using m ne by (auto simp: mm_index_def)
    moreover have "nat (int (length ?f) - 1) = length ?f - 1" by simp
    ultimately show ?thesis using False ne by (simp add: gen_mm_extra_hash_keys_def Let_def mm_end_def i_def Suc_le_eq)
  qed (use False in \<open>simp add: gen_mm_extra_hash_keys_def Let_def mm_end_def i_def\<close>)
  obtain ks j where j: "mm_loop ?f s e i [] = Inr (ks, int j)" "length ?f \<le> j \<Longrightarrow> length ?f \<le> i \<or> mm_end (last ?f) \<le> e"
    "(\<forall>f \<in> set (butlast ?f). 0 < mm_length f \<and> mm_end f \<le> e) \<Longrightarrow> length ?f - 1 \<le> j"
    using mm_loop_index [of ?f s e i "[]"] n se ne by (auto simp: mm_named_def)
  have "mm_end (last ?f) \<le> s" if "length ?f \<le> i"
  proof -
    obtain l where "length ?f = Suc l" using ne(2) gr0_conv_Suc by blast
    then show ?thesis using that m ne(1) by (cases "m < 0") (auto simp: i_def mm_index_def)
  qed
  then have le: "mm_end (last ?f) \<le> e" if "length ?f \<le> j" using j(2) [OF that] se by auto
  have "same_index r e (int j) (-1)" if "0 < e" "mm_settled r e"
  proof -
    have s: "length ?f - 1 \<le> j" "mm_end (last ?f) \<noteq> e" using that j(3) ne by (auto simp: mm_settled_def)
    consider "j = length ?f - 1" | "length ?f \<le> j" using s(1) by linarith
    then show ?thesis
    proof cases
      case 1
      then have "int j = int (length ?f) - 1" using ne(2) by linarith
      then show ?thesis by (simp add: same_index_def)
    next
      case 2
      then have "mm_end (last ?f) < e" using le s(2) by fastforce
      then show ?thesis by (simp add: same_index_def)
    qed
  qed
  then show ?thesis using g j(1) le by (auto simp: mm_index_def)
qed

lemma gen_mm_same:
  assumes "mm_named r" "s < e" "mm_index r s m" "mm_index r s m'" "same_index r s m m'"
  shows "\<exists>ks n n'. gen_mm_extra_hash_keys r s e m = Inr (ks, n) \<and> gen_mm_extra_hash_keys r s e m' = Inr (ks, n') \<and>
    mm_index r e n \<and> mm_index r e n' \<and> same_index r e n n'"
proof (cases "m = m'")
  case True
  then show ?thesis using gen_mm_index [OF assms(1-3)] by (auto simp: same_index_def)
next
  case False
  show ?thesis
  proof (cases "mm_features r = [] \<or> mm_end (last (mm_features r)) < s")
    case True
    then have "gen_mm_extra_hash_keys r s e m = Inr ([], m)" "gen_mm_extra_hash_keys r s e m' = Inr ([], m')"
      "mm_index r e m" "mm_index r e m'" "same_index r e m m'"
      using assms by (auto simp: gen_mm_extra_hash_keys_def Let_def mm_end_def mm_index_def same_index_def)
    then show ?thesis by blast
  next
    case f: False
    then have m: "m = int (length (mm_features r)) - 1" "m' = -1" "0 < length (mm_features r)" using assms(5) False by (auto simp: same_index_def)
    have "gen_mm_extra_hash_keys r s e m = gen_mm_extra_hash_keys r s e m'"
      using f m by (simp add: gen_mm_extra_hash_keys_def Let_def mm_end_def Suc_le_eq)
    then show ?thesis using gen_mm_index [OF assms(1-3)] by (auto simp: same_index_def)
  qed
qed

lemma generate_mm:
  "gen_mm_extra_hash_keys r s e m = Inr (ks, n) \<Longrightarrow> generate_block_hash_extra_keys r s e m =
     Inr (let keys = gen_lora_extra_hash_keys r @ ks @ cache_salt_keys r s @ gen_prompt_embeds_extra_hash_keys r s e
          in if keys = [] then None else Some keys, n)"
  by (simp add: generate_block_hash_extra_keys_def Let_def)

lemma contents_same:
  assumes "0 < B" "mm_named r"
  shows "mm_index r (int j * B) m \<Longrightarrow> mm_index r (int j * B) m' \<Longrightarrow> same_index r (int j * B) m m' \<Longrightarrow>
    block_contents r B k j m = block_contents r B k j m'"
proof (induction k arbitrary: j m m')
  case (Suc k)
  have e: "int j * B < int j * B + B" "int j * B + B = int (Suc j) * B" using assms(1) by (simp_all add: algebra_simps)
  obtain ks n n' where g: "gen_mm_extra_hash_keys r (int j * B) (int j * B + B) m = Inr (ks, n)"
    "gen_mm_extra_hash_keys r (int j * B) (int j * B + B) m' = Inr (ks, n')"
    "mm_index r (int (Suc j) * B) n" "mm_index r (int (Suc j) * B) n'" "same_index r (int (Suc j) * B) n n'"
    using gen_mm_same [OF assms(2) e(1) Suc.prems] unfolding e(2) by blast
  show ?case using Suc.IH [OF g(3-5)] generate_mm [OF g(1)] generate_mm [OF g(2)] by simp
qed simp

lemma contents_split:
  assumes "0 < B" "mm_named r"
  shows "mm_index r (int j * B) m \<Longrightarrow> \<exists>cs m'. block_contents r B k j m = Inr cs \<and> mm_index r (int (j + k) * B) m' \<and>
    (\<forall>l. block_contents r B (k + l) j m = rbind (block_contents r B l (j + k) m') (\<lambda>ds. Inr (cs @ ds))) \<and>
    (k = 0 \<longrightarrow> m' = m) \<and> (0 < k \<and> mm_settled r (int (j + k) * B) \<longrightarrow> same_index r (int (j + k) * B) m' (-1))"
proof (induction k arbitrary: j m)
  case 0
  have "rbind x Inr = x" for x :: "(int list \<times> extra_key list option) list res" by (cases x) simp_all
  then show ?case using 0 by auto
next
  case (Suc k)
  have e: "int j * B < int j * B + B" "int j * B + B = int (Suc j) * B" "0 < int (Suc j) * B" using assms(1) by (simp_all add: algebra_simps add_pos_nonneg)
  obtain ks n where g: "gen_mm_extra_hash_keys r (int j * B) (int j * B + B) m = Inr (ks, n)" "mm_index r (int (Suc j) * B) n"
    "mm_settled r (int (Suc j) * B) \<Longrightarrow> same_index r (int (Suc j) * B) n (-1)"
    using gen_mm_index [OF assms(2) e(1) Suc.prems] e(3) unfolding e(2) by blast
  obtain cs m' where c: "block_contents r B k (Suc j) n = Inr cs" "mm_index r (int (Suc j + k) * B) m'"
    "\<And>l. block_contents r B (k + l) (Suc j) n = rbind (block_contents r B l (Suc j + k) m') (\<lambda>ds. Inr (cs @ ds))"
    "k = 0 \<Longrightarrow> m' = n" "0 < k \<Longrightarrow> mm_settled r (int (Suc j + k) * B) \<Longrightarrow> same_index r (int (Suc j + k) * B) m' (-1)"
    using Suc.IH [OF g(2)] by blast
  have a: "rbind (rbind x (\<lambda>ds. Inr (cs @ ds))) (\<lambda>cs. Inr (c # cs)) = rbind x (\<lambda>ds. Inr ((c # cs) @ ds))" for x c
    by (cases x) simp_all
  have s: "same_index r (int (Suc j + k) * B) m' (-1)" if "mm_settled r (int (Suc j + k) * B)"
    using c(4,5) g(3) that by (cases "k = 0") simp_all
  show ?case
    using c(1,2) s generate_mm [OF g(1)] c(3) a by (auto simp del: of_nat_Suc of_nat_add simp add: add_Suc_shift [symmetric] simp del: add_Suc_shift)
qed

lemma contents_longer:
  assumes "0 < B" "take (length (all_token_ids r)) (all_token_ids w) = all_token_ids r"
    and g: "\<And>a b m. generate_block_hash_extra_keys w a b m = generate_block_hash_extra_keys r a b m"
  shows "int (j + k) * B \<le> num_tokens r \<Longrightarrow> block_contents w B k j m = block_contents r B k j m"
proof (induction k arbitrary: j m)
  case (Suc k)
  have "int j * B + B \<le> int (j + Suc k) * B" using assms(1) by (simp add: algebra_simps)
  then have "nat (int j * B + B) \<le> length (all_token_ids r)" using Suc.prems by (simp add: num_tokens_def)
  then have "take (nat (int j * B + B)) (all_token_ids w) = take (nat (int j * B + B)) (all_token_ids r)"
    using assms(2) by (metis min.absorb2 min.commute take_take)
  then have "py_slice (int j * B) (int j * B + B) (all_token_ids w) = py_slice (int j * B) (int j * B + B) (all_token_ids r)"
    using assms(1) by (simp add: py_slice_nat drop_take [symmetric] del: drop_take)
  moreover have "block_contents w B k (Suc j) n = block_contents r B k (Suc j) n" for n
    by (rule Suc.IH) (use Suc.prems in simp)
  ultimately show ?case by (simp add: g)
qed simp

lemma contents_hashes: "block_contents (r\<lparr>block_hashes := hs\<rparr>) B k j m = block_contents r B k j m"
  using generate_same [where r = r and ts = "all_token_ids r" and hs = hs] by (induction k arbitrary: j m) simp_all

text \<open>
  C34. Block hashes may be computed as tokens arrive: hashing a prompt, appending tokens and
  hashing the new full blocks gives the same list as hashing the whole sequence at once, and the
  hasher returns. A request with multimodal inputs must be settled where the first hashing ends:
  the inputs, all of which have an identifier, end within the full blocks of the prompt, except
  the last, which may reach further but does not end exactly there. A request without such inputs
  and a prompt of less than one block are always settled.
\<close>

theorem hashing_incremental:
  assumes B: "0 < B" and r: "block_hashes r = []" "mm_named r" "mm_settled r (int (full_blocks B r) * B)"
  shows "\<exists>hs1 hs. request_block_hasher hf nh B r = Some (Inr hs1) \<and>
    append_output_token_ids hf nh B ts (r\<lparr>block_hashes := hs1\<rparr>) =
      Some (Inr (r\<lparr>all_token_ids := all_token_ids r @ ts, block_hashes := hs\<rparr>)) \<and>
    request_block_hasher hf nh B (r\<lparr>all_token_ids := all_token_ids r @ ts\<rparr>) = Some (Inr hs)"
proof -
  let ?w = "r\<lparr>all_token_ids := all_token_ids r @ ts\<rparr>" let ?k = "full_blocks B r" let ?n = "full_blocks B ?w"
  have le: "?k \<le> ?n" using B by (rule full_blocks_mono) (simp add: num_tokens_def)
  have nm: "mm_named ?w" "mm_settled ?w (int ?k * B)" using r(2,3) by (simp_all add: mm_named_def mm_settled_def)
  have i0: "mm_index x 0 0" for x by (simp add: mm_index_def)
  have g: "generate_block_hash_extra_keys (?w\<lparr>block_hashes := hs\<rparr>) a b m = generate_block_hash_extra_keys r a b m" for hs a b m
    using generate_same [where r = r and hs = hs] by simp
  obtain cs m where c: "block_contents ?w B ?k 0 0 = Inr cs" "mm_index ?w (int ?k * B) m"
    "\<And>l. block_contents ?w B (?k + l) 0 0 = rbind (block_contents ?w B l ?k m) (\<lambda>ds. Inr (cs @ ds))"
    "?k = 0 \<Longrightarrow> m = 0" "0 < ?k \<Longrightarrow> same_index ?w (int ?k * B) m (-1)"
    using contents_split [OF B nm(1), of 0 0 ?k] nm(2) i0 by auto
  have "int ?k * B \<le> num_tokens r" using more_full_blocks [OF B, of "?k - 1" r] by (cases ?k) (auto simp: algebra_simps num_tokens_def)
  then have c1: "block_contents r B ?k 0 0 = Inr cs"
    using contents_longer [OF B, of r ?w 0 ?k 0] c(1) g [of "block_hashes r"] by simp
  define hs1 where "hs1 = chain_hashes hf nh None cs"
  have ln: "length hs1 = ?k" using length_contents [OF c1] by (simp add: hs1_def)
  have one: "request_block_hasher hf nh B r = Some (Inr hs1)" using r(1) c1 by (simp add: hasher_chain [OF B] hs1_def)
  have m1: "mm_index ?w (int ?k * B) (-1)" by (simp add: mm_index_def)
  obtain ds where d: "block_contents ?w B (?n - ?k) ?k m = Inr ds"
    using contents_split [OF B nm(1) c(2), of "?n - ?k"] by blast
  have di: "block_contents ?w B (?n - ?k) ?k (if 0 < ?k then -1 else 0) = Inr ds"
    using d c(4) contents_same [OF B nm(1) c(2) m1, of "?n - ?k"] c(5) by (cases "?k = 0") simp_all
  have "block_contents ?w B ?n 0 0 = Inr (cs @ ds)" using c(3) [of "?n - ?k"] d le by simp
  then have whole: "request_block_hasher hf nh B ?w = Some (Inr (hs1 @ chain_hashes hf nh (if hs1 = [] then None else Some (last hs1)) ds))"
    using r(1) by (simp add: hasher_chain [OF B] chain_append hs1_def)
  let ?v = "?w\<lparr>block_hashes := hs1\<rparr>"
  have v: "request_block_hasher hf nh B ?v = Some (Inr (chain_hashes hf nh (if hs1 = [] then None else Some (last hs1)) ds))"
    using di ln by (simp add: hasher_chain [OF B] contents_hashes Let_def full_blocks_def num_tokens_def)
  have e: "r\<lparr>block_hashes := hs1, all_token_ids := all_token_ids r @ ts\<rparr> = ?v" by (cases r) simp
  have "append_output_token_ids hf nh B ts (r\<lparr>block_hashes := hs1\<rparr>) =
      map_option (\<lambda>res. rbind res (\<lambda>hs. Inr (?v\<lparr>block_hashes := block_hashes ?v @ hs\<rparr>))) (request_block_hasher hf nh B ?v)"
    unfolding e [symmetric] by (simp add: append_output_token_ids_def Let_def)
  then show ?thesis using one whole v by simp
qed


text \<open>A prompt of six tokens with two images, the first at the given place.\<close>

definition image_request :: "string \<Rightarrow> int \<Rightarrow> int \<Rightarrow> int \<Rightarrow> request" where
  "image_request x a b c = (plain_request [1, 2, 3, 4, 5, 6])\<lparr>mm_features :=
     [\<lparr>mm_identifier = Some x, mm_offset = a, mm_length = b - a\<rparr>, \<lparr>mm_identifier = Some ''b'', mm_offset = b, mm_length = c - b\<rparr>]\<rparr>"

theorem hashing_incremental_witness:
  "\<exists>hs1 hs. request_block_hasher enc_input [7] 4 (image_request ''a'' 1 3 6) = Some (Inr hs1) \<and>
    append_output_token_ids enc_input [7] 4 [7, 8] (image_request ''a'' 1 3 6\<lparr>block_hashes := hs1\<rparr>) =
      Some (Inr (image_request ''a'' 1 3 6\<lparr>all_token_ids := [1, 2, 3, 4, 5, 6] @ [7, 8], block_hashes := hs\<rparr>)) \<and>
    request_block_hasher enc_input [7] 4 (image_request ''a'' 1 3 6\<lparr>all_token_ids := [1, 2, 3, 4, 5, 6] @ [7, 8]\<rparr>) = Some (Inr hs)"
proof -
  let ?r = "image_request ''a'' 1 3 6"
  have "block_hashes ?r = []" "mm_named ?r" "all_token_ids ?r = [1, 2, 3, 4, 5, 6]"
    by (simp_all add: image_request_def plain_request_def mm_named_def)
  moreover have "mm_settled ?r (int (full_blocks 4 ?r) * 4)"
    by (simp add: image_request_def plain_request_def mm_settled_def full_blocks_def num_tokens_def mm_end_def)
  ultimately show ?thesis using hashing_incremental [of 4 ?r enc_input "[7]" "[7, 8]"] by simp
qed

definition hash_then_append :: "(hash_input \<Rightarrow> bytes) \<Rightarrow> bytes \<Rightarrow> int \<Rightarrow> int list \<Rightarrow> request \<Rightarrow> request res option" where
  "hash_then_append hash_fn none_hash block_size token_ids r =
     (case request_block_hasher hash_fn none_hash block_size r of
        Some (Inr hs) \<Rightarrow> append_output_token_ids hash_fn none_hash block_size token_ids (r\<lparr>block_hashes := hs\<rparr>)
      | _ \<Rightarrow> None)"

text \<open>
  Where a request is not settled an input is lost: with two images in the last, partial block of
  the prompt, the hash of that block, computed when generated tokens complete it, does not depend
  on the first image, although the block contains it.
\<close>

theorem partial_block_forgets_input:
  "(\<exists>hs. \<forall>x. map_option (map_sum id block_hashes) (hash_then_append hf nh 4 [7, 8] (image_request x 4 5 6)) = Some (Inr hs)) \<and>
   block_contents (image_request x 4 5 6\<lparr>all_token_ids := [1, 2, 3, 4, 5, 6, 7, 8]\<rparr>) 4 2 0 0 =
     Inr [([1, 2, 3, 4], None), ([5, 6, 7, 8], Some [KStr x, KStr ''b''])]"
proof -
  note defs = image_request_def plain_request_def full_blocks_def num_tokens_def generate_block_hash_extra_keys_def
    gen_mm_extra_hash_keys_def gen_lora_extra_hash_keys_def cache_salt_keys_def gen_prompt_embeds_extra_hash_keys_def mm_loop.simps
  show ?thesis
    by (simp add: hash_then_append_def append_output_token_ids_def hasher_chain defs Let_def py_slice_nat numeral_eq_Suc split: if_splits)
qed

section \<open>Coarser hashes\<close>

lemma rmap_all: "(\<And>x. x \<in> set xs \<Longrightarrow> f x = Inr (g x)) \<Longrightarrow> rmap f xs = Inr (map g xs)"
  by (induction xs) simp_all

lemma rmap_map: "rmap f (map g xs) = rmap (\<lambda>x. f (g x)) xs"
  by (induction xs) simp_all

lemma merge_hashes_ok:
  "j \<le> k \<Longrightarrow> k \<le> length hs \<Longrightarrow>
     merge_hashes hs [int j..int k - 1] m = Inr (m @ concat (take (k - j) (drop j hs)))"
proof (induction "k - j" arbitrary: j m)
  case (Suc d)
  then have j: "j < k" by simp
  then have u: "[int j..int k - 1] = int j # [int (Suc j)..int k - 1]"
    by (subst upto_rec1) (simp_all add: algebra_simps)
  have "merge_hashes hs [int (Suc j)..int k - 1] (m @ hs ! j) = Inr ((m @ hs ! j) @ concat (take (k - Suc j) (drop (Suc j) hs)))"
    by (rule Suc.hyps(1)) (use Suc.hyps(2) Suc.prems j in simp_all)
  moreover have "take (k - j) (drop j hs) = hs ! j # take (k - Suc j) (drop (Suc j) hs)"
    using j Suc.prems by (simp add: Cons_nth_drop_Suc [symmetric] take_Cons' )
  ultimately show ?case using u j Suc.prems by simp
qed simp

text \<open>The hashes of groups of \<open>n\<close> blocks: each is the hashes of its blocks, one after the other.\<close>

definition group_hash :: "nat \<Rightarrow> bytes list \<Rightarrow> nat \<Rightarrow> bytes" where
  "group_hash n hs i = concat (take n (drop (i * n) hs))"

definition group_hashes :: "nat \<Rightarrow> bytes list \<Rightarrow> bytes list" where
  "group_hashes n hs = map (group_hash n hs) [0..<length hs div n]"

lemma group_hashes_one [simp]: "group_hashes 1 hs = hs" "group_hashes (Suc 0) hs = hs"
  by (auto simp: group_hashes_def group_hash_def take_Suc_conv_app_nth hd_drop_conv_nth take_Suc intro!: nth_equalityI)

lemma group_hashes_nth: "i < length hs div n \<Longrightarrow> group_hashes n hs ! i = group_hash n hs i"
  by (simp add: group_hashes_def)

lemma length_group_hashes [simp]: "length (group_hashes n hs) = length hs div n"
  by (simp add: group_hashes_def)

lemma group_inside: "i < length (hs :: 'a list) div n \<Longrightarrow> i * n + n \<le> length hs"
proof -
  assume "i < length hs div n"
  then have "(i + 1) * n \<le> length hs div n * n" by (intro mult_le_mono1) simp
  also have "\<dots> \<le> length hs" by simp
  finally show ?thesis by (simp add: algebra_simps)
qed

lemma get_value_group:
  assumes "0 < n" "i < length hs div n"
  shows "get_value_at \<lparr>s_hashes = hs, scale_factor = int n\<rparr> (int i) = Inr (group_hash n hs i)"
proof -
  note le = group_inside [OF assms(2)]
  have "merge_hashes hs [int (Suc (i * n))..int (i * n + n) - 1] (hs ! (i * n)) =
      Inr (hs ! (i * n) @ concat (take (i * n + n - Suc (i * n)) (drop (Suc (i * n)) hs)))"
    by (rule merge_hashes_ok) (use le assms in simp_all)
  moreover have "take n (drop (i * n) hs) = hs ! (i * n) # take (n - 1) (drop (Suc (i * n)) hs)"
    using le assms by (simp add: Cons_nth_drop_Suc [symmetric] take_Cons' )
  moreover have "py_nth hs (int (i * n)) = Inr (hs ! (i * n))" using le assms by (simp del: of_nat_mult)
  ultimately show ?thesis by (simp add: get_value_at_def Let_def algebra_simps group_hash_def)
qed

lemma upto_from: "a \<le> k \<Longrightarrow> [int a..int k - 1] = map int [a..<k]"
proof (induction "k - a" arbitrary: a)
  case (Suc d)
  then have "[int a..int k - 1] = int a # [int (Suc a)..int k - 1]" by (subst upto_rec1) (simp_all add: algebra_simps)
  moreover have "[int (Suc a)..int k - 1] = map int [Suc a..<k]" using Suc.hyps(1) [of "Suc a"] Suc.hyps(2) Suc.prems by simp
  moreover have "[a..<k] = a # [Suc a..<k]" using Suc.hyps(2) by (simp add: upt_rec)
  ultimately show ?case by simp
qed simp

lemma scaled_from_groups:
  assumes "0 < n" "0 \<le> a"
  shows "scaled_from \<lparr>s_hashes = hs, scale_factor = int n\<rparr> a = Inr (drop (nat a) (group_hashes n hs))"
proof -
  let ?k = "length hs div n" let ?s = "\<lparr>s_hashes = hs, scale_factor = int n\<rparr>" let ?a = "min (nat a) ?k"
  have ln: "scaled_len ?s = Inr (int ?k)" using assms(1) by (simp add: scaled_len_def zdiv_int)
  have bd: "py_bound ?k a = int ?a" using assms(2) by (simp add: py_bound_def)
  have "rmap (get_value_at ?s) [int ?a..int ?k - 1] = rmap (\<lambda>i. get_value_at ?s (int i)) [?a..<?k]"
    by (simp add: upto_from rmap_map del: of_nat_min)
  also have "\<dots> = Inr (map (group_hash n hs) [?a..<?k])"
    by (rule rmap_all) (simp add: get_value_group assms(1))
  also have "map (group_hash n hs) [?a..<?k] = drop (nat a) (group_hashes n hs)"
    by (auto simp: group_hashes_def drop_map min_def)
  finally show ?thesis using ln bd by (simp add: scaled_from_def)
qed

lemma scaled_iter_groups: "0 < n \<Longrightarrow> scaled_iter \<lparr>s_hashes = hs, scale_factor = int n\<rparr> = Inr (group_hashes n hs)"
  using scaled_from_groups [of n 0 hs] by (simp add: scaled_from_def scaled_iter_def py_bound_def scaled_len_def split: if_splits)

lemma scaled_init_iff:
  assumes "0 < B"
  shows "scaled_init hs B t = Inr s \<longleftrightarrow> B dvd t \<and> s = \<lparr>s_hashes = hs, scale_factor = t div B\<rparr>"
  using assms by (auto simp: scaled_init_def dvd_eq_mod_eq_0)

lemma concat_inj_length:
  assumes "concat xs = concat ys" "length xs = length ys" "\<And>x. x \<in> set xs \<union> set ys \<Longrightarrow> length x = l"
  shows "xs = ys"
  using assms(2,1,3) by (induction xs ys rule: list_induct2) auto

text \<open>Distinct hashes of one length stay distinct when they are joined in groups.\<close>

lemma group_hashes_distinct:
  assumes "0 < n" "distinct hs" "\<And>h. h \<in> set hs \<Longrightarrow> length h = l"
  shows "distinct (group_hashes n hs)"
  unfolding distinct_conv_nth
proof (intro allI impI notI)
  fix i j assume ij: "i < length (group_hashes n hs)" "j < length (group_hashes n hs)" "i \<noteq> j"
    and eq: "group_hashes n hs ! i = group_hashes n hs ! j"
  have le: "i * n + n \<le> length hs" "j * n + n \<le> length hs" using group_inside ij by simp_all
  have "concat (take n (drop (i * n) hs)) = concat (take n (drop (j * n) hs))"
    using eq ij by (simp add: group_hashes_nth group_hash_def)
  then have "take n (drop (i * n) hs) = take n (drop (j * n) hs)"
    by (rule concat_inj_length [where l = l]) (use le assms(3) in \<open>auto dest!: in_set_takeD in_set_dropD\<close>)
  then have "take n (drop (i * n) hs) ! 0 = take n (drop (j * n) hs) ! 0" by simp
  then have "hs ! (i * n) = hs ! (j * n)" using assms(1) le by simp
  then show False using nth_eq_iff_index_eq [OF assms(2), of "i * n" "j * n"] le assms(1) ij(3) by simp
qed

text \<open>
  A list of hashes read at a block size \<open>n\<close> times larger has one entry for each full group of
  \<open>n\<close> hashes, the concatenation of the group; a trailing group that is not full is left out.
\<close>

theorem scaled_hashes_groups:
  assumes "0 < B" "0 < n"
  shows "rbind (scaled_init hs B (int n * B)) scaled_iter =
    Inr (map (\<lambda>i. concat (take n (drop (i * n) hs))) [0..<length hs div n])"
  using assms scaled_iter_groups [of n hs] by (simp add: scaled_init_def group_hashes_def group_hash_def)

theorem scaled_hashes_groups_witness:
  "rbind (scaled_init [[1], [2], [3], [4], [5]] 16 (int 2 * 16)) scaled_iter = Inr [[1, 2], [3, 4]]"
  using scaled_hashes_groups [of 16 2 "[[1], [2], [3], [4], [5]]"] by (simp add: upt_rec)

end
