(* ===== verification/Block_Pool.thy ===== *)
theory Block_Pool
  imports Free_Queue Block_Hash Py_Prog
begin

text \<open>
  The pool of KV-cache blocks (\<open>v1/core/block_pool.py\<close>): the table from block hashes to cached
  blocks and the pool that allocates, caches, evicts, touches and frees blocks. A block object is
  its index in the pool; the pool has no metrics collector. The invariant \<open>pool_ok\<close> says that the
  free queue holds exactly the blocks that are neither referenced nor pinned nor the null block,
  and \<open>cache_ok\<close> that the table and the hashes stored in the blocks are inverse to each other.
\<close>

section \<open>Blocks and the table of cached blocks\<close>

record kv_cache_block =
  ref_cnt :: int
  pinned :: bool
  b_hash :: "bytes option"
  is_null :: bool

definition new_block :: kv_cache_block where
  "new_block = \<lparr>ref_cnt = 0, pinned = False, b_hash = None, is_null = False\<rparr>"

definition reset_hash :: "kv_cache_block \<Rightarrow> kv_cache_block" where
  "reset_hash b = b\<lparr>b_hash := None\<rparr>"

definition set_block_hash :: "bytes \<Rightarrow> kv_cache_block \<Rightarrow> kv_cache_block res" where
  "set_block_hash h b = (if b_hash b = None then Inr (b\<lparr>b_hash := Some h\<rparr>) else Inl AssertionError)"

text \<open>One block, or a dictionary from block ids to blocks: the list of the ids in insertion order.\<close>

datatype kv_blocks = OneBlock nat | ManyBlocks "nat list"

type_synonym hash_map = "(bytes, kv_blocks) dict"

definition get_one_block :: "hash_map \<Rightarrow> bytes \<Rightarrow> nat option res" where
  "get_one_block c key =
     (case map_of c key of
        None \<Rightarrow> Inr None
      | Some (OneBlock b) \<Rightarrow> Inr (Some b)
      | Some (ManyBlocks []) \<Rightarrow> Inl StopIteration
      | Some (ManyBlocks (b # _)) \<Rightarrow> Inr (Some b))"

definition dict_add :: "nat \<Rightarrow> nat list \<Rightarrow> nat list" where
  "dict_add b bs = (if b \<in> set bs then bs else bs @ [b])"

definition hm_insert :: "bytes \<Rightarrow> nat \<Rightarrow> hash_map \<Rightarrow> hash_map" where
  "hm_insert key b c =
     (case map_of c key of
        None \<Rightarrow> AList.update key (OneBlock b) c
      | Some (OneBlock b') \<Rightarrow> AList.update key (ManyBlocks (dict_add b [b'])) c
      | Some (ManyBlocks bs) \<Rightarrow> AList.update key (ManyBlocks (dict_add b bs)) c)"

definition hm_pop :: "bytes \<Rightarrow> nat \<Rightarrow> hash_map \<Rightarrow> nat option \<times> hash_map" where
  "hm_pop key b c =
     (case map_of c key of
        None \<Rightarrow> (None, c)
      | Some (OneBlock b') \<Rightarrow>
          if b' = b then (Some b', AList.delete key c)
          else (None, AList.update key (OneBlock b') (AList.delete key c))
      | Some (ManyBlocks bs) \<Rightarrow>
          let rest = removeAll b bs
          in (if b \<in> set bs then Some b else None,
              if rest \<noteq> [] then AList.update key (ManyBlocks rest) (AList.delete key c) else AList.delete key c))"

section \<open>The pool\<close>

datatype kv_event =
    BlockStored "external_hash list" "external_hash option" "int list" int "int option" string
  | BlockRemoved "external_hash list" string
  | AllBlocksCleared

definition medium_gpu :: string where
  "medium_gpu = ''GPU''"

record block_pool =
  num_gpu_blocks :: int
  enable_caching :: bool
  hash_block_size :: int
  blocks :: "kv_cache_block list"
  free_block_queue :: free_queue
  cached_block_hash_to_block :: hash_map
  null_block :: nat
  enable_kv_cache_events :: bool
  kv_event_queue :: "kv_event list"
  use_int_hashes :: bool

definition upd_block :: "nat \<Rightarrow> (kv_cache_block \<Rightarrow> kv_cache_block) \<Rightarrow> block_pool \<Rightarrow> block_pool" where
  "upd_block i f p = p\<lparr>blocks := (blocks p)[i := f (blocks p ! i)]\<rparr>"

definition add_ref :: "int \<Rightarrow> nat \<Rightarrow> block_pool \<Rightarrow> block_pool" where
  "add_ref d i = upd_block i (\<lambda>b. b\<lparr>ref_cnt := ref_cnt b + d\<rparr>)"

definition add_event :: "kv_event \<Rightarrow> block_pool \<Rightarrow> block_pool" where
  "add_event e p = p\<lparr>kv_event_queue := kv_event_queue p @ [e]\<rparr>"

definition on_queue :: "(free_queue \<Rightarrow> free_queue res) \<Rightarrow> (block_pool, unit) sprog" where
  "on_queue f p = (case f (free_block_queue p) of Inl e \<Rightarrow> (Inl e, p) | Inr q \<Rightarrow> (Inr (), p\<lparr>free_block_queue := q\<rparr>))"

definition pool_init :: "int \<Rightarrow> bool \<Rightarrow> int \<Rightarrow> bool \<Rightarrow> bool \<Rightarrow> block_pool res" where
  "pool_init num_gpu caching hbs events use_int =
     (if num_gpu > 0 then
        rbind (popleft (fq_init [0..<nat num_gpu])) (\<lambda>(b, q).
          Inr (upd_block b (\<lambda>x. x\<lparr>is_null := True\<rparr>)
            \<lparr>num_gpu_blocks = num_gpu, enable_caching = caching, hash_block_size = hbs,
             blocks = replicate (nat num_gpu) new_block, free_block_queue = q,
             cached_block_hash_to_block = [], null_block = b, enable_kv_cache_events = events,
             kv_event_queue = [], use_int_hashes = use_int\<rparr>))
      else Inl AssertionError)"

primrec get_cached_block :: "block_pool \<Rightarrow> bytes \<Rightarrow> int list \<Rightarrow> nat list option res" where
  "get_cached_block p block_hash [] = Inr (Some [])"
| "get_cached_block p block_hash (g # gs) =
     rbind (make_block_hash_with_group_id block_hash g) (\<lambda>key.
     rbind (get_one_block (cached_block_hash_to_block p) key) (\<lambda>r. case r of
         None \<Rightarrow> Inr None
       | Some b \<Rightarrow> rbind (get_cached_block p block_hash gs) (\<lambda>bs. Inr (map_option ((#) b) bs))))"

section \<open>Caching and eviction\<close>

text \<open>The hashes of a request at the block size of the group, from the first block not cached on.\<close>

definition new_block_hashes :: "block_pool \<Rightarrow> request \<Rightarrow> int \<Rightarrow> int \<Rightarrow> bytes list res" where
  "new_block_hashes p r block_size num_cached =
     (if block_size = hash_block_size p
      then Inr (py_slice num_cached (int (length (block_hashes r))) (block_hashes r))
      else rbind (scaled_init (block_hashes r) (hash_block_size p) block_size) (\<lambda>s. scaled_from s num_cached))"

definition store_hash :: "bytes \<Rightarrow> nat \<Rightarrow> (block_pool, unit) sprog" where
  "store_hash key b p =
     (case set_block_hash key (blocks p ! b) of
        Inl e \<Rightarrow> (Inl e, p)
      | Inr x \<Rightarrow> (Inr (), upd_block b (\<lambda>_. x) p))"

primrec cache_loop :: "int \<Rightarrow> nat list \<Rightarrow> bytes list \<Rightarrow> bytes list \<Rightarrow> (block_pool, bytes list) sprog" where
  "cache_loop gid [] hs new = pret new"
| "cache_loop gid (b # bs) hs new =
     pbind (pget (\<lambda>p. b_hash (blocks p ! b))) (\<lambda>old.
       if old \<noteq> None then praise AssertionError
       else case hs of
           [] \<Rightarrow> praise IndexError
         | h # hs' \<Rightarrow>
             pbind (plift (make_block_hash_with_group_id h gid)) (\<lambda>key.
             pbind (store_hash key b) (\<lambda>_.
             pbind (pmodify (\<lambda>p. p\<lparr>cached_block_hash_to_block := hm_insert key b (cached_block_hash_to_block p)\<rparr>)) (\<lambda>_.
             cache_loop gid bs hs' (new @ [h])))))"

definition parent_hash :: "nat list \<Rightarrow> int \<Rightarrow> (block_pool, external_hash option) sprog" where
  "parent_hash bs num_cached =
     (if num_cached = 0 then pret None
      else pbind (plift (py_nth bs (num_cached - 1))) (\<lambda>b p.
        case b_hash (blocks p ! b) of
          None \<Rightarrow> (Inl AssertionError, p)
        | Some key \<Rightarrow> (Inr (Some (maybe_convert_block_hash (use_int_hashes p) (get_block_hash key))), p)))"

definition cache_full_blocks :: "request \<Rightarrow> nat list \<Rightarrow> int \<Rightarrow> int \<Rightarrow> int \<Rightarrow> int \<Rightarrow> (block_pool, unit) sprog" where
  "cache_full_blocks r bs num_cached num_full block_size gid =
     (if num_cached \<ge> num_full then pret ()
      else if int (length (block_hashes r)) < num_full then praise AssertionError
      else pbind (pget (\<lambda>p. new_block_hashes p r block_size num_cached)) (\<lambda>nh.
           pbind (plift nh) (\<lambda>hs.
           pbind (cache_loop gid (py_slice num_cached num_full bs) hs []) (\<lambda>new p.
             if enable_kv_cache_events p
             then pbind (parent_hash bs num_cached) (\<lambda>parent.
                    pmodify (\<lambda>p. add_event (BlockStored (map (maybe_convert_block_hash (use_int_hashes p)) new) parent
                      (py_slice (num_cached * block_size) (num_full * block_size) (all_token_ids r)) block_size
                      (map_option snd (lora_request r)) medium_gpu) p)) p
             else (Inr (), p)))))"

definition maybe_evict_cached_block :: "nat \<Rightarrow> block_pool \<Rightarrow> bool \<times> block_pool" where
  "maybe_evict_cached_block b p =
     (case b_hash (blocks p ! b) of
        None \<Rightarrow> (False, p)
      | Some key \<Rightarrow>
          let (r, c) = hm_pop key b (cached_block_hash_to_block p);
              p = p\<lparr>cached_block_hash_to_block := c\<rparr>
          in case r of
               None \<Rightarrow> (False, p)
             | Some _ \<Rightarrow>
                 let p = upd_block b reset_hash p
                 in (True, if enable_kv_cache_events p
                           then add_event (BlockRemoved [maybe_convert_block_hash (use_int_hashes p) (get_block_hash key)] medium_gpu) p
                           else p))"

section \<open>Allocation, touch and free\<close>

definition get_num_free_blocks :: "block_pool \<Rightarrow> int" where
  "get_num_free_blocks p = num_free_blocks (free_block_queue p)"

text \<open>What \<open>get_new_blocks\<close> does to each block it took from the queue.\<close>

definition claim_block :: "nat \<Rightarrow> (block_pool, unit) sprog" where
  "claim_block b p =
     (let p = (if enable_caching p \<and> \<not> pinned (blocks p ! b) then snd (maybe_evict_cached_block b p) else p)
      in if ref_cnt (blocks p ! b) = 0 then (Inr (), add_ref 1 b p) else (Inl AssertionError, p))"

primrec pseq :: "('a \<Rightarrow> ('s, unit) sprog) \<Rightarrow> 'a list \<Rightarrow> ('s, unit) sprog" where
  "pseq f [] = pret ()"
| "pseq f (x # xs) = pbind (f x) (\<lambda>_. pseq f xs)"

definition get_new_blocks :: "int \<Rightarrow> (block_pool, nat list) sprog" where
  "get_new_blocks n p =
     (if n > get_num_free_blocks p then (Inl ValueError, p)
      else case popleft_n n (free_block_queue p) of
          Inl e \<Rightarrow> (Inl e, p)
        | Inr (ret, q) \<Rightarrow> pbind (pseq claim_block ret) (\<lambda>_. pret ret) (p\<lparr>free_block_queue := q\<rparr>))"

definition touch_block :: "nat \<Rightarrow> (block_pool, unit) sprog" where
  "touch_block b p =
     (let x = blocks p ! b
      in pbind (if ref_cnt x = 0 \<and> \<not> is_null x \<and> \<not> pinned x then on_queue (fq_remove b) else pret ())
           (\<lambda>_. pmodify (add_ref 1 b)) p)"

definition touch :: "nat list list \<Rightarrow> (block_pool, unit) sprog" where
  "touch bss = pseq (pseq touch_block) bss"

definition idle :: "kv_cache_block \<Rightarrow> bool" where
  "idle x \<longleftrightarrow> ref_cnt x = 0 \<and> \<not> is_null x \<and> \<not> pinned x"

definition free_blocks :: "nat list \<Rightarrow> (block_pool, unit) sprog" where
  "free_blocks bs =
     pbind (pmodify (fold (add_ref (-1)) bs)) (\<lambda>_ p.
       on_queue (append_n (filter (\<lambda>b. idle (blocks p ! b)) bs)) p)"

text \<open>The ids of a set are visited in some order, given by the list.\<close>

primrec evict_blocks :: "nat list \<Rightarrow> (block_pool, unit) sprog" where
  "evict_blocks [] = pret ()"
| "evict_blocks (b # bs) =
     pbind (pget (\<lambda>p. length (blocks p))) (\<lambda>n.
       if b < n then pbind (pmodify (\<lambda>p. snd (maybe_evict_cached_block b p))) (\<lambda>_. evict_blocks bs)
       else praise AssertionError)"

definition reset_prefix_cache :: "block_pool \<Rightarrow> bool \<times> block_pool" where
  "reset_prefix_cache p =
     (if num_gpu_blocks p - get_num_free_blocks p \<noteq> 1 then (False, p)
      else let p = p\<lparr>cached_block_hash_to_block := [], blocks := map reset_hash (blocks p)\<rparr>
           in (True, if enable_kv_cache_events p then add_event AllBlocksCleared p else p))"

definition get_usage :: "block_pool \<Rightarrow> rat" where
  "get_usage p =
     (let total = num_gpu_blocks p - 1
      in if total = 0 then 0 else 1 - of_int (get_num_free_blocks p) / of_int total)"

definition take_events :: "block_pool \<Rightarrow> kv_event list \<times> block_pool" where
  "take_events p =
     (if enable_kv_cache_events p then (kv_event_queue p, p\<lparr>kv_event_queue := []\<rparr>) else ([], p))"

section \<open>The table of cached blocks\<close>

definition ids_of :: "hash_map \<Rightarrow> bytes \<Rightarrow> nat list" where
  "ids_of c k = (case map_of c k of None \<Rightarrow> [] | Some (OneBlock b) \<Rightarrow> [b] | Some (ManyBlocks bs) \<Rightarrow> bs)"

definition hm_ok :: "hash_map \<Rightarrow> bool" where
  "hm_ok c \<longleftrightarrow> dwf c \<and> (\<forall>k. distinct (ids_of c k) \<and> (map_of c k \<noteq> None \<longrightarrow> ids_of c k \<noteq> []))"

lemma hm_empty [simp]: "hm_ok []" "ids_of [] k = []"
  by (simp_all add: hm_ok_def ids_of_def)

lemma get_one_block_ids:
  "hm_ok c \<Longrightarrow> get_one_block c k = Inr (if ids_of c k = [] then None else Some (hd (ids_of c k)))"
  by (auto simp: hm_ok_def get_one_block_def ids_of_def split: option.splits kv_blocks.splits list.splits)

lemma ids_insert: "ids_of (hm_insert k b c) k' = (if k' = k then dict_add b (ids_of c k) else ids_of c k')"
  by (auto simp: ids_of_def hm_insert_def dict_add_def split: option.splits kv_blocks.splits)

lemma hm_insert_ok: "hm_ok c \<Longrightarrow> hm_ok (hm_insert k b c)"
  by (auto simp: hm_ok_def ids_insert dict_add_def) (auto simp: hm_insert_def split: option.splits kv_blocks.splits if_splits)

lemma map_of_delete [simp]: "map_of (AList.delete k c) k' = (if k' = k then None else map_of c k')"
  by (simp add: delete_conv')

lemma ids_pop: "ids_of (snd (hm_pop k b c)) k' = (if k' = k then removeAll b (ids_of c k) else ids_of c k')"
  by (auto simp: ids_of_def hm_pop_def Let_def split: option.splits kv_blocks.splits)

lemma fst_pop: "fst (hm_pop k b c) = (if b \<in> set (ids_of c k) then Some b else None)"
  by (auto simp: ids_of_def hm_pop_def Let_def split: option.splits kv_blocks.splits)

lemma hm_pop_ok:
  assumes "hm_ok c" shows "hm_ok (snd (hm_pop k b c))"
proof -
  have "map_of (snd (hm_pop k b c)) k' \<noteq> None \<Longrightarrow> ids_of (snd (hm_pop k b c)) k' \<noteq> []" for k'
    using assms by (auto simp: hm_ok_def ids_of_def hm_pop_def Let_def split: option.splits kv_blocks.splits if_splits)
  moreover have "dwf (snd (hm_pop k b c))"
    using assms by (auto simp: hm_ok_def hm_pop_def Let_def split: option.splits kv_blocks.splits)
  ultimately show ?thesis using assms by (simp add: hm_ok_def ids_pop distinct_removeAll)
qed

section \<open>The invariant of the pool\<close>

text \<open>
  \<open>pool_inv p xs S\<close>: the free queue holds the list \<open>xs\<close>, which are the idle blocks outside \<open>S\<close>,
  the blocks an operation has in hand. Between operations \<open>S\<close> is empty.
\<close>

definition blocks_ok :: "block_pool \<Rightarrow> bool" where
  "blocks_ok p \<longleftrightarrow> num_gpu_blocks p = int (length (blocks p)) \<and> null_block p < length (blocks p) \<and>
     (\<forall>i < length (blocks p). (is_null (blocks p ! i) \<longleftrightarrow> i = null_block p) \<and>
        (i \<noteq> null_block p \<longrightarrow> 0 \<le> ref_cnt (blocks p ! i)))"

definition cache_ok :: "block_pool \<Rightarrow> bool" where
  "cache_ok p \<longleftrightarrow> hm_ok (cached_block_hash_to_block p) \<and>
     (\<forall>k i. i \<in> set (ids_of (cached_block_hash_to_block p) k) \<longleftrightarrow>
        i < length (blocks p) \<and> b_hash (blocks p ! i) = Some k)"

definition free_ok :: "block_pool \<Rightarrow> nat list \<Rightarrow> nat set \<Rightarrow> bool" where
  "free_ok p xs S \<longleftrightarrow> free_block_queue p = queue_of xs \<and> distinct xs \<and>
     (\<forall>i. i \<in> set xs \<longleftrightarrow> i < length (blocks p) \<and> idle (blocks p ! i) \<and> i \<notin> S)"

definition pool_inv :: "block_pool \<Rightarrow> nat list \<Rightarrow> nat set \<Rightarrow> bool" where
  "pool_inv p xs S \<longleftrightarrow> blocks_ok p \<and> cache_ok p \<and> free_ok p xs S"

definition same_static :: "block_pool \<Rightarrow> block_pool \<Rightarrow> bool" where
  "same_static p p' \<longleftrightarrow> num_gpu_blocks p' = num_gpu_blocks p \<and> enable_caching p' = enable_caching p \<and>
     hash_block_size p' = hash_block_size p \<and> null_block p' = null_block p \<and>
     enable_kv_cache_events p' = enable_kv_cache_events p \<and> use_int_hashes p' = use_int_hashes p \<and>
     length (blocks p') = length (blocks p)"

lemma same_static_refl [simp]: "same_static p p"
  by (simp add: same_static_def)

lemma same_static_trans: "same_static p q \<Longrightarrow> same_static q r \<Longrightarrow> same_static p r"
  by (simp add: same_static_def)

lemma upd_block_fields [simp]:
  "blocks (upd_block b f p) = (blocks p)[b := f (blocks p ! b)]" "free_block_queue (upd_block b f p) = free_block_queue p"
  "cached_block_hash_to_block (upd_block b f p) = cached_block_hash_to_block p" "null_block (upd_block b f p) = null_block p"
  "num_gpu_blocks (upd_block b f p) = num_gpu_blocks p" "enable_caching (upd_block b f p) = enable_caching p"
  "hash_block_size (upd_block b f p) = hash_block_size p" "enable_kv_cache_events (upd_block b f p) = enable_kv_cache_events p"
  "use_int_hashes (upd_block b f p) = use_int_hashes p" "kv_event_queue (upd_block b f p) = kv_event_queue p"
  by (simp_all add: upd_block_def)

lemma upd_block_static [simp]: "same_static p (upd_block b f p)"
  by (simp add: same_static_def)

lemma add_event_fields [simp]:
  "blocks (add_event e p) = blocks p" "free_block_queue (add_event e p) = free_block_queue p"
  "cached_block_hash_to_block (add_event e p) = cached_block_hash_to_block p" "null_block (add_event e p) = null_block p"
  "num_gpu_blocks (add_event e p) = num_gpu_blocks p" "enable_caching (add_event e p) = enable_caching p"
  "hash_block_size (add_event e p) = hash_block_size p" "enable_kv_cache_events (add_event e p) = enable_kv_cache_events p"
  "use_int_hashes (add_event e p) = use_int_hashes p"
  by (simp_all add: add_event_def)

lemma pool_inv_cong:
  assumes "blocks q = blocks p" "free_block_queue q = free_block_queue p" "null_block q = null_block p"
    "cached_block_hash_to_block q = cached_block_hash_to_block p" "num_gpu_blocks q = num_gpu_blocks p"
  shows "pool_inv q xs S \<longleftrightarrow> pool_inv p xs S"
  using assms by (simp add: pool_inv_def blocks_ok_def cache_ok_def free_ok_def)

lemma pool_inv_event [simp]: "pool_inv (add_event e p) xs S \<longleftrightarrow> pool_inv p xs S"
  by (rule pool_inv_cong) simp_all

text \<open>Changing a reference count or a pin moves the block in or out of the exempted set.\<close>

lemma pool_inv_upd:
  assumes "pool_inv p xs S" "b < length (blocks p)" "b_hash (f (blocks p ! b)) = b_hash (blocks p ! b)"
    "is_null (f (blocks p ! b)) = is_null (blocks p ! b)" "b \<noteq> null_block p \<Longrightarrow> 0 \<le> ref_cnt (f (blocks p ! b))"
    "\<And>i. i \<noteq> b \<Longrightarrow> i \<in> S' \<longleftrightarrow> i \<in> S"
    "idle (f (blocks p ! b)) \<and> b \<notin> S' \<longleftrightarrow> idle (blocks p ! b) \<and> b \<notin> S"
  shows "pool_inv (upd_block b f p) xs S'"
proof -
  have "free_ok (upd_block b f p) xs S'"
    using assms(1,2,6,7) by (auto simp: pool_inv_def free_ok_def nth_list_update)
  then show ?thesis
    using assms(1-5) by (auto simp: pool_inv_def blocks_ok_def cache_ok_def nth_list_update)
qed

section \<open>What the operations do\<close>

lemma reset_hash_simps [simp]:
  "ref_cnt (reset_hash x) = ref_cnt x" "pinned (reset_hash x) = pinned x" "is_null (reset_hash x) = is_null x"
  "b_hash (reset_hash x) = None" "idle (reset_hash x) = idle x" "b_hash x = None \<Longrightarrow> reset_hash x = x"
  by (simp_all add: reset_hash_def idle_def)

lemma evict_effect:
  assumes inv: "pool_inv p xs S" and b: "b < length (blocks p)"
  shows "pool_inv (snd (maybe_evict_cached_block b p)) xs S"
    "blocks (snd (maybe_evict_cached_block b p)) = (blocks p)[b := reset_hash (blocks p ! b)]"
    "same_static p (snd (maybe_evict_cached_block b p))"
    "fst (maybe_evict_cached_block b p) \<longleftrightarrow> b_hash (blocks p ! b) \<noteq> None"
proof -
  let ?p = "snd (maybe_evict_cached_block b p)"
  have "pool_inv ?p xs S \<and> blocks ?p = (blocks p)[b := reset_hash (blocks p ! b)] \<and> same_static p ?p \<and>
    (fst (maybe_evict_cached_block b p) \<longleftrightarrow> b_hash (blocks p ! b) \<noteq> None)"
  proof (cases "b_hash (blocks p ! b)")
    case None
    then show ?thesis using inv by (simp add: maybe_evict_cached_block_def)
  next
    case (Some key)
    let ?c = "cached_block_hash_to_block p"
    let ?q = "upd_block b reset_hash (p\<lparr>cached_block_hash_to_block := snd (hm_pop key b ?c)\<rparr>)"
    have c: "hm_ok ?c" "\<And>k i. i \<in> set (ids_of ?c k) \<longleftrightarrow> i < length (blocks p) \<and> b_hash (blocks p ! i) = Some k"
      using inv by (simp_all add: pool_inv_def cache_ok_def)
    have "b \<in> set (ids_of ?c key)" using c(2) b Some by simp
    then have pop: "fst (hm_pop key b ?c) = Some b" by (simp add: fst_pop)
    have "cache_ok ?q"
      using c b Some by (auto simp: cache_ok_def hm_pop_ok ids_pop nth_list_update)
    moreover have "free_ok ?q xs S" "blocks_ok ?q"
      using inv b by (auto simp: pool_inv_def free_ok_def blocks_ok_def nth_list_update)
    ultimately have "pool_inv ?q xs S" by (simp add: pool_inv_def)
    moreover have "same_static p ?q" by (simp add: same_static_def)
    moreover have "fst (maybe_evict_cached_block b p) \<longleftrightarrow> b_hash (blocks p ! b) \<noteq> None"
      using Some pop by (simp add: maybe_evict_cached_block_def split_beta Let_def)
    moreover have "?p = (if enable_kv_cache_events ?q
        then add_event (BlockRemoved [maybe_convert_block_hash (use_int_hashes ?q) (get_block_hash key)] medium_gpu) ?q else ?q)"
      using Some pop by (simp add: maybe_evict_cached_block_def split_beta Let_def)
    ultimately show ?thesis by (simp add: same_static_def)
  qed
  then show "pool_inv ?p xs S" "blocks ?p = (blocks p)[b := reset_hash (blocks p ! b)]" "same_static p ?p"
    "fst (maybe_evict_cached_block b p) \<longleftrightarrow> b_hash (blocks p ! b) \<noteq> None" by blast+
qed

lemma same_static_len: "same_static p q \<Longrightarrow> length (blocks q) = length (blocks p) \<and> null_block q = null_block p \<and> enable_caching q = enable_caching p"
  by (simp add: same_static_def)

text \<open>A block taken from the queue: it was idle, and is referenced once afterwards, without a hash if caching.\<close>

definition claimed :: "bool \<Rightarrow> kv_cache_block \<Rightarrow> kv_cache_block" where
  "claimed caching x = x\<lparr>b_hash := if caching then None else b_hash x, ref_cnt := 1\<rparr>"

lemma claim_effect:
  assumes inv: "pool_inv p xs S" and b: "b < length (blocks p)" "b \<in> S" "idle (blocks p ! b)"
  shows "\<exists>p'. claim_block b p = (Inr (), p') \<and> pool_inv p' xs (S - {b}) \<and> same_static p p' \<and>
    blocks p' = (blocks p)[b := claimed (enable_caching p) (blocks p ! b)]"
proof -
  define q where "q = (if enable_caching p \<and> \<not> pinned (blocks p ! b) then snd (maybe_evict_cached_block b p) else p)"
  have q: "pool_inv q xs S" "same_static p q"
    "blocks q = (blocks p)[b := (blocks p ! b)\<lparr>b_hash := if enable_caching p then None else b_hash (blocks p ! b)\<rparr>]"
    using inv evict_effect [OF inv b(1)] b(3) by (auto simp: q_def idle_def reset_hash_def)
  have x: "blocks q ! b = (blocks p ! b)\<lparr>b_hash := if enable_caching p then None else b_hash (blocks p ! b)\<rparr>"
    "b < length (blocks q)" using q(3) b(1) by simp_all
  have "pool_inv (add_ref 1 b q) xs (S - {b})"
    unfolding add_ref_def by (rule pool_inv_upd [OF q(1) x(2)]) (use b in \<open>simp_all add: x(1) idle_def\<close>)
  moreover have "claim_block b p = (Inr (), add_ref 1 b q)"
  proof -
    have "ref_cnt (blocks q ! b) = 0" using x(1) b(3) by (simp add: idle_def)
    then show ?thesis unfolding claim_block_def Let_def q_def [symmetric] by simp
  qed
  moreover have "blocks (add_ref 1 b q) = (blocks p)[b := claimed (enable_caching p) (blocks p ! b)]"
    using x b(3) by (simp add: add_ref_def q(3) claimed_def idle_def)
  moreover have "same_static p (add_ref 1 b q)"
    using same_static_trans [OF q(2)] by (simp add: add_ref_def)
  ultimately show ?thesis by blast
qed

lemma claim_all:
  assumes "pool_inv p xs S" "distinct bs" "set bs \<subseteq> S" "\<And>b. b \<in> set bs \<Longrightarrow> b < length (blocks p) \<and> idle (blocks p ! b)"
  shows "\<exists>p'. pseq claim_block bs p = (Inr (), p') \<and> pool_inv p' xs (S - set bs) \<and> same_static p p' \<and>
    (\<forall>i. blocks p' ! i = (if i \<in> set bs then claimed (enable_caching p) (blocks p ! i) else blocks p ! i))"
  using assms
proof (induction bs arbitrary: p S)
  case (Cons b bs)
  obtain q where q: "claim_block b p = (Inr (), q)" "pool_inv q xs (S - {b})" "same_static p q"
    "blocks q = (blocks p)[b := claimed (enable_caching p) (blocks p ! b)]"
    using claim_effect [OF Cons.prems(1), of b] Cons.prems by auto
  have len: "length (blocks q) = length (blocks p)" "enable_caching q = enable_caching p" using same_static_len [OF q(3)] by simp_all
  have "\<exists>p'. pseq claim_block bs q = (Inr (), p') \<and> pool_inv p' xs (S - {b} - set bs) \<and> same_static q p' \<and>
    (\<forall>i. blocks p' ! i = (if i \<in> set bs then claimed (enable_caching q) (blocks q ! i) else blocks q ! i))"
    by (rule Cons.IH [OF q(2)]) (use Cons.prems q(4) len in \<open>auto simp: nth_list_update\<close>)
  then obtain p' where p': "pseq claim_block bs q = (Inr (), p')" "pool_inv p' xs (S - {b} - set bs)" "same_static q p'"
    "\<And>i. blocks p' ! i = (if i \<in> set bs then claimed (enable_caching q) (blocks q ! i) else blocks q ! i)" by blast
  have "S - set (b # bs) = S - {b} - set bs" by auto
  moreover have "blocks p' ! i = (if i \<in> set (b # bs) then claimed (enable_caching p) (blocks p ! i) else blocks p ! i)" for i
    using p'(4) q(4) len Cons.prems by (auto simp: nth_list_update)
  ultimately show ?case
    using q(1) p' same_static_trans [OF q(3) p'(3)] by auto
qed simp

lemma free_okD:
  assumes "pool_inv p xs S"
  shows "free_block_queue p = queue_of xs" "distinct xs"
    "\<And>i. i \<in> set xs \<longleftrightarrow> i < length (blocks p) \<and> idle (blocks p ! i) \<and> i \<notin> S"
    "get_num_free_blocks p = int (length xs)"
  using assms by (simp_all add: pool_inv_def free_ok_def get_num_free_blocks_def)

lemma pool_inv_queue:
  assumes "pool_inv p xs S" "distinct ys" "\<And>i. i \<in> set ys \<longleftrightarrow> i < length (blocks p) \<and> idle (blocks p ! i) \<and> i \<notin> S'"
  shows "pool_inv (p\<lparr>free_block_queue := queue_of ys\<rparr>) ys S'"
  using assms by (simp add: pool_inv_def blocks_ok_def cache_ok_def free_ok_def)

lemma new_blocks_effect:
  assumes inv: "pool_inv p xs {}" and n: "n \<le> length xs"
  shows "\<exists>p'. get_new_blocks (int n) p = (Inr (take n xs), p') \<and> pool_inv p' (drop n xs) {} \<and> same_static p p' \<and>
    (\<forall>i. blocks p' ! i = (if i \<in> set (take n xs) then claimed (enable_caching p) (blocks p ! i) else blocks p ! i))"
proof -
  note f = free_okD [OF inv]
  let ?q = "p\<lparr>free_block_queue := queue_of (drop n xs)\<rparr>"
  have split: "set xs = set (take n xs) \<union> set (drop n xs)" "set (take n xs) \<inter> set (drop n xs) = {}"
    using f(2) by (metis append_take_drop_id set_append, metis append_take_drop_id distinct_append)
  have q: "pool_inv ?q (drop n xs) (set (take n xs))"
    by (rule pool_inv_queue [OF inv]) (use f(2,3) split in auto)
  have "\<exists>p'. pseq claim_block (take n xs) ?q = (Inr (), p') \<and> pool_inv p' (drop n xs) (set (take n xs) - set (take n xs)) \<and>
    same_static ?q p' \<and>
    (\<forall>i. blocks p' ! i = (if i \<in> set (take n xs) then claimed (enable_caching ?q) (blocks ?q ! i) else blocks ?q ! i))"
    by (rule claim_all [OF q]) (use f(2,3) in \<open>auto dest: in_set_takeD\<close>)
  then obtain p' where "pseq claim_block (take n xs) ?q = (Inr (), p')" "pool_inv p' (drop n xs) {}" "same_static ?q p'"
    "\<And>i. blocks p' ! i = (if i \<in> set (take n xs) then claimed (enable_caching p) (blocks p ! i) else blocks p ! i)"
    by auto
  moreover have "same_static p ?q" by (simp add: same_static_def)
  ultimately show ?thesis
    using n f same_static_trans by (fastforce simp: get_new_blocks_def popleft_n_list)
qed

lemma add_ref_nth [simp]:
  "length (blocks (add_ref d b p)) = length (blocks p)"
  "i < length (blocks p) \<Longrightarrow>
     blocks (add_ref d b p) ! i = (blocks p ! i)\<lparr>ref_cnt := ref_cnt (blocks p ! i) + (if i = b then d else 0)\<rparr>"
  by (simp_all add: add_ref_def nth_list_update)

lemma touch_effect1:
  assumes inv: "pool_inv p xs {}" and b: "b < length (blocks p)"
  shows "\<exists>p'. touch_block b p = (Inr (), p') \<and> pool_inv p' (filter (\<lambda>x. x \<noteq> b) xs) {} \<and> same_static p p' \<and>
    blocks p' = blocks (add_ref 1 b p)"
proof -
  note f = free_okD [OF inv]
  show ?thesis
  proof (cases "idle (blocks p ! b)")
    case True
    then have bx: "b \<in> set xs" using f(3) b by simp
    then have r: "fq_remove b (queue_of xs) = Inr (queue_of (remove1 b xs))" using remove_list(1) [OF f(2)] by simp
    have fl: "remove1 b xs = filter (\<lambda>x. x \<noteq> b) xs"
      using f(2) by (simp add: distinct_remove1_removeAll removeAll_filter_not_eq eq_commute)
    let ?q = "p\<lparr>free_block_queue := queue_of (remove1 b xs)\<rparr>"
    have q: "pool_inv ?q (remove1 b xs) {b}"
      by (rule pool_inv_queue [OF inv]) (use f(2,3) in auto)
    have "pool_inv (add_ref 1 b ?q) (remove1 b xs) {}"
      unfolding add_ref_def by (rule pool_inv_upd [OF q]) (use b True in \<open>auto simp: idle_def\<close>)
    moreover have "touch_block b p = (Inr (), add_ref 1 b ?q)"
      using True r f(1) by (simp add: touch_block_def Let_def on_queue_def idle_def)
    moreover have "same_static p (add_ref 1 b ?q)" by (simp add: same_static_def add_ref_def)
    moreover have "blocks (add_ref 1 b ?q) = blocks (add_ref 1 b p)" by (simp add: add_ref_def)
    ultimately show ?thesis using fl by auto
  next
    case False
    then have "b \<notin> set xs" using f(3) by simp
    then have fl: "filter (\<lambda>x. x \<noteq> b) xs = xs" by (auto simp: filter_id_conv)
    have ok: "\<And>i. i < length (blocks p) \<Longrightarrow> i \<noteq> null_block p \<Longrightarrow> 0 \<le> ref_cnt (blocks p ! i)"
      "\<And>i. i < length (blocks p) \<Longrightarrow> is_null (blocks p ! i) \<longleftrightarrow> i = null_block p"
      using inv by (simp_all add: pool_inv_def blocks_ok_def)
    have "pool_inv (add_ref 1 b p) xs {}"
      unfolding add_ref_def by (rule pool_inv_upd [OF inv]) (use b False ok(1) [OF b] ok(2) [OF b] in \<open>auto simp: idle_def\<close>)
    moreover have "touch_block b p = (Inr (), add_ref 1 b p)"
      using False by (auto simp: touch_block_def Let_def idle_def)
    moreover have "same_static p (add_ref 1 b p)" by (simp add: add_ref_def)
    ultimately show ?thesis using fl by auto
  qed
qed

end
