(* ===== verification/Pool_Ops.thy ===== *)
theory Pool_Ops
  imports Block_Pool
begin

text \<open>
  The operations of the block pool keep its invariant: what \<open>touch\<close>, \<open>free_blocks\<close>,
  \<open>cache_full_blocks\<close> and the rest do to the free list and to the reference counts, and the
  properties of the pool.
\<close>

section \<open>Touching and freeing\<close>

lemma pseq_append: "pseq f (xs @ ys) = pbind (pseq f xs) (\<lambda>_. pseq f ys)"
  by (induction xs) (auto simp: fun_eq_iff pbind_apply split: sum.splits)

lemma pseq_concat: "pseq (pseq f) xss = pseq f (concat xss)"
  by (induction xss) (simp_all add: pseq_append)

definition with_refs :: "(nat \<Rightarrow> int) \<Rightarrow> block_pool \<Rightarrow> block_pool \<Rightarrow> bool" where
  "with_refs d p p' \<longleftrightarrow> same_static p p' \<and>
     (\<forall>i < length (blocks p). blocks p' ! i = (blocks p ! i)\<lparr>ref_cnt := ref_cnt (blocks p ! i) + d i\<rparr>)"

lemma with_refs_trans: "with_refs d p q \<Longrightarrow> with_refs e q r \<Longrightarrow> with_refs (\<lambda>i. d i + e i) p r"
  using same_static_trans by (fastforce simp: with_refs_def same_static_def algebra_simps)

lemma touch_effect:
  assumes "pool_inv p xs {}" "set bs \<subseteq> {..<length (blocks p)}"
  shows "\<exists>p'. pseq touch_block bs p = (Inr (), p') \<and> pool_inv p' (filter (\<lambda>x. x \<notin> set bs) xs) {} \<and>
    with_refs (\<lambda>i. int (count_list bs i)) p p'"
  using assms
proof (induction bs arbitrary: p xs)
  case Nil
  then show ?case by (auto simp: with_refs_def)
next
  case (Cons b bs)
  obtain q where q: "touch_block b p = (Inr (), q)" "pool_inv q (filter (\<lambda>x. x \<noteq> b) xs) {}" "same_static p q"
    "blocks q = blocks (add_ref 1 b p)"
    using touch_effect1 [OF Cons.prems(1), of b] Cons.prems(2) by auto
  have w: "with_refs (\<lambda>i. if i = b then 1 else 0) p q" using q(3,4) by (simp add: with_refs_def)
  obtain p' where p': "pseq touch_block bs q = (Inr (), p')"
    "pool_inv p' (filter (\<lambda>x. x \<notin> set bs) (filter (\<lambda>x. x \<noteq> b) xs)) {}" "with_refs (\<lambda>i. int (count_list bs i)) q p'"
    using Cons.IH [OF q(2)] Cons.prems(2) same_static_len [OF q(3)] by auto
  have "with_refs (\<lambda>i. int (count_list (b # bs) i)) p p'"
    using with_refs_trans [OF w p'(3)] by (auto simp: with_refs_def)
  moreover have "filter (\<lambda>x. x \<notin> set bs) (filter (\<lambda>x. x \<noteq> b) xs) = filter (\<lambda>x. x \<notin> set (b # bs)) xs"
    by (simp add: conj_commute)
  ultimately show ?case using q(1) p'(1,2) by auto
qed

lemma fold_add_ref:
  "with_refs (\<lambda>i. d * int (count_list bs i)) p (fold (add_ref d) bs p) \<and>
   free_block_queue (fold (add_ref d) bs p) = free_block_queue p \<and>
   cached_block_hash_to_block (fold (add_ref d) bs p) = cached_block_hash_to_block p"
proof (induction bs arbitrary: p)
  case (Cons b bs)
  have "with_refs (\<lambda>i. if i = b then d else 0) p (add_ref d b p)" by (simp add: with_refs_def add_ref_def nth_list_update)
  from with_refs_trans [OF this conjunct1 [OF Cons.IH]]
  have "with_refs (\<lambda>i. d * int (count_list (b # bs) i)) p (fold (add_ref d) (b # bs) p)"
    by (auto simp: with_refs_def algebra_simps)
  moreover have "free_block_queue (add_ref d b p) = free_block_queue p"
    "cached_block_hash_to_block (add_ref d b p) = cached_block_hash_to_block p" by (simp_all add: add_ref_def)
  ultimately show ?case using Cons.IH [of "add_ref d b p"] by simp
qed (simp add: with_refs_def)

lemma distinct_filter_count:
  "(\<And>b. b \<in> set bs \<Longrightarrow> P b \<Longrightarrow> count_list bs b = 1) \<Longrightarrow> distinct (filter P bs)"
proof (induction bs)
  case (Cons a bs)
  have "a \<notin> set bs" if "P a" using Cons.prems [of a] that by (simp add: count_list_0_iff)
  moreover have "count_list bs b = 1" if "b \<in> set bs" "P b" for b
    using Cons.prems [of b] that \<open>P a \<Longrightarrow> a \<notin> set bs\<close> by (auto split: if_splits)
  ultimately show ?case using Cons.IH by simp
qed simp

lemma with_refs_cache:
  assumes "with_refs d p q" "cached_block_hash_to_block q = cached_block_hash_to_block p" "cache_ok p"
  shows "cache_ok q"
  using assms by (auto simp: with_refs_def same_static_def cache_ok_def)

lemma free_effect:
  assumes inv: "pool_inv p xs {}" and bs: "set bs \<subseteq> {..<length (blocks p)}"
    and held: "\<And>b. b \<in> set bs \<Longrightarrow> b \<noteq> null_block p \<Longrightarrow> count_list bs b = 1 \<and> 0 < ref_cnt (blocks p ! b)"
  shows "\<exists>p'. free_blocks bs p = (Inr (), p') \<and> pool_inv p' (xs @ filter (\<lambda>b. idle (blocks p' ! b)) bs) {} \<and>
    with_refs (\<lambda>i. - int (count_list bs i)) p p'"
proof -
  note f = free_okD [OF inv]
  define q where "q = fold (add_ref (-1)) bs p"
  have w: "with_refs (\<lambda>i. - int (count_list bs i)) p q" "free_block_queue q = free_block_queue p"
    "cached_block_hash_to_block q = cached_block_hash_to_block p"
    using fold_add_ref [of "-1" bs p] by (simp_all add: q_def)
  have st: "same_static p q" using w(1) by (simp add: with_refs_def)
  have nth: "blocks q ! i = (blocks p ! i)\<lparr>ref_cnt := ref_cnt (blocks p ! i) - int (count_list bs i)\<rparr>"
    if "i < length (blocks p)" for i using w(1) that by (simp add: with_refs_def)
  have bo: "blocks_ok p" "cache_ok p" using inv by (simp_all add: pool_inv_def)
  have "blocks_ok q"
  proof -
    have "0 \<le> ref_cnt (blocks p ! i) - int (count_list bs i)" if "i < length (blocks p)" "i \<noteq> null_block p" for i
      using bo(1) held [of i] that by (cases "i \<in> set bs") (auto simp: blocks_ok_def)
    then show ?thesis using bo(1) st nth by (simp add: blocks_ok_def same_static_def)
  qed
  let ?ys = "filter (\<lambda>b. idle (blocks q ! b)) bs"
  have notnull: "b \<noteq> null_block p" if "b \<in> set ?ys" for b
    using that bo(1) bs nth [of b] by (auto simp: blocks_ok_def idle_def)
  have c1: "count_list bs b = 1" if "b \<in> set ?ys" for b using held notnull that by simp
  have dy: "distinct ?ys"
    by (rule distinct_filter_count) (use c1 in simp)
  have len: "length (blocks q) = length (blocks p)" using st by (simp add: same_static_def)
  have out: "i \<notin> set xs" if "i \<in> set bs" for i
  proof
    assume "i \<in> set xs"
    then have i: "i < length (blocks p)" "ref_cnt (blocks p ! i) = 0" "\<not> is_null (blocks p ! i)"
      using f(3) by (simp_all add: idle_def)
    then have "i \<noteq> null_block p" using bo(1) by (auto simp: blocks_ok_def)
    then show False using held [OF that] i(2) by simp
  qed
  then have dis: "set xs \<inter> set ?ys = {}" unfolding set_filter by blast
  have m: "i \<in> set (xs @ ?ys) \<longleftrightarrow> i < length (blocks q) \<and> idle (blocks q ! i) \<and> i \<notin> {}" for i
  proof (cases "i \<in> set bs")
    case True
    then have "i < length (blocks q)" using bs len by auto
    then show ?thesis using True out [OF True] by simp
  next
    case False
    then have "i < length (blocks p) \<Longrightarrow> blocks q ! i = blocks p ! i" using nth [of i] by simp
    then show ?thesis using False len f(3) [of i] by auto
  qed
  have "append_n ?ys (queue_of xs) = Inr (queue_of (xs @ ?ys))"
    using f(2) dy dis by (intro append_n_list) auto
  then have run: "free_blocks bs p = (Inr (), q\<lparr>free_block_queue := queue_of (xs @ ?ys)\<rparr>)"
    using w(2) f(1) by (simp add: free_blocks_def q_def [symmetric] on_queue_def)
  moreover have "pool_inv (q\<lparr>free_block_queue := queue_of (xs @ ?ys)\<rparr>) (xs @ ?ys) {}"
  proof -
    have "distinct (xs @ ?ys)" using f(2) dy dis by auto
    then show ?thesis
      using \<open>blocks_ok q\<close> with_refs_cache [OF w(1,3) bo(2)] m by (simp add: pool_inv_def blocks_ok_def cache_ok_def free_ok_def)
  qed
  moreover have "with_refs (\<lambda>i. - int (count_list bs i)) p (q\<lparr>free_block_queue := queue_of (xs @ ?ys)\<rparr>)"
    using w(1) by (simp add: with_refs_def same_static_def)
  ultimately show ?thesis by auto
qed

section \<open>Caching and evicting\<close>

definition same_refs :: "block_pool \<Rightarrow> block_pool \<Rightarrow> bool" where
  "same_refs p p' \<longleftrightarrow> same_static p p' \<and>
     (\<forall>i < length (blocks p). blocks p' ! i = (blocks p ! i)\<lparr>b_hash := b_hash (blocks p' ! i)\<rparr>)"

lemma same_refs_refl [simp]: "same_refs p p"
  by (simp add: same_refs_def)

lemma same_refs_trans: "same_refs p q \<Longrightarrow> same_refs q r \<Longrightarrow> same_refs p r"
proof -
  assume a: "same_refs p q" "same_refs q r"
  have "blocks r ! i = (blocks p ! i)\<lparr>b_hash := b_hash (blocks r ! i)\<rparr>" if "i < length (blocks p)" for i
  proof -
    have q: "blocks q ! i = (blocks p ! i)\<lparr>b_hash := b_hash (blocks q ! i)\<rparr>"
      and r: "blocks r ! i = (blocks q ! i)\<lparr>b_hash := b_hash (blocks r ! i)\<rparr>"
      using a that by (auto simp: same_refs_def same_static_def)
    show ?thesis by (subst r, subst q) simp
  qed
  moreover have "same_static p r" using a same_static_trans by (auto simp: same_refs_def)
  ultimately show ?thesis by (simp add: same_refs_def)
qed

lemma same_refs_upd:
  assumes "same_static p q" "blocks q = (blocks p)[b := (blocks p ! b)\<lparr>b_hash := h\<rparr>]"
  shows "same_refs p q"
  unfolding same_refs_def
proof (intro conjI allI impI)
  fix i assume "i < length (blocks p)"
  then show "blocks q ! i = (blocks p ! i)\<lparr>b_hash := b_hash (blocks q ! i)\<rparr>"
    unfolding assms(2) by (cases "i = b") simp_all
qed (rule assms(1))

text \<open>Entering a block that has no hash into the table.\<close>

definition enter :: "bytes \<Rightarrow> nat \<Rightarrow> block_pool \<Rightarrow> block_pool" where
  "enter key b p =
     (upd_block b (\<lambda>x. x\<lparr>b_hash := Some key\<rparr>) p)\<lparr>cached_block_hash_to_block := hm_insert key b (cached_block_hash_to_block p)\<rparr>"

lemma enter_effect:
  assumes inv: "pool_inv p xs S" and b: "b < length (blocks p)" "b_hash (blocks p ! b) = None"
  shows "pool_inv (enter key b p) xs S" "same_refs p (enter key b p)"
    "blocks (enter key b p) = (blocks p)[b := (blocks p ! b)\<lparr>b_hash := Some key\<rparr>]"
proof -
  have c: "hm_ok (cached_block_hash_to_block p)"
    "\<And>k i. i \<in> set (ids_of (cached_block_hash_to_block p) k) \<longleftrightarrow> i < length (blocks p) \<and> b_hash (blocks p ! i) = Some k"
    using inv by (simp_all add: pool_inv_def cache_ok_def)
  have "cache_ok (enter key b p)"
    using c b by (auto simp: cache_ok_def enter_def hm_insert_ok ids_insert dict_add_def nth_list_update)
  moreover have "blocks_ok (enter key b p)" "free_ok (enter key b p) xs S"
    using inv b by (auto simp: pool_inv_def blocks_ok_def free_ok_def enter_def nth_list_update idle_def)
  ultimately show "pool_inv (enter key b p) xs S" by (simp add: pool_inv_def)
  show "blocks (enter key b p) = (blocks p)[b := (blocks p ! b)\<lparr>b_hash := Some key\<rparr>]" by (simp add: enter_def)
  then show "same_refs p (enter key b p)"
    by (intro same_refs_upd) (simp_all add: same_static_def enter_def)
qed

lemma cache_loop_Cons:
  "cache_loop gid (b # bs) hs new p =
     (if b_hash (blocks p ! b) \<noteq> None then (Inl AssertionError, p)
      else case hs of
          [] \<Rightarrow> (Inl IndexError, p)
        | h # hs' \<Rightarrow> (case make_block_hash_with_group_id h gid of
              Inl e \<Rightarrow> (Inl e, p)
            | Inr key \<Rightarrow> cache_loop gid bs hs' (new @ [h]) (enter key b p)))"
  by (auto simp: pbind_def store_hash_def set_block_hash_def enter_def upd_block_def split: list.splits sum.splits)

declare cache_loop.simps(2) [simp del]

lemma cache_loop_keeps:
  assumes "pool_inv p xs S" "set bs \<subseteq> {..<length (blocks p)}"
  shows "pool_inv (snd (cache_loop gid bs hs new p)) xs S" "same_refs p (snd (cache_loop gid bs hs new p))"
proof -
  have "pool_inv (snd (cache_loop gid bs hs new p)) xs S \<and> same_refs p (snd (cache_loop gid bs hs new p))"
    using assms
  proof (induction bs arbitrary: hs new p)
    case (Cons b bs)
    show ?case
    proof (cases "b_hash (blocks p ! b) = None \<and> hs \<noteq> [] \<and> (\<exists>key. make_block_hash_with_group_id (hd hs) gid = Inr key)")
      case True
      then obtain h hs' key where h: "b_hash (blocks p ! b) = None" "hs = h # hs'" "make_block_hash_with_group_id h gid = Inr key"
        by (cases hs) auto
      have e: "pool_inv (enter key b p) xs S" "same_refs p (enter key b p)" "length (blocks (enter key b p)) = length (blocks p)"
        using enter_effect [OF Cons.prems(1) _ h(1)] Cons.prems(2) by auto
      then show ?thesis
        using Cons.IH [OF e(1)] Cons.prems(2) same_refs_trans [OF e(2)] h by (simp add: cache_loop_Cons)
    next
      case False
      then have "snd (cache_loop gid (b # bs) hs new p) = p"
        by (cases hs) (auto simp: cache_loop_Cons split: sum.splits)
      then show ?thesis using Cons.prems by simp
    qed
  qed simp
  then show "pool_inv (snd (cache_loop gid bs hs new p)) xs S" "same_refs p (snd (cache_loop gid bs hs new p))" by blast+
qed

lemma parent_hash_state: "snd (parent_hash bs n p) = p"
  by (auto simp: parent_hash_def pbind_def split: sum.splits option.splits)

definition stored_event :: "request \<Rightarrow> int \<Rightarrow> int \<Rightarrow> int \<Rightarrow> bytes list \<Rightarrow> external_hash option \<Rightarrow> block_pool \<Rightarrow> block_pool" where
  "stored_event r nc nf bsize new parent p =
     add_event (BlockStored (map (maybe_convert_block_hash (use_int_hashes p)) new) parent
       (py_slice (nc * bsize) (nf * bsize) (all_token_ids r)) bsize (map_option snd (lora_request r)) medium_gpu) p"

lemma cache_full_eq:
  "nc < nf \<Longrightarrow> nf \<le> int (length (block_hashes r)) \<Longrightarrow> new_block_hashes p r bsize nc = Inr hs \<Longrightarrow>
   cache_loop gid (py_slice nc nf bs) hs [] p = (Inl e, q) \<Longrightarrow>
     cache_full_blocks r bs nc nf bsize gid p = (Inl e, q)"
  "nc < nf \<Longrightarrow> nf \<le> int (length (block_hashes r)) \<Longrightarrow> new_block_hashes p r bsize nc = Inr hs \<Longrightarrow>
   cache_loop gid (py_slice nc nf bs) hs [] p = (Inr new, q) \<Longrightarrow>
     cache_full_blocks r bs nc nf bsize gid p =
       (if enable_kv_cache_events q
        then case fst (parent_hash bs nc q) of
            Inl e \<Rightarrow> (Inl e, q)
          | Inr parent \<Rightarrow> (Inr (), stored_event r nc nf bsize new parent q)
        else (Inr (), q))"
  by (simp_all add: cache_full_blocks_def stored_event_def pbind_apply parent_hash_state split: sum.splits)

lemma cache_full_skip:
  "nf \<le> nc \<Longrightarrow> cache_full_blocks r bs nc nf bsize gid p = (Inr (), p)"
  "nc < nf \<Longrightarrow> int (length (block_hashes r)) < nf \<Longrightarrow> cache_full_blocks r bs nc nf bsize gid p = (Inl AssertionError, p)"
  "nc < nf \<Longrightarrow> nf \<le> int (length (block_hashes r)) \<Longrightarrow> new_block_hashes p r bsize nc = Inl e \<Longrightarrow>
     cache_full_blocks r bs nc nf bsize gid p = (Inl e, p)"
  by (simp_all add: cache_full_blocks_def)

lemma cache_full_state:
  obtains "snd (cache_full_blocks r bs nc nf bsize gid p) = p"
  | hs where "snd (cache_full_blocks r bs nc nf bsize gid p) = snd (cache_loop gid (py_slice nc nf bs) hs [] p)"
  | hs new par where "snd (cache_full_blocks r bs nc nf bsize gid p) =
      stored_event r nc nf bsize new par (snd (cache_loop gid (py_slice nc nf bs) hs [] p))"
proof -
  consider "nf \<le> nc" | "nc < nf" "int (length (block_hashes r)) < nf"
    | e where "nc < nf" "nf \<le> int (length (block_hashes r))" "new_block_hashes p r bsize nc = Inl e"
    | hs where "nc < nf" "nf \<le> int (length (block_hashes r))" "new_block_hashes p r bsize nc = Inr hs"
    by (cases "new_block_hashes p r bsize nc") (meson linorder_not_le)+
  then show ?thesis
  proof cases
    case (4 hs)
    obtain x q where q: "cache_loop gid (py_slice nc nf bs) hs [] p = (x, q)" by (cases "cache_loop gid (py_slice nc nf bs) hs [] p")
    show ?thesis
    proof (cases x)
      case (Inl e)
      then show ?thesis using cache_full_eq(1) [OF 4, of gid bs e q] q that(2) [of hs] by simp
    next
      case (Inr new)
      note eq = cache_full_eq(2) [OF 4, of gid bs new q, OF q [unfolded Inr]]
      have sq: "snd (cache_loop gid (py_slice nc nf bs) hs [] p) = q" using q by simp
      show ?thesis
      proof (cases "enable_kv_cache_events q")
        case True
        then show ?thesis
          using eq that(2) [of hs] that(3) [of new _ hs] by (cases "fst (parent_hash bs nc q)") (simp_all add: sq)
      next
        case False
        then show ?thesis using eq that(2) [of hs] by (simp add: sq)
      qed
    qed
  qed (use that(1) in \<open>simp_all add: cache_full_skip\<close>)
qed

lemma set_py_slice: "set (py_slice a b xs) \<subseteq> set xs"
  by (auto simp: py_slice_def Let_def dest: in_set_takeD in_set_dropD)

lemma cache_full_keeps:
  assumes "pool_inv p xs S" "set bs \<subseteq> {..<length (blocks p)}"
  shows "pool_inv (snd (cache_full_blocks r bs nc nf bsize gid p)) xs S"
    "same_refs p (snd (cache_full_blocks r bs nc nf bsize gid p))"
proof -
  have "set (py_slice nc nf bs) \<subseteq> {..<length (blocks p)}"
    by (rule subset_trans [OF set_py_slice assms(2)])
  note c = cache_loop_keeps [OF assms(1) this, of gid _ "[]"]
  have ev: "same_refs p (stored_event r nc nf bsize new par q) \<longleftrightarrow> same_refs p q"
    "pool_inv (stored_event r nc nf bsize new par q) xs S \<longleftrightarrow> pool_inv q xs S" for new par q
    unfolding same_refs_def same_static_def stored_event_def add_event_fields pool_inv_event by (rule refl)+
  have "pool_inv (snd (cache_full_blocks r bs nc nf bsize gid p)) xs S \<and>
      same_refs p (snd (cache_full_blocks r bs nc nf bsize gid p))"
  proof (rule cache_full_state [of r bs nc nf bsize gid p])
    assume eq: "snd (cache_full_blocks r bs nc nf bsize gid p) = p"
    show ?thesis unfolding eq using assms(1) by simp
  next
    fix hs assume eq: "snd (cache_full_blocks r bs nc nf bsize gid p) = snd (cache_loop gid (py_slice nc nf bs) hs [] p)"
    show ?thesis unfolding eq using c by blast
  next
    fix hs new par
    assume eq: "snd (cache_full_blocks r bs nc nf bsize gid p) =
      stored_event r nc nf bsize new par (snd (cache_loop gid (py_slice nc nf bs) hs [] p))"
    show ?thesis unfolding eq ev using c by blast
  qed
  then show "pool_inv (snd (cache_full_blocks r bs nc nf bsize gid p)) xs S"
    "same_refs p (snd (cache_full_blocks r bs nc nf bsize gid p))" by blast+
qed

lemma evict_blocks_keeps:
  assumes "pool_inv p xs S"
  shows "pool_inv (snd (evict_blocks ids p)) xs S" "same_refs p (snd (evict_blocks ids p))"
proof -
  have "pool_inv (snd (evict_blocks ids p)) xs S \<and> same_refs p (snd (evict_blocks ids p))"
    using assms
  proof (induction ids arbitrary: p)
    case (Cons b ids)
    show ?case
    proof (cases "b < length (blocks p)")
      case True
      let ?q = "snd (maybe_evict_cached_block b p)"
      have q: "pool_inv ?q xs S" "same_refs p ?q"
        using evict_effect [OF Cons.prems True] same_refs_upd by (simp_all add: reset_hash_def)
      then show ?thesis using Cons.IH [OF q(1)] same_refs_trans [OF q(2)] True by simp
    qed (use Cons.prems in simp)
  qed simp
  then show "pool_inv (snd (evict_blocks ids p)) xs S" "same_refs p (snd (evict_blocks ids p))" by blast+
qed

lemma reset_keeps:
  assumes "pool_inv p xs S"
  shows "pool_inv (snd (reset_prefix_cache p)) xs S"
proof -
  have "pool_inv (p\<lparr>cached_block_hash_to_block := [], blocks := map reset_hash (blocks p)\<rparr>) xs S"
    using assms by (auto simp: pool_inv_def blocks_ok_def cache_ok_def free_ok_def)
  then show ?thesis using assms by (simp add: reset_prefix_cache_def Let_def)
qed

lemma pool_init_ok:
  assumes "0 < n"
  shows "\<exists>p. pool_init n caching hbs ev ui = Inr p \<and> pool_inv p [1..<nat n] {} \<and> null_block p = 0 \<and>
    num_gpu_blocks p = n \<and> enable_caching p = caching \<and> hash_block_size p = hbs \<and>
    enable_kv_cache_events p = ev \<and> blocks p = (replicate (nat n) new_block)[0 := new_block\<lparr>is_null := True\<rparr>]"
proof -
  have up: "[0..<nat n] = 0 # [1..<nat n]" using assms by (simp add: upt_rec)
  let ?p = "upd_block 0 (\<lambda>x. x\<lparr>is_null := True\<rparr>)
    \<lparr>num_gpu_blocks = n, enable_caching = caching, hash_block_size = hbs, blocks = replicate (nat n) new_block,
     free_block_queue = queue_of [1..<nat n], cached_block_hash_to_block = [], null_block = 0,
     enable_kv_cache_events = ev, kv_event_queue = [], use_int_hashes = ui\<rparr>"
  have "fq_init [0..<nat n] = queue_of [0..<nat n]" by (rule init_list) simp
  also have "popleft (queue_of [0..<nat n]) = Inr (0, queue_of [1..<nat n])"
    unfolding up by (rule popleft_list(2)) simp
  finally have "pool_init n caching hbs ev ui = Inr ?p" using assms by (simp add: pool_init_def)
  moreover have "pool_inv ?p [1..<nat n] {}"
    using assms by (auto simp: pool_inv_def blocks_ok_def cache_ok_def free_ok_def nth_list_update new_block_def idle_def)
  ultimately show ?thesis using assms by simp
qed

lemma cache_loop_hashes:
  assumes "pool_inv p xs S" "set bs \<subseteq> {..<length (blocks p)}" "cache_loop gid bs hs new p = (Inr new', p')"
  shows "(\<forall>i < length (blocks p). b_hash (blocks p ! i) \<noteq> None \<longrightarrow> b_hash (blocks p' ! i) = b_hash (blocks p ! i)) \<and>
    length bs \<le> length hs \<and> new' = new @ take (length bs) hs \<and>
    (\<forall>j < length bs. \<exists>key. make_block_hash_with_group_id (hs ! j) gid = Inr key \<and> b_hash (blocks p' ! (bs ! j)) = Some key)"
  using assms
proof (induction bs arbitrary: hs new p)
  case (Cons b bs)
  then obtain h hs' key where h: "b_hash (blocks p ! b) = None" "hs = h # hs'" "make_block_hash_with_group_id h gid = Inr key"
    and run: "cache_loop gid bs hs' (new @ [h]) (enter key b p) = (Inr new', p')"
    by (auto simp: cache_loop_Cons split: if_splits list.splits sum.splits)
  have b: "b < length (blocks p)" using Cons.prems(2) by simp
  note e = enter_effect [OF Cons.prems(1) b h(1), of key]
  have len: "length (blocks (enter key b p)) = length (blocks p)" using e(3) by simp
  have IH: "(\<forall>i < length (blocks p). b_hash (blocks (enter key b p) ! i) \<noteq> None \<longrightarrow>
        b_hash (blocks p' ! i) = b_hash (blocks (enter key b p) ! i)) \<and>
      length bs \<le> length hs' \<and> new' = (new @ [h]) @ take (length bs) hs' \<and>
      (\<forall>j < length bs. \<exists>key. make_block_hash_with_group_id (hs' ! j) gid = Inr key \<and> b_hash (blocks p' ! (bs ! j)) = Some key)"
    using Cons.IH [OF e(1) _ run] Cons.prems(2) len by simp
  have kb: "b_hash (blocks p' ! b) = Some key" using IH b e(3) by simp
  have "b_hash (blocks p' ! i) = b_hash (blocks p ! i)" if "i < length (blocks p)" "b_hash (blocks p ! i) \<noteq> None" for i
  proof -
    have "i \<noteq> b" using that h(1) by auto
    then show ?thesis using IH that e(3) by simp
  qed
  moreover have "\<exists>key. make_block_hash_with_group_id (hs ! j) gid = Inr key \<and> b_hash (blocks p' ! ((b # bs) ! j)) = Some key"
    if "j < length (b # bs)" for j
    using that IH kb h by (cases j) simp_all
  ultimately show ?case using IH h(2) by simp
qed simp

section \<open>Properties of the pool\<close>

definition demo_pool :: block_pool where
  "demo_pool = projr (pool_init 4 True 2 False False)"

lemma demo_pool_inv:
  "pool_inv demo_pool [1, 2, 3] {}" "length (blocks demo_pool) = 4" "null_block demo_pool = 0"
  "hash_block_size demo_pool = 2" "enable_caching demo_pool" "\<forall>i < 4. b_hash (blocks demo_pool ! i) = None"
  "\<not> enable_kv_cache_events demo_pool"
  using pool_init_ok [of 4 True 2 False False] by (auto simp: demo_pool_def upt_rec numeral_eq_Suc nth_Cons' new_block_def)

text \<open>
  C20. Allocation takes the blocks that were freed first: asking for \<open>n\<close> blocks raises \<open>ValueError\<close>
  if fewer are free and otherwise returns the first \<open>n\<close> of the free list, all idle, none pinned;
  each is referenced once and has lost its hash if caching is on, and no other block changes.
\<close>

theorem allocation_takes_oldest:
  assumes inv: "pool_inv p xs {}" and n: "0 \<le> n"
  shows "if int (length xs) < n then get_new_blocks n p = (Inl ValueError, p)
    else \<exists>p'. get_new_blocks n p = (Inr (take (nat n) xs), p') \<and> pool_inv p' (drop (nat n) xs) {} \<and>
      (\<forall>i < length (blocks p).
         if i \<in> set (take (nat n) xs)
         then idle (blocks p ! i) \<and> \<not> pinned (blocks p ! i) \<and> blocks p' ! i = claimed (enable_caching p) (blocks p ! i)
         else blocks p' ! i = blocks p ! i)"
proof (cases "int (length xs) < n")
  case True
  then show ?thesis using free_okD(4) [OF inv] by (simp add: get_new_blocks_def)
next
  case False
  then have "nat n \<le> length xs" using n by linarith
  from new_blocks_effect [OF inv this] n
  obtain p' where p': "get_new_blocks n p = (Inr (take (nat n) xs), p')" "pool_inv p' (drop (nat n) xs) {}"
    "\<And>i. blocks p' ! i = (if i \<in> set (take (nat n) xs) then claimed (enable_caching p) (blocks p ! i) else blocks p ! i)" by auto
  have "idle (blocks p ! i)" if "i \<in> set (take (nat n) xs)" for i
    using free_okD(3) [OF inv, of i] in_set_takeD [OF that] by simp
  then show ?thesis using False p' by (auto simp: idle_def)
qed

theorem allocation_takes_oldest_witness:
  "\<exists>p'. get_new_blocks 2 demo_pool = (Inr [1, 2], p') \<and> pool_inv p' [3] {}"
  using allocation_takes_oldest [OF demo_pool_inv(1), of 2] by (auto simp: numeral_eq_Suc)

text \<open>
  C35. Touching the blocks of a request and freeing them again leaves every reference count as it
  was; of these blocks, the ones that were free before end up at the tail of the free list, in
  the order in which they are given back, and the other free blocks keep their order before them.
\<close>

theorem touch_free_roundtrip:
  assumes inv: "pool_inv p xs {}" and bs: "set bs \<subseteq> {..<length (blocks p)}" "distinct bs" "null_block p \<notin> set bs"
  shows "\<exists>p1 p2. touch [bs] p = (Inr (), p1) \<and> free_blocks bs p1 = (Inr (), p2) \<and>
    pool_inv p1 (filter (\<lambda>x. x \<notin> set bs) xs) {} \<and>
    pool_inv p2 (filter (\<lambda>x. x \<notin> set bs) xs @ filter (\<lambda>b. b \<in> set xs) bs) {} \<and>
    (\<forall>i < length (blocks p). blocks p2 ! i = blocks p ! i)"
proof -
  obtain p1 where p1: "pseq touch_block bs p = (Inr (), p1)" "pool_inv p1 (filter (\<lambda>x. x \<notin> set bs) xs) {}"
    "with_refs (\<lambda>i. int (count_list bs i)) p p1" using touch_effect [OF inv bs(1)] by blast
  have st: "length (blocks p1) = length (blocks p)" "null_block p1 = null_block p"
    using p1(3) by (simp_all add: with_refs_def same_static_def)
  have held: "count_list bs b = 1 \<and> 0 < ref_cnt (blocks p1 ! b)" if "b \<in> set bs" for b
  proof -
    have "count_list bs b = 1" using bs(2) that by (simp add: count_list_eq_length_filter distinct_length_filter)
    moreover have "0 \<le> ref_cnt (blocks p ! b)"
      using inv bs that by (auto simp: pool_inv_def blocks_ok_def)
    ultimately show ?thesis using p1(3) bs(1) that by (auto simp: with_refs_def)
  qed
  obtain p2 where p2: "free_blocks bs p1 = (Inr (), p2)"
    "pool_inv p2 (filter (\<lambda>x. x \<notin> set bs) xs @ filter (\<lambda>b. idle (blocks p2 ! b)) bs) {}"
    "with_refs (\<lambda>i. - int (count_list bs i)) p1 p2"
    using free_effect [OF p1(2), of bs] held bs(1) unfolding st by blast
  have same: "blocks p2 ! i = blocks p ! i" if "i < length (blocks p)" for i
    using p1(3) p2(3) st that by (simp add: with_refs_def)
  have "filter (\<lambda>b. idle (blocks p2 ! b)) bs = filter (\<lambda>b. b \<in> set xs) bs"
    using same bs(1) free_okD(3) [OF inv] by (intro filter_cong) auto
  then show ?thesis using p1(1,2) p2 same by (auto simp: touch_def)
qed

theorem touch_free_roundtrip_witness:
  "\<exists>p1 p2. touch [[2, 1]] demo_pool = (Inr (), p1) \<and> free_blocks [2, 1] p1 = (Inr (), p2) \<and> pool_inv p2 [3, 2, 1] {}"
proof -
  have "set [2, 1] \<subseteq> {..<length (blocks demo_pool)}" "distinct [2, 1::nat]" "null_block demo_pool \<notin> set [2, 1]"
    by (simp_all add: demo_pool_inv)
  from touch_free_roundtrip [OF demo_pool_inv(1) this] show ?thesis by (simp del: One_nat_def) blast
qed

lemma get_cached_cases:
  assumes inv: "pool_inv p xs S"
  shows "\<forall>g \<in> set gs. 0 \<le> g \<and> g < 2 ^ 32 \<Longrightarrow>
    \<exists>r. get_cached_block p h gs = Inr r \<and>
      (r = None \<longleftrightarrow> (\<exists>g \<in> set gs. \<forall>i < length (blocks p). b_hash (blocks p ! i) \<noteq> Some (projr (make_block_hash_with_group_id h g)))) \<and>
      (\<forall>bs. r = Some bs \<longrightarrow> list_all2 (\<lambda>g b. b < length (blocks p) \<and>
         b_hash (blocks p ! b) = Some (projr (make_block_hash_with_group_id h g))) gs bs)"
proof (induction gs)
  case (Cons g gs)
  let ?c = "cached_block_hash_to_block p"
  obtain key where key: "make_block_hash_with_group_id h g = Inr key" using Cons.prems by (simp add: make_key_cases)
  have c: "hm_ok ?c" "\<And>k i. i \<in> set (ids_of ?c k) \<longleftrightarrow> i < length (blocks p) \<and> b_hash (blocks p ! i) = Some k"
    using inv by (simp_all add: pool_inv_def cache_ok_def)
  obtain r where r: "get_cached_block p h gs = Inr r"
    "r = None \<longleftrightarrow> (\<exists>g \<in> set gs. \<forall>i < length (blocks p). b_hash (blocks p ! i) \<noteq> Some (projr (make_block_hash_with_group_id h g)))"
    "\<And>bs. r = Some bs \<Longrightarrow> list_all2 (\<lambda>g b. b < length (blocks p) \<and>
         b_hash (blocks p ! b) = Some (projr (make_block_hash_with_group_id h g))) gs bs"
    using Cons by auto
  show ?case
  proof (cases "ids_of ?c key")
    case Nil
    then have "\<forall>i < length (blocks p). b_hash (blocks p ! i) \<noteq> Some key" using c(2) [of _ key] by auto
    moreover have "get_cached_block p h (g # gs) = Inr None"
      using key get_one_block_ids [OF c(1), of key] Nil by simp
    ultimately show ?thesis using key by auto
  next
    case (Cons b bs)
    then have b: "b < length (blocks p)" "b_hash (blocks p ! b) = Some key" using c(2) [of b key] by auto
    have "get_cached_block p h (g # gs) = Inr (map_option ((#) b) r)"
      using key get_one_block_ids [OF c(1), of key] Cons r(1) by simp
    then show ?thesis using r(2,3) b key by auto
  qed
qed simp

text \<open>
  C36. A lookup finds what is cached: for groups of 32-bit ids it returns a block for every group,
  each stored under the hash and that group, and a miss exactly if some group has no such block.
\<close>

theorem cached_lookup_correct:
  assumes "pool_inv p xs S" "\<forall>g \<in> set gs. 0 \<le> g \<and> g < 2 ^ 32"
  shows "\<exists>r. get_cached_block p h gs = Inr r \<and>
      (r = None \<longleftrightarrow> (\<exists>g \<in> set gs. \<forall>i < length (blocks p). b_hash (blocks p ! i) \<noteq> Some (projr (make_block_hash_with_group_id h g)))) \<and>
      (\<forall>bs. r = Some bs \<longrightarrow> list_all2 (\<lambda>g b. b < length (blocks p) \<and>
         b_hash (blocks p ! b) = Some (projr (make_block_hash_with_group_id h g))) gs bs)"
  by (rule get_cached_cases) (rule assms)+

lemma demo_entered: "pool_inv (enter [9, 0, 0, 0, 0] 2 demo_pool) [1, 2, 3] {}"
proof -
  have "b_hash (blocks demo_pool ! 2) = None"
    using demo_pool_inv(6) by simp
  from enter_effect(1) [OF demo_pool_inv(1) _ this] show ?thesis by (simp add: demo_pool_inv)
qed

theorem cached_lookup_correct_witness:
  "\<exists>r. get_cached_block (enter [9, 0, 0, 0, 0] 2 demo_pool) [9] [0] = Inr (Some r)"
proof -
  let ?p = "enter [9, 0, 0, 0, 0] 2 demo_pool"
  have k: "make_block_hash_with_group_id [9] 0 = Inr [9, 0, 0, 0, 0]" by (simp add: make_key_cases to_bytes4_def)
  have b: "2 < length (blocks ?p)" "b_hash (blocks ?p ! 2) = Some [9, 0, 0, 0, 0]"
    by (simp_all add: enter_def demo_pool_inv)
  obtain r where "get_cached_block ?p [9] [0] = Inr r"
    "r = None \<longleftrightarrow> (\<forall>i < length (blocks ?p). b_hash (blocks ?p ! i) \<noteq> Some [9, 0, 0, 0, 0])"
    using cached_lookup_correct [OF demo_entered, of "[0]" "[9]"] k by auto
  then show ?thesis using b by (cases r) auto
qed

lemma group_lookup:
  assumes "pool_inv p xs S" "i < length (blocks p)" "b_hash (blocks p ! i) = Some key" "make_block_hash_with_group_id h g = Inr key"
  shows "\<exists>b. get_cached_block p h [g] = Inr (Some [b]) \<and> b < length (blocks p) \<and> b_hash (blocks p ! b) = Some key"
proof -
  let ?c = "cached_block_hash_to_block p"
  have c: "hm_ok ?c" "\<And>k i. i \<in> set (ids_of ?c k) \<longleftrightarrow> i < length (blocks p) \<and> b_hash (blocks p ! i) = Some k"
    using assms(1) by (simp_all add: pool_inv_def cache_ok_def)
  have "i \<in> set (ids_of ?c key)" using c(2) assms(2,3) by simp
  then obtain b bs where b: "ids_of ?c key = b # bs" by (cases "ids_of ?c key") auto
  then have "b < length (blocks p) \<and> b_hash (blocks p ! b) = Some key" using c(2) [of b key] by simp
  moreover have "get_cached_block p h [g] = Inr (Some [b])"
    using assms(4) get_one_block_ids [OF c(1), of key] b by simp
  ultimately show ?thesis by blast
qed

text \<open>The hashes \<open>cache_full_blocks\<close> stores, at any block size that is a multiple of the hash block size.\<close>

lemma new_hashes_groups:
  assumes "new_block_hashes p r bsize nc = Inr hs" "0 < hash_block_size p" "0 < bsize" "0 \<le> nc"
  obtains n where "0 < n" "bsize = int n * hash_block_size p" "hs = drop (nat nc) (group_hashes n (block_hashes r))"
proof (cases "bsize = hash_block_size p")
  case True
  then show ?thesis using assms that [of 1] by (simp add: new_block_hashes_def py_slice_nat)
next
  case False
  let ?n = "nat (bsize div hash_block_size p)"
  obtain s where s: "scaled_init (block_hashes r) (hash_block_size p) bsize = Inr s" "scaled_from s nc = Inr hs"
    using assms(1) False by (auto simp: new_block_hashes_def py_simps)
  then have d: "hash_block_size p dvd bsize" "s = \<lparr>s_hashes = block_hashes r, scale_factor = bsize div hash_block_size p\<rparr>"
    by (simp_all add: scaled_init_iff [OF assms(2)])
  have "0 < bsize div hash_block_size p" using d(1) assms(2,3) by (simp add: pos_imp_zdiv_pos_iff zdvd_imp_le)
  then have n: "0 < ?n" "int ?n = bsize div hash_block_size p" by simp_all
  moreover have "bsize = int ?n * hash_block_size p" using d(1) n(2) by simp
  moreover have "hs = drop (nat nc) (group_hashes ?n (block_hashes r))"
    using scaled_from_groups [OF n(1) assms(4), of "block_hashes r"] s(2) d(2) n(2) by simp
  ultimately show ?thesis using that by blast
qed

text \<open>
  C37. What is cached is found, at every block size: when \<open>cache_full_blocks\<close> stores full blocks of a
  request without error, the block size is a multiple \<open>n\<close> of the size the hashes are computed at,
  and for each block \<open>j\<close> it stored, the hash of that block, the \<open>n\<close> hashes of the request that it
  spans joined together (for \<open>n = 1\<close> hash \<open>j\<close> itself), has become the key of the block, together with
  the group, and a lookup of it hits, with a block that carries this key; the free list is
  unchanged. Both sizes are positive.
\<close>

theorem cache_then_lookup:
  assumes inv: "pool_inv p xs {}" and bs: "set bs \<subseteq> {..<length (blocks p)}"
    and B: "0 < hash_block_size p" "0 < block_size"
    and run: "cache_full_blocks r bs nc nf block_size g p = (Inr (), p')"
    and j: "0 \<le> nc" "nc \<le> int j" "int j < nf" "j < length bs"
  shows "\<exists>n h key b. block_size = int n * hash_block_size p \<and> h = concat (take n (drop (j * n) (block_hashes r))) \<and>
    (j + 1) * n \<le> length (block_hashes r) \<and> make_block_hash_with_group_id h g = Inr key \<and>
    pool_inv p' xs {} \<and> b_hash (blocks p' ! (bs ! j)) = Some key \<and>
    get_cached_block p' h [g] = Inr (Some [b]) \<and> b_hash (blocks p' ! b) = Some key"
proof -
  have p': "pool_inv p' xs {}" "same_refs p p'"
    using cache_full_keeps [OF inv bs, of r nc nf block_size g] run by simp_all
  have lt: "nc < nf" using j by linarith
  have len: "nf \<le> int (length (block_hashes r))"
    using run lt cache_full_skip(2) [of nc nf r bs block_size g p] by (cases "int (length (block_hashes r)) < nf") simp_all
  obtain hs where nh: "new_block_hashes p r block_size nc = Inr hs"
    using run cache_full_skip(3) [OF lt len] by (cases "new_block_hashes p r block_size nc") simp_all
  obtain n where n: "0 < n" "block_size = int n * hash_block_size p" "hs = drop (nat nc) (group_hashes n (block_hashes r))"
    using new_hashes_groups [OF nh B j(1)] .
  let ?sl = "py_slice nc nf bs"
  obtain x q where q: "cache_loop g ?sl hs [] p = (x, q)" by (cases "cache_loop g ?sl hs [] p")
  then obtain new where x: "x = Inr new" using run cache_full_eq(1) [OF lt len nh] by (cases x) auto
  have "p' = q \<or> (\<exists>par. p' = stored_event r nc nf block_size new par q)"
    using cache_full_eq(2) [OF lt len nh, of g bs new q] q x run
    by (auto split: if_splits sum.splits)
  then have bl: "blocks p' = blocks q" by (auto simp: stored_event_def)
  have "set ?sl \<subseteq> {..<length (blocks p)}" by (rule subset_trans [OF set_py_slice bs])
  note h = cache_loop_hashes [OF inv this q [unfolded x]]
  have sl: "?sl = take (nat nf - nat nc) (drop (nat nc) bs)" using j by (simp add: py_slice_nat)
  have i: "j - nat nc < length ?sl" using j by (simp add: sl) linarith
  moreover have "length ?sl \<le> length (block_hashes r) div n - nat nc" using h n(3) by simp
  moreover have "nat nc \<le> j" using j by simp
  ultimately have lh: "j < length (block_hashes r) div n" by linarith
  let ?h = "concat (take n (drop (j * n) (block_hashes r)))"
  have "hs ! (j - nat nc) = ?h" using lh j n(3) by (simp add: group_hashes_nth group_hash_def)
  moreover have "?sl ! (j - nat nc) = bs ! j" using j by (simp add: sl)
  ultimately obtain key where key: "make_block_hash_with_group_id ?h g = Inr key" "b_hash (blocks p' ! (bs ! j)) = Some key"
    using h i bl by metis
  have "length (blocks p') = length (blocks p)" using p'(2) by (simp add: same_refs_def same_static_def)
  then have "bs ! j < length (blocks p')" using subsetD [OF bs nth_mem [OF j(4)]] by simp
  from group_lookup [OF p'(1) this key(2,1)] show ?thesis
    using p'(1) key n(2) group_inside [OF lh] by (auto simp: algebra_simps)
qed

text \<open>A pool that hashes two tokens at a time and stores blocks of four.\<close>

theorem cache_then_lookup_witness:
  "\<exists>p' b. cache_full_blocks (plain_request [1, 2, 3, 4, 5, 6, 7, 8]\<lparr>block_hashes := [[5], [6], [7], [8]]\<rparr>) [3, 1] 0 2 4 0 demo_pool = (Inr (), p') \<and>
     pool_inv p' [1, 2, 3] {} \<and> get_cached_block p' [7, 8] [0] = Inr (Some [b]) \<and> b_hash (blocks p' ! 1) = Some [7, 8, 0, 0, 0, 0]"
proof -
  let ?r = "plain_request [1, 2, 3, 4, 5, 6, 7, 8]\<lparr>block_hashes := [[5], [6], [7], [8]]\<rparr>"
  have nh: "new_block_hashes demo_pool ?r 4 0 = Inr [[5, 6], [7, 8]]"
    using scaled_from_groups [of 2 0 "[[5], [6], [7], [8]]"]
    by (simp add: plain_request_def new_block_hashes_def demo_pool_inv scaled_init_def group_hashes_def group_hash_def upt_rec)
  obtain p' where run: "cache_full_blocks ?r [3, 1] 0 2 4 0 demo_pool = (Inr (), p')"
    using cache_full_eq(2) [OF _ _ nh, of 2 0 "[3, 1]"]
    by (simp add: plain_request_def demo_pool_inv py_slice_nat cache_loop_Cons enter_def
        make_key_cases to_bytes4_def numeral_eq_Suc)
  have b: "set [3, 1] \<subseteq> {..<length (blocks demo_pool)}" by (simp add: demo_pool_inv)
  obtain n h key b where e: "4 = int n * 2" "h = concat (take n (drop (1 * n) [[5], [6], [7], [8]]))" "make_block_hash_with_group_id h 0 = Inr key"
    "pool_inv p' [1, 2, 3] {}" "b_hash (blocks p' ! 1) = Some key" "get_cached_block p' h [0] = Inr (Some [b])"
    using cache_then_lookup [OF demo_pool_inv(1) b _ _ run, of 1] by (auto simp: plain_request_def demo_pool_inv)
  have "n = 2" using e(1) by simp
  then have "h = [7, 8]" using e(2) by simp
  then show ?thesis using run e by (auto simp: make_key_cases to_bytes4_def)
qed

text \<open>
  The usage of the pool is a fraction between 0 and 1, and the null block is never counted
  as free.
\<close>

theorem usage_bounds:
  assumes inv: "pool_inv p xs {}"
  shows "0 \<le> get_usage p \<and> get_usage p \<le> 1 \<and> 0 \<le> get_num_free_blocks p \<and> get_num_free_blocks p \<le> num_gpu_blocks p - 1"
proof -
  note f = free_okD [OF inv]
  have n: "num_gpu_blocks p = int (length (blocks p))" "null_block p < length (blocks p)" "is_null (blocks p ! null_block p)"
    using inv by (auto simp: pool_inv_def blocks_ok_def)
  have "set xs \<subseteq> {..<length (blocks p)} - {null_block p}"
    using f(3) n(3) by (auto simp: idle_def)
  then have "card (set xs) \<le> card ({..<length (blocks p)} - {null_block p})" by (rule card_mono [rotated]) simp
  then have "length xs \<le> length (blocks p) - 1" using n(2) f(2) by (simp add: distinct_card)
  then have le: "get_num_free_blocks p \<le> num_gpu_blocks p - 1" using f(4) n(1,2) by linarith
  moreover have "of_int (get_num_free_blocks p) / of_int (num_gpu_blocks p - 1) \<le> (1 :: rat)" if "num_gpu_blocks p - 1 \<noteq> 0"
  proof -
    have "0 < num_gpu_blocks p - 1" using that le f(4) by linarith
    then show ?thesis using le by (simp add: divide_le_eq_1)
  qed
  moreover have "0 \<le> (of_int (get_num_free_blocks p) / of_int (num_gpu_blocks p - 1) :: rat)"
    using le f(4) by simp
  ultimately show ?thesis using f(4) by (simp add: get_usage_def Let_def)
qed

theorem usage_bounds_witness:
  "0 \<le> get_usage demo_pool \<and> get_usage demo_pool \<le> 1 \<and> get_num_free_blocks demo_pool \<le> num_gpu_blocks demo_pool - 1"
  using usage_bounds [OF demo_pool_inv(1)] by simp

end
