(* ===== verification/Cache_Hit.thy ===== *)
theory Cache_Hit
  imports Pool_Ops
begin

text \<open>
  The longest cached prefix of a request, per attention type (\<open>find_longest_cache_hit\<close> of
  \<open>v1/core/single_type_kv_cache_manager.py\<close>). The class of a manager is determined by its cache
  spec, so a call is dispatched on the spec. A result has one list of blocks per cache group.
\<close>

section \<open>Cache specs\<close>

datatype spec_kind =
    FullAttentionSpec | MLAAttentionSpec | SlidingWindowSpec int | ChunkedLocalAttentionSpec int
  | MambaSpec int | CrossAttentionSpec

text \<open>The fields of a spec that are only compared (head counts, sizes, types) are the list \<open>spec_rest\<close>.\<close>

record kv_cache_spec =
  spec_kind :: spec_kind
  spec_block_size :: int
  spec_rest :: "int list"

definition is_full :: "kv_cache_spec \<Rightarrow> bool" where
  "is_full s \<longleftrightarrow> spec_kind s = FullAttentionSpec \<or> spec_kind s = MLAAttentionSpec"

definition rdiv :: "int \<Rightarrow> int \<Rightarrow> int res" where
  "rdiv a b = (if b = 0 then Inl ZeroDivisionError else Inr (a div b))"

definition rmod :: "int \<Rightarrow> int \<Rightarrow> int res" where
  "rmod a b = (if b = 0 then Inl ZeroDivisionError else Inr (a mod b))"

definition rcdiv :: "int \<Rightarrow> int \<Rightarrow> int res" where
  "rcdiv a b = (if b = 0 then Inl ZeroDivisionError else Inr (cdiv a b))"

section \<open>Full attention\<close>

text \<open>A lookup that finds nothing and a lookup for no groups both count as a miss.\<close>

definition hit :: "block_pool \<Rightarrow> bytes \<Rightarrow> int list \<Rightarrow> nat list option res" where
  "hit p h gids = rbind (get_cached_block p h gids) (\<lambda>r. Inr (if r = Some [] then None else r))"

definition push_all :: "nat list list \<Rightarrow> nat list \<Rightarrow> nat list list" where
  "push_all computed cached = map2 (\<lambda>c b. c @ [b]) computed cached"

primrec full_loop :: "block_pool \<Rightarrow> int list \<Rightarrow> bytes list \<Rightarrow> nat list list \<Rightarrow> nat list list res" where
  "full_loop p gids [] computed = Inr computed"
| "full_loop p gids (h # hs) computed =
     rbind (hit p h gids) (\<lambda>r. case r of
         None \<Rightarrow> Inr computed
       | Some cached \<Rightarrow> full_loop p gids hs (push_all computed cached))"

text \<open>The loop that drops blocks until the length is aligned.\<close>

function drop_unaligned :: "int \<Rightarrow> int \<Rightarrow> nat list list \<Rightarrow> nat list list" where
  "drop_unaligned block_size alignment computed =
     (if computed \<noteq> [] \<and> int (length (hd computed)) * block_size mod alignment \<noteq> 0
      then drop_unaligned block_size alignment (map butlast computed)
      else computed)"
  by pat_completeness auto
termination
proof (relation "measure (\<lambda>(_, _, computed). length (hd computed))")
  fix b a :: int and c :: "nat list list"
  assume "c \<noteq> [] \<and> int (length (hd c)) * b mod a \<noteq> 0"
  then have "hd c \<noteq> []" "hd (map butlast c) = butlast (hd c)" by (auto simp: hd_map)
  then show "((b, a, map butlast c), b, a, c) \<in> measure (\<lambda>(_, _, computed). length (hd computed))" by simp
qed simp

declare drop_unaligned.simps [simp del]

definition align_blocks :: "int \<Rightarrow> int \<Rightarrow> nat list list \<Rightarrow> nat list list res" where
  "align_blocks block_size alignment computed =
     (if block_size = alignment then Inr computed
      else if computed = [] then Inl IndexError
      else if alignment = 0 then Inl ZeroDivisionError
      else Inr (drop_unaligned block_size alignment computed))"

definition first_nonempty :: "nat list list \<Rightarrow> bool res" where
  "first_nonempty computed = (case computed of [] \<Rightarrow> Inl IndexError | c # _ \<Rightarrow> Inr (c \<noteq> []))"

definition eagle_drop :: "bool \<Rightarrow> nat list list \<Rightarrow> nat list list res" where
  "eagle_drop use_eagle computed =
     (if use_eagle then rbind (first_nonempty computed) (\<lambda>b. Inr (if b then map butlast computed else computed))
      else Inr computed)"

definition full_hit :: "kv_cache_spec \<Rightarrow> bytes list \<Rightarrow> int \<Rightarrow> int list \<Rightarrow> block_pool \<Rightarrow> bool \<Rightarrow> int \<Rightarrow> int \<Rightarrow> int \<Rightarrow> nat list list res" where
  "full_hit spec hs max_length gids p use_eagle alignment dcp pcp =
     (let block_size = spec_block_size spec * (if dcp * pcp > 1 then dcp * pcp else 1)
      in rbind (rdiv max_length block_size) (\<lambda>max_num_blocks.
         if max_num_blocks < 0 then Inl ValueError
         else rbind (full_loop p gids (take (nat max_num_blocks) hs) (replicate (length gids) [])) (\<lambda>computed.
              rbind (eagle_drop use_eagle computed) (align_blocks block_size alignment))))"

section \<open>Sliding window\<close>

text \<open>
  The search from right to left: the blocks with indices below the counter remain; the result
  holds the blocks, the length of the run of hits and whether a long enough run was found.
\<close>

primrec sw_loop :: "block_pool \<Rightarrow> bytes list \<Rightarrow> int list \<Rightarrow> int \<Rightarrow> int \<Rightarrow> int \<Rightarrow> nat \<Rightarrow> nat list list \<Rightarrow> nat \<Rightarrow> (nat list list \<times> nat \<times> bool) res" where
  "sw_loop p hs gids block_size alignment needed 0 computed run = Inr (computed, run, False)"
| "sw_loop p hs gids block_size alignment needed (Suc i) computed run =
     rbind (py_nth hs (int i)) (\<lambda>h.
     rbind (hit p h gids) (\<lambda>r. case r of
         None \<Rightarrow> sw_loop p hs gids block_size alignment needed i computed 0
       | Some cached \<Rightarrow>
           rbind (if run = 0 \<and> block_size \<noteq> alignment
                  then rbind (rmod ((int i + 1) * block_size) alignment) (\<lambda>m. Inr (m \<noteq> 0)) else Inr False) (\<lambda>skip.
           if skip then sw_loop p hs gids block_size alignment needed i computed run
           else let computed = map2 (\<lambda>c b. c[i := b]) computed cached; run = run + 1
                in if int run \<ge> needed then Inr (map (take (i + run)) computed, run, True)
                   else sw_loop p hs gids block_size alignment needed i computed run)))"

definition sliding_hit :: "int \<Rightarrow> kv_cache_spec \<Rightarrow> bytes list \<Rightarrow> int \<Rightarrow> int list \<Rightarrow> block_pool \<Rightarrow> bool \<Rightarrow> int \<Rightarrow> int \<Rightarrow> int \<Rightarrow> nat list list res" where
  "sliding_hit window spec hs max_length gids p use_eagle alignment dcp pcp =
     (let block_size = spec_block_size spec
      in if dcp \<noteq> 1 \<or> pcp \<noteq> 1 then Inl AssertionError
         else rbind (rcdiv (window - 1) block_size) (\<lambda>contiguous.
           let needed = (if use_eagle then contiguous + 1 else contiguous);
               max_num_blocks = nat (max_length div block_size)
           in rbind (sw_loop p hs gids block_size alignment needed max_num_blocks
                       (replicate (length gids) (replicate max_num_blocks (null_block p))) 0) (\<lambda>(computed, run, found).
              rbind (if found then Inr computed else align_blocks block_size alignment (map (take run) computed)) (\<lambda>computed.
              if use_eagle then rbind (first_nonempty computed) (\<lambda>b.
                if b then if block_size = alignment then Inr (map butlast computed) else Inl AssertionError
                else Inr computed)
              else Inr computed))))"

section \<open>Chunked local attention and Mamba\<close>

primrec chunk_loop :: "block_pool \<Rightarrow> bytes list \<Rightarrow> int list \<Rightarrow> int list \<Rightarrow> nat list list \<Rightarrow> nat list list res" where
  "chunk_loop p hs gids [] computed = Inr computed"
| "chunk_loop p hs gids (i # is') computed =
     rbind (py_nth hs i) (\<lambda>h.
     rbind (hit p h gids) (\<lambda>r. case r of
         None \<Rightarrow> Inr computed
       | Some cached \<Rightarrow> chunk_loop p hs gids is' (push_all computed cached)))"

definition chunked_hit :: "int \<Rightarrow> kv_cache_spec \<Rightarrow> bytes list \<Rightarrow> int \<Rightarrow> int list \<Rightarrow> block_pool \<Rightarrow> bool \<Rightarrow> int \<Rightarrow> int \<Rightarrow> int \<Rightarrow> nat list list res" where
  "chunked_hit chunk spec hs max_length gids p use_eagle alignment dcp pcp =
     (let block_size = spec_block_size spec
      in if use_eagle \<or> dcp \<noteq> 1 \<or> pcp \<noteq> 1 \<or> block_size \<noteq> alignment then Inl AssertionError
         else rbind (rdiv max_length block_size) (\<lambda>max_num_blocks.
              rbind (if max_length > 0 then rbind (rdiv max_length chunk) (\<lambda>q. Inr (q * chunk)) else Inr 0) (\<lambda>start.
              let start_block = start div block_size
              in chunk_loop p hs gids [start_block..max_num_blocks - 1]
                   (replicate (length gids) (replicate (nat start_block) (null_block p))))))"

primrec mamba_loop :: "block_pool \<Rightarrow> bytes list \<Rightarrow> int list \<Rightarrow> int \<Rightarrow> int \<Rightarrow> nat \<Rightarrow> nat list list \<Rightarrow> nat list list res" where
  "mamba_loop p hs gids block_size alignment 0 computed = Inr computed"
| "mamba_loop p hs gids block_size alignment (Suc i) computed =
     rbind (py_nth hs (int i)) (\<lambda>h.
     rbind (hit p h gids) (\<lambda>r. case r of
         None \<Rightarrow> mamba_loop p hs gids block_size alignment i computed
       | Some cached \<Rightarrow>
           rbind (if block_size \<noteq> alignment then rbind (rmod ((int i + 1) * block_size) alignment) (\<lambda>m. Inr (m \<noteq> 0)) else Inr False) (\<lambda>skip.
           if skip then mamba_loop p hs gids block_size alignment i computed
           else Inr (map2 (\<lambda>c b. c @ replicate i (null_block p) @ [b]) computed cached))))"

definition mamba_hit :: "kv_cache_spec \<Rightarrow> bytes list \<Rightarrow> int \<Rightarrow> int list \<Rightarrow> block_pool \<Rightarrow> bool \<Rightarrow> int \<Rightarrow> int \<Rightarrow> int \<Rightarrow> nat list list res" where
  "mamba_hit spec hs max_length gids p use_eagle alignment dcp pcp =
     (if dcp \<noteq> 1 \<or> pcp \<noteq> 1 then Inl AssertionError
      else rbind (rdiv max_length (spec_block_size spec)) (\<lambda>max_num_blocks.
        mamba_loop p hs gids (spec_block_size spec) alignment (nat max_num_blocks) (replicate (length gids) [])))"

text \<open>Cross attention has no prefix cache.\<close>

definition cross_hit :: "kv_cache_spec \<Rightarrow> bytes list \<Rightarrow> int \<Rightarrow> int list \<Rightarrow> block_pool \<Rightarrow> bool \<Rightarrow> int \<Rightarrow> int \<Rightarrow> int \<Rightarrow> nat list list res" where
  "cross_hit spec hs max_length gids p use_eagle alignment dcp pcp = Inl NotImplementedError"

text \<open>The manager class of a spec, as \<open>spec_manager_map\<close> gives it, decides which lookup runs.\<close>

definition find_longest_cache_hit :: "kv_cache_spec \<Rightarrow> bytes list \<Rightarrow> int \<Rightarrow> int list \<Rightarrow> block_pool \<Rightarrow> bool \<Rightarrow> int \<Rightarrow> int \<Rightarrow> int \<Rightarrow> nat list list res" where
  "find_longest_cache_hit spec =
     (case spec_kind spec of
        FullAttentionSpec \<Rightarrow> full_hit spec
      | MLAAttentionSpec \<Rightarrow> full_hit spec
      | SlidingWindowSpec window \<Rightarrow> sliding_hit window spec
      | ChunkedLocalAttentionSpec chunk \<Rightarrow> chunked_hit chunk spec
      | MambaSpec _ \<Rightarrow> mamba_hit spec
      | CrossAttentionSpec \<Rightarrow> cross_hit spec)"

section \<open>The hit of full attention is the longest one\<close>

definition carries :: "block_pool \<Rightarrow> nat \<Rightarrow> bytes \<Rightarrow> int \<Rightarrow> bool" where
  "carries p b h g \<longleftrightarrow> b < length (blocks p) \<and> b_hash (blocks p ! b) = Some (projr (make_block_hash_with_group_id h g))"

definition stored :: "block_pool \<Rightarrow> int list \<Rightarrow> bytes \<Rightarrow> bool" where
  "stored p gids h \<longleftrightarrow> (\<forall>g \<in> set gids. \<exists>b < length (blocks p). carries p b h g)"

definition groups_ok :: "int list \<Rightarrow> bool" where
  "groups_ok gids \<longleftrightarrow> gids \<noteq> [] \<and> (\<forall>g \<in> set gids. 0 \<le> g \<and> g < 2 ^ 32)"

lemma hit_cases:
  assumes "pool_inv p xs S" "groups_ok gids"
  obtains "hit p h gids = Inr None" "\<not> stored p gids h"
  | bs where "hit p h gids = Inr (Some bs)" "stored p gids h" "list_all2 (\<lambda>g b. carries p b h g) gids bs"
proof -
  obtain r where r: "get_cached_block p h gids = Inr r"
    "r = None \<longleftrightarrow> (\<exists>g \<in> set gids. \<forall>i < length (blocks p). b_hash (blocks p ! i) \<noteq> Some (projr (make_block_hash_with_group_id h g)))"
    "\<And>bs. r = Some bs \<Longrightarrow> list_all2 (\<lambda>g b. b < length (blocks p) \<and>
         b_hash (blocks p ! b) = Some (projr (make_block_hash_with_group_id h g))) gids bs"
    using get_cached_cases [OF assms(1), of gids h] assms(2) by (auto simp: groups_ok_def)
  have st: "r = None \<longleftrightarrow> \<not> stored p gids h" using r(2) by (auto simp: stored_def carries_def)
  show ?thesis
  proof (cases r)
    case None
    then show ?thesis using that(1) r(1) st by (simp add: hit_def)
  next
    case (Some bs)
    then have l: "list_all2 (\<lambda>g b. carries p b h g) gids bs" using r(3) by (simp add: carries_def)
    then have "bs \<noteq> []" using assms(2) by (auto simp: groups_ok_def)
    then show ?thesis using that(2) [of bs] Some r(1) st l by (simp add: hit_def)
  qed
qed

lemma full_loop_cols:
  assumes inv: "pool_inv p xs S" and g: "groups_ok gids"
  shows "length acc = length gids \<Longrightarrow> \<exists>cols. full_loop p gids hs acc = Inr (map2 (@) acc cols) \<and> length cols = length gids \<and>
    (\<forall>k < length gids. length (cols ! k) = length (takeWhile (stored p gids) hs) \<and>
       (\<forall>j < length (cols ! k). carries p (cols ! k ! j) (hs ! j) (gids ! k)))"
proof (induction hs arbitrary: acc)
  case Nil
  have "map2 (@) acc (replicate (length gids) []) = acc" using Nil by (intro nth_equalityI) auto
  then show ?case by (intro exI [of _ "replicate (length gids) []"]) simp
next
  case (Cons h hs)
  show ?case
  proof (rule hit_cases [OF inv g, of h])
    assume "hit p h gids = Inr None" "\<not> stored p gids h"
    moreover have "map2 (@) acc (replicate (length gids) []) = acc" using Cons.prems by (intro nth_equalityI) auto
    ultimately show ?thesis by (intro exI [of _ "replicate (length gids) []"]) simp
  next
    fix bs assume h: "hit p h gids = Inr (Some bs)" "stored p gids h" "list_all2 (\<lambda>g b. carries p b h g) gids bs"
    have lb: "length bs = length gids" using h(3) by (simp add: list_all2_lengthD)
    have "length (push_all acc bs) = length gids" using Cons.prems lb by (simp add: push_all_def)
    then obtain cols where c: "full_loop p gids hs (push_all acc bs) = Inr (map2 (@) (push_all acc bs) cols)"
      "length cols = length gids"
      "\<And>k. k < length gids \<Longrightarrow> length (cols ! k) = length (takeWhile (stored p gids) hs) \<and>
         (\<forall>j < length (cols ! k). carries p (cols ! k ! j) (hs ! j) (gids ! k))" using Cons.IH by blast
    have "map2 (@) (push_all acc bs) cols = map2 (@) acc (map2 (#) bs cols)"
      using Cons.prems lb c(2) by (intro nth_equalityI) (simp_all add: push_all_def)
    moreover have "carries p (map2 (#) bs cols ! k ! j) ((h # hs) ! j) (gids ! k)"
      if "k < length gids" "j < length (map2 (#) bs cols ! k)" for k j
    proof -
      have "map2 (#) bs cols ! k = bs ! k # cols ! k" using that lb c(2) by simp
      moreover have "carries p (bs ! k) h (gids ! k)" using h(3) that(1) by (simp add: list_all2_conv_all_nth)
      ultimately show ?thesis using that c(3) [OF that(1)] by (cases j) simp_all
    qed
    ultimately show ?thesis
      using h(1,2) c lb by (intro exI [of _ "map2 (#) bs cols"]) simp
  qed
qed

lemma butlast_take_all: "n \<le> length c \<Longrightarrow> butlast (take n c) = take (n - 1) c"
  by (simp add: butlast_take)

lemma drop_unaligned_max:
  assumes "cols \<noteq> []" "\<And>c. c \<in> set cols \<Longrightarrow> n \<le> length c"
  shows "\<exists>m \<le> n. drop_unaligned b a (map (take n) cols) = map (take m) cols \<and> int m * b mod a = 0 \<and>
    (\<forall>k. m < k \<and> k \<le> n \<longrightarrow> int k * b mod a \<noteq> 0)"
  using assms(2)
proof (induction n)
  case 0
  then show ?case using assms(1) by (subst drop_unaligned.simps) (simp add: hd_map)
next
  case (Suc n)
  have hd: "length (hd (map (take (Suc n)) cols)) = Suc n"
    using Suc.prems [of "hd cols"] assms(1) by (simp add: hd_map)
  show ?case
  proof (cases "int (Suc n) * b mod a = 0")
    case True
    then have "drop_unaligned b a (map (take (Suc n)) cols) = map (take (Suc n)) cols"
      by (subst drop_unaligned.simps) (simp only: hd, simp)
    then show ?thesis using True by (intro exI [of _ "Suc n"]) auto
  next
    case False
    have "map butlast (map (take (Suc n)) cols) = map (take n) cols"
      using Suc.prems by (simp add: butlast_take_all)
    then have "drop_unaligned b a (map (take (Suc n)) cols) = drop_unaligned b a (map (take n) cols)"
      using False assms(1) by (subst drop_unaligned.simps) (simp only: hd, simp)
    moreover obtain m where "m \<le> n" "drop_unaligned b a (map (take n) cols) = map (take m) cols" "int m * b mod a = 0"
      "\<forall>k. m < k \<and> k \<le> n \<longrightarrow> int k * b mod a \<noteq> 0" using Suc by fastforce
    ultimately show ?thesis using False by (intro exI [of _ m]) (auto simp: le_Suc_eq)
  qed
qed

definition eff_block_size :: "kv_cache_spec \<Rightarrow> int \<Rightarrow> int \<Rightarrow> int" where
  "eff_block_size spec dcp pcp = spec_block_size spec * (if dcp * pcp > 1 then dcp * pcp else 1)"

definition cached_run :: "block_pool \<Rightarrow> int list \<Rightarrow> bytes list \<Rightarrow> int \<Rightarrow> int \<Rightarrow> bool \<Rightarrow> nat" where
  "cached_run p gids hs max_length B use_eagle =
     length (takeWhile (stored p gids) (take (nat (max_length div B)) hs)) - (if use_eagle then 1 else 0)"

lemma full_hit_cols:
  assumes inv: "pool_inv p xs S" and g: "groups_ok gids" and B: "0 < eff_block_size spec dcp pcp" and a: "0 < a" and L: "0 \<le> L"
  shows "\<exists>res m. full_hit spec hs L gids p use_eagle a dcp pcp = Inr res \<and> length res = length gids \<and>
    m \<le> cached_run p gids hs L (eff_block_size spec dcp pcp) use_eagle \<and> int m * eff_block_size spec dcp pcp mod a = 0 \<and>
    (\<forall>k. m < k \<and> k \<le> cached_run p gids hs L (eff_block_size spec dcp pcp) use_eagle \<longrightarrow> int k * eff_block_size spec dcp pcp mod a \<noteq> 0) \<and>
    (\<forall>k < length gids. length (res ! k) = m \<and> (\<forall>j < m. carries p (res ! k ! j) (hs ! j) (gids ! k)))"
proof -
  let ?B = "eff_block_size spec dcp pcp"
  let ?hs = "take (nat (L div ?B)) hs"
  let ?n = "length (takeWhile (stored p gids) ?hs)"
  let ?m = "cached_run p gids hs L ?B use_eagle"
  have ne: "gids \<noteq> []" using g by (simp add: groups_ok_def)
  obtain cols where c: "full_loop p gids ?hs (replicate (length gids) []) = Inr (map2 (@) (replicate (length gids) []) cols)"
    "length cols = length gids"
    "\<And>k. k < length gids \<Longrightarrow> length (cols ! k) = ?n \<and> (\<forall>j < length (cols ! k). carries p (cols ! k ! j) (?hs ! j) (gids ! k))"
    using full_loop_cols [OF inv g, of "replicate (length gids) []" ?hs] by auto
  have cols: "map2 (@) (replicate (length gids) []) cols = cols" using c(2) by (intro nth_equalityI) simp_all
  have len: "length x = ?n" if "x \<in> set cols" for x 
  proof -
    obtain k where "k < length cols" "x = cols ! k" using \<open>x \<in> set cols\<close> by (auto simp: in_set_conv_nth)
    then show ?thesis using c(2) c(3) [of k] by simp
  qed
  have cne: "cols \<noteq> []" using c(2) ne by auto
  have all: "map (take ?n) cols = cols" using len by (simp add: map_idI)
  have e: "eagle_drop use_eagle cols = Inr (map (take ?m) cols)"
  proof -
    have "hd cols \<in> set cols" using cne by simp
    then have "length (hd cols) = ?n" by (rule len)
    moreover have "butlast x = take (?n - 1) x" if "x \<in> set cols" for x
      using len [OF that] by (simp add: butlast_conv_take)
    moreover have "first_nonempty cols = Inr (length (hd cols) \<noteq> 0)" using cne by (cases cols) (simp_all add: first_nonempty_def)
    ultimately have bl: "map butlast cols = map (take (?n - 1)) cols" "first_nonempty cols = Inr (?n \<noteq> 0)"
      by (simp_all only: map_eq_conv) blast
    show ?thesis
    proof (cases "use_eagle \<and> ?n \<noteq> 0")
      case True
      then show ?thesis by (simp add: eagle_drop_def bl cached_run_def)
    next
      case False
      then have "?m = ?n" "eagle_drop use_eagle cols = Inr cols" by (auto simp: eagle_drop_def bl(2) cached_run_def)
      then show ?thesis using all by argo
    qed
  qed
  have ge: "?m \<le> length x" if "x \<in> set cols" for x using len [OF that] by (simp add: cached_run_def)
  obtain m where m: "m \<le> ?m" "drop_unaligned ?B a (map (take ?m) cols) = map (take m) cols" "int m * ?B mod a = 0"
    "\<forall>k. m < k \<and> k \<le> ?m \<longrightarrow> int k * ?B mod a \<noteq> 0"
  proof -
    have "\<exists>m \<le> ?m. drop_unaligned ?B a (map (take ?m) cols) = map (take m) cols \<and> int m * ?B mod a = 0 \<and>
        (\<forall>k. m < k \<and> k \<le> ?m \<longrightarrow> int k * ?B mod a \<noteq> 0)"
      by (rule drop_unaligned_max [OF cne]) (rule ge)
    then show thesis by (elim exE conjE) (rule that)
  qed
  have al: "align_blocks ?B a (map (take ?m) cols) = Inr (map (take m) cols)"
  proof (cases "?B = a")
    case True
    then have "int ?m * ?B mod a = 0" by simp
    then have "m = ?m" using m(1,4) by (meson le_neq_implies_less order_refl)
    then show ?thesis using True by (simp add: align_blocks_def)
  qed (use m(2) a cne in \<open>simp add: align_blocks_def\<close>)
  have "0 \<le> L div ?B" using B L by (simp add: pos_imp_zdiv_nonneg_iff)
  then have run: "full_hit spec hs L gids p use_eagle a dcp pcp = Inr (map (take m) cols)"
    using B c(1) cols e al by (simp add: full_hit_def eff_block_size_def [symmetric] Let_def rdiv_def)
  have "length (map (take m) cols ! k) = m \<and> (\<forall>j < m. carries p (map (take m) cols ! k ! j) (hs ! j) (gids ! k))"
    if k: "k < length gids" for k
  proof -
    have "m \<le> ?n" using m(1) by (simp add: cached_run_def)
    moreover have "?n \<le> length ?hs" by (rule length_takeWhile_le)
    ultimately have le: "m \<le> length (cols ! k)" and nth: "\<And>j. j < m \<Longrightarrow> ?hs ! j = hs ! j" using c(3) [OF k] by simp_all
    have "carries p (cols ! k ! j) (hs ! j) (gids ! k)" if "j < m" for j
    proof -
      have "j < length (cols ! k)" using le that by simp
      then have "carries p (cols ! k ! j) (?hs ! j) (gids ! k)" using c(3) [OF k] by blast
      then show ?thesis by (simp only: nth [OF that])
    qed
    moreover have "map (take m) cols ! k = take m (cols ! k)" using c(2) k by simp
    ultimately show ?thesis using le by simp
  qed
  moreover have "length (map (take m) cols) = length gids" using c(2) by simp
  ultimately show ?thesis by (intro exI conjI) (rule run m | assumption | blast)+
qed

text \<open>
  C7. For full attention, the cache hit is the longest aligned one: within the allowed length it
  covers the largest number \<open>m\<close> of leading hashes that are all stored for every group (one fewer
  with eagle) whose token count is a multiple of the alignment, and the \<open>j\<close>-th block returned for
  a group carries the \<open>j\<close>-th hash and that group.
\<close>

theorem full_hit_longest:
  assumes "pool_inv p xs S" "groups_ok gids" "is_full spec" "0 < eff_block_size spec dcp pcp" "0 < a" "0 \<le> L"
  shows "\<exists>res m. find_longest_cache_hit spec hs L gids p use_eagle a dcp pcp = Inr res \<and> length res = length gids \<and>
    m \<le> cached_run p gids hs L (eff_block_size spec dcp pcp) use_eagle \<and> int m * eff_block_size spec dcp pcp mod a = 0 \<and>
    (\<forall>k. m < k \<and> k \<le> cached_run p gids hs L (eff_block_size spec dcp pcp) use_eagle \<longrightarrow> int k * eff_block_size spec dcp pcp mod a \<noteq> 0) \<and>
    (\<forall>k < length gids. length (res ! k) = m \<and> (\<forall>j < m. carries p (res ! k ! j) (hs ! j) (gids ! k)))"
  using full_hit_cols [OF assms(1,2,4,5,6)] assms(3) by (auto simp: find_longest_cache_hit_def is_full_def)

theorem full_hit_longest_witness:
  "\<exists>b. find_longest_cache_hit \<lparr>spec_kind = FullAttentionSpec, spec_block_size = 2, spec_rest = []\<rparr> [[9], [8]] 5 [0]
     (enter [9, 0, 0, 0, 0] 2 demo_pool) False 2 1 1 = Inr [[b]]"
proof -
  let ?p = "enter [9, 0, 0, 0, 0] 2 demo_pool" let ?s = "\<lparr>spec_kind = FullAttentionSpec, spec_block_size = 2, spec_rest = []\<rparr>"
  have k: "make_block_hash_with_group_id [9] 0 = Inr [9, 0, 0, 0, 0]" "make_block_hash_with_group_id [8] 0 = Inr [8, 0, 0, 0, 0]"
    by (simp_all add: make_key_cases to_bytes4_def)
  have c: "carries ?p 2 [9] 0" "\<not> carries ?p b [8] 0" for b
    using demo_pool_inv(6) by (auto simp: carries_def enter_def demo_pool_inv k nth_list_update)
  then have "stored ?p [0] [9]" "\<not> stored ?p [0] [8]" by (auto simp: stored_def carries_def)
  then have r: "cached_run ?p [0] [[9], [8]] 5 2 False = 1" by (simp add: cached_run_def)
  have "\<exists>res m. find_longest_cache_hit ?s [[9], [8]] 5 [0] ?p False 2 1 1 = Inr res \<and> length res = 1 \<and> m \<le> 1 \<and>
    (\<forall>k. m < k \<and> k \<le> 1 \<longrightarrow> int k * 2 mod 2 \<noteq> (0 :: int)) \<and> length (res ! 0) = m"
    using full_hit_longest [OF demo_entered, of "[0]" ?s 1 1 2 5 "[[9], [8]]" False]
    by (simp add: groups_ok_def is_full_def eff_block_size_def r) blast
  then obtain res m where "find_longest_cache_hit ?s [[9], [8]] 5 [0] ?p False 2 1 1 = Inr res" "length res = 1" "length (res ! 0) = 1"
    by (metis le_neq_implies_less mod_mult_self2_is_0 order_refl)
  then show ?thesis by (cases res; cases "res ! 0") (auto simp: length_Suc_conv)
qed

section \<open>Every hit carries the right hash\<close>

text \<open>One column per group, of equal lengths, whose blocks are null or carry the hash at their place.\<close>

definition cols_ok :: "block_pool \<Rightarrow> bytes list \<Rightarrow> int list \<Rightarrow> nat \<Rightarrow> nat list list \<Rightarrow> bool" where
  "cols_ok p hs gids n cols \<longleftrightarrow> length cols = length gids \<and>
     (\<forall>k < length gids. length (cols ! k) = n \<and>
        (\<forall>j < n. cols ! k ! j = null_block p \<or> j < length hs \<and> carries p (cols ! k ! j) (hs ! j) (gids ! k)))"

lemma cols_ok_nil: "cols_ok p hs gids 0 (replicate (length gids) [])"
  by (simp add: cols_ok_def)

lemma cols_ok_null: "cols_ok p hs gids n (replicate (length gids) (replicate n (null_block p)))"
  by (simp add: cols_ok_def)

lemma cols_ok_take: "cols_ok p hs gids n cols \<Longrightarrow> cols_ok p hs gids (min m n) (map (take m) cols)"
  by (auto simp: cols_ok_def)

lemma cols_ok_butlast: "cols_ok p hs gids n cols \<Longrightarrow> cols_ok p hs gids (n - 1) (map butlast cols)"
  by (auto simp: cols_ok_def nth_butlast)

lemma cols_ok_push:
  assumes "cols_ok p hs gids n cols" "n < length hs" "list_all2 (\<lambda>g b. carries p b (hs ! n) g) gids bs"
  shows "cols_ok p hs gids (Suc n) (push_all cols bs)"
proof -
  have "length bs = length gids" "\<And>k. k < length gids \<Longrightarrow> carries p (bs ! k) (hs ! n) (gids ! k)"
    using assms(3) by (simp_all add: list_all2_conv_all_nth)
  then show ?thesis using assms(1,2) by (auto simp: cols_ok_def push_all_def nth_append less_Suc_eq)
qed

lemma cols_ok_update:
  assumes "cols_ok p hs gids n cols" "i < length hs" "list_all2 (\<lambda>g b. carries p b (hs ! i) g) gids bs"
  shows "cols_ok p hs gids n (map2 (\<lambda>c b. c[i := b]) cols bs)"
proof -
  have "length bs = length gids" "\<And>k. k < length gids \<Longrightarrow> carries p (bs ! k) (hs ! i) (gids ! k)"
    using assms(3) by (simp_all add: list_all2_conv_all_nth)
  moreover have "(cols ! k)[i := bs ! k] ! j = (if j = i then bs ! k else cols ! k ! j)" if "k < length gids" "j < n" for k j
    using assms(1) that by (cases "j = i") (simp_all add: cols_ok_def)
  ultimately show ?thesis
    using assms(1,2) by (simp add: cols_ok_def)
qed

lemma cols_ok_unaligned: "cols_ok p hs gids n cols \<Longrightarrow> \<exists>m. cols_ok p hs gids m (drop_unaligned b a cols)"
proof (induction b a cols arbitrary: n rule: drop_unaligned.induct)
  case (1 b a cols)
  show ?case
  proof (cases "cols \<noteq> [] \<and> int (length (hd cols)) * b mod a \<noteq> 0")
    case True
    then have "drop_unaligned b a cols = drop_unaligned b a (map butlast cols)" by (subst drop_unaligned.simps) simp
    then show ?thesis using "1.IH" [OF True cols_ok_butlast [OF "1.prems"]] by simp
  next
    case False
    then show ?thesis using "1.prems" by (subst drop_unaligned.simps) auto
  qed
qed

lemma cols_ok_align: "cols_ok p hs gids n cols \<Longrightarrow> align_blocks b a cols = Inr res \<Longrightarrow> \<exists>m. cols_ok p hs gids m res"
  using cols_ok_unaligned by (auto simp: align_blocks_def split: if_splits)

lemma cols_ok_eagle: "cols_ok p hs gids n cols \<Longrightarrow> eagle_drop e cols = Inr res \<Longrightarrow> \<exists>m. cols_ok p hs gids m res"
  using cols_ok_butlast [of p hs gids n cols] by (auto simp: eagle_drop_def py_simps split: if_splits)

lemma full_loop_ok:
  assumes inv: "pool_inv p xs S" and g: "groups_ok gids"
  shows "cols_ok p hs gids n acc \<Longrightarrow> full_loop p gids (take m (drop n hs)) acc = Inr res \<Longrightarrow> \<exists>l. cols_ok p hs gids l res"
proof (induction m arbitrary: n acc)
  case (Suc m)
  show ?case
  proof (cases "n < length hs")
    case True
    then have d: "take (Suc m) (drop n hs) = hs ! n # take m (drop (Suc n) hs)"
      by (simp add: Cons_nth_drop_Suc [symmetric])
    show ?thesis
    proof (rule hit_cases [OF inv g, of "hs ! n"])
      assume "hit p (hs ! n) gids = Inr None"
      then show ?thesis using Suc.prems d by auto
    next
      fix bs assume h: "hit p (hs ! n) gids = Inr (Some bs)" "list_all2 (\<lambda>g b. carries p b (hs ! n) g) gids bs"
      then show ?thesis
        using Suc.IH [OF cols_ok_push [OF Suc.prems(1) True h(2)]] Suc.prems(2) d by simp
    qed
  qed (use Suc.prems in auto)
qed auto

lemma full_hit_sound:
  assumes inv: "pool_inv p xs S" and g: "groups_ok gids" and run: "full_hit spec hs L gids p e a dcp pcp = Inr res"
  shows "\<exists>n. cols_ok p hs gids n res"
proof -
  obtain m cols cols' where l: "full_loop p gids (take m hs) (replicate (length gids) []) = Inr cols"
    "eagle_drop e cols = Inr cols'" "align_blocks (eff_block_size spec dcp pcp) a cols' = Inr res"
    using run by (auto simp: full_hit_def Let_def py_simps eff_block_size_def split: if_splits)
  then show ?thesis
    using full_loop_ok [OF inv g cols_ok_nil, of m hs cols] cols_ok_eagle cols_ok_align by (metis drop0)
qed

lemma chunk_loop_ok:
  assumes inv: "pool_inv p xs S" and g: "groups_ok gids"
  shows "cols_ok p hs gids n acc \<Longrightarrow> chunk_loop p hs gids [int n..M] acc = Inr res \<Longrightarrow> \<exists>l. cols_ok p hs gids l res"
proof (induction "nat (M + 1 - int n)" arbitrary: n acc)
  case (Suc d)
  then have le: "int n \<le> M" by simp
  then have u: "[int n..M] = int n # [int (Suc n)..M]" by (subst upto_rec1) (simp_all add: add.commute)
  show ?case
  proof (cases "n < length hs")
    case True
    show ?thesis
    proof (rule hit_cases [OF inv g, of "hs ! n"])
      assume "hit p (hs ! n) gids = Inr None"
      then show ?thesis using Suc.prems u True by auto
    next
      fix bs assume h: "hit p (hs ! n) gids = Inr (Some bs)" "list_all2 (\<lambda>g b. carries p b (hs ! n) g) gids bs"
      have "chunk_loop p hs gids [int (Suc n)..M] (push_all acc bs) = Inr res"
        using Suc.prems(2) u True h(1) by simp
      then show ?thesis
        using Suc.hyps(1) [OF _ cols_ok_push [OF Suc.prems(1) True h(2)]] Suc.hyps(2) le by simp
    qed
  next
    case False
    then show ?thesis using Suc.prems(2) u by simp
  qed
qed auto

lemma sw_loop_ok:
  assumes inv: "pool_inv p xs S" and g: "groups_ok gids"
  shows "cols_ok p hs gids n cols \<Longrightarrow> sw_loop p hs gids b a need i cols run = Inr (res, run', found) \<Longrightarrow> \<exists>l. cols_ok p hs gids l res"
proof (induction i arbitrary: cols run)
  case (Suc i)
  show ?case
  proof (cases "i < length hs")
    case True
    show ?thesis
    proof (rule hit_cases [OF inv g, of "hs ! i"])
      assume "hit p (hs ! i) gids = Inr None"
      then show ?thesis using Suc True by auto
    next
      fix bs assume h: "hit p (hs ! i) gids = Inr (Some bs)" "list_all2 (\<lambda>g b. carries p b (hs ! i) g) gids bs"
      note up = cols_ok_update [OF Suc.prems(1) True h(2)]
      show ?thesis
        using Suc.prems Suc.IH [OF Suc.prems(1)] Suc.IH [OF up] cols_ok_take [OF up] True h(1)
        by (auto simp: Let_def py_simps split: if_splits)
    qed
  next
    case False
    then show ?thesis using Suc.prems by simp
  qed
qed auto

lemma mamba_loop_ok:
  assumes inv: "pool_inv p xs S" and g: "groups_ok gids"
  shows "mamba_loop p hs gids b a i (replicate (length gids) []) = Inr res \<Longrightarrow> \<exists>l. cols_ok p hs gids l res"
proof (induction i)
  case 0
  then show ?case using cols_ok_nil by auto
next
  case (Suc i)
  show ?case
  proof (cases "i < length hs")
    case True
    show ?thesis
    proof (rule hit_cases [OF inv g, of "hs ! i"])
      assume "hit p (hs ! i) gids = Inr None"
      then show ?thesis using Suc True by auto
    next
      fix bs assume h: "hit p (hs ! i) gids = Inr (Some bs)" "list_all2 (\<lambda>g b. carries p b (hs ! i) g) gids bs"
      have "length bs = length gids" "\<And>k. k < length gids \<Longrightarrow> carries p (bs ! k) (hs ! i) (gids ! k)"
        using h(2) by (simp_all add: list_all2_conv_all_nth)
      then have "cols_ok p hs gids (Suc i) (map2 (\<lambda>c b. c @ replicate i (null_block p) @ [b]) (replicate (length gids) []) bs)"
        using True by (auto simp: cols_ok_def nth_append less_Suc_eq)
      then show ?thesis
        using Suc True h(1) by (auto simp: py_simps split: if_splits)
    qed
  next
    case False
    then show ?thesis using Suc.prems by simp
  qed
qed

lemma sliding_parts:
  assumes "sliding_hit w spec hs L gids p e a dcp pcp = Inr res"
  obtains need cols k found cols' where
    "sw_loop p hs gids (spec_block_size spec) a need (nat (L div spec_block_size spec))
       (replicate (length gids) (replicate (nat (L div spec_block_size spec)) (null_block p))) 0 = Inr (cols, k, found)"
    "(if found then Inr cols else align_blocks (spec_block_size spec) a (map (take k) cols)) = Inr cols'"
    "res = cols' \<or> res = map butlast cols'"
proof -
  let ?B = "spec_block_size spec" let ?m = "nat (L div ?B)"
  define tail where "tail = (\<lambda>computed. if e then rbind (first_nonempty computed) (\<lambda>b.
      if b then if ?B = a then Inr (map butlast computed) else Inl AssertionError else Inr computed) else Inr computed)"
  obtain c where c: "rcdiv (w - 1) ?B = Inr c" "dcp = 1" "pcp = 1"
    using assms by (cases "rcdiv (w - 1) ?B") (simp_all add: sliding_hit_def Let_def split: if_split_asm)
  have "rbind (sw_loop p hs gids ?B a (if e then c + 1 else c) ?m (replicate (length gids) (replicate ?m (null_block p))) 0) (\<lambda>(computed, run, found).
      rbind (if found then Inr computed else align_blocks ?B a (map (take run) computed)) tail) = Inr res"
    using assms by (simp only: sliding_hit_def Let_def tail_def [symmetric] c rbind_simps simp_thms if_False)
  then obtain cols k found cols' where
    "sw_loop p hs gids ?B a (if e then c + 1 else c) ?m (replicate (length gids) (replicate ?m (null_block p))) 0 = Inr (cols, k, found)"
    "(if found then Inr cols else align_blocks ?B a (map (take k) cols)) = Inr cols'" "tail cols' = Inr res"
    by (auto simp: rbind_Inr_iff)
  then show ?thesis using that by (auto simp: tail_def py_simps split: if_splits)
qed

lemma sliding_sound:
  assumes inv: "pool_inv p xs S" and g: "groups_ok gids" and run: "sliding_hit w spec hs L gids p e a dcp pcp = Inr res"
  shows "\<exists>n. cols_ok p hs gids n res"
proof (rule sliding_parts [OF run])
  let ?B = "spec_block_size spec" let ?m = "nat (L div ?B)"
  fix need cols k found cols'
  assume l: "sw_loop p hs gids ?B a need ?m (replicate (length gids) (replicate ?m (null_block p))) 0 = Inr (cols, k, found)"
    and al: "(if found then Inr cols else align_blocks ?B a (map (take k) cols)) = Inr cols'" and t: "res = cols' \<or> res = map butlast cols'"
  obtain n where n: "cols_ok p hs gids n cols" using sw_loop_ok [OF inv g cols_ok_null l] by blast
  obtain m where "cols_ok p hs gids m cols'"
    using al n cols_ok_align [OF cols_ok_take [OF n], of ?B a k cols'] by (cases found) auto
  then show ?thesis using t cols_ok_butlast [of p hs gids m cols'] by blast
qed

lemma chunked_sound:
  assumes inv: "pool_inv p xs S" and g: "groups_ok gids" and B: "0 < spec_block_size spec"
    and run: "chunked_hit c spec hs L gids p e a dcp pcp = Inr res"
  shows "\<exists>n. cols_ok p hs gids n res"
proof -
  let ?B = "spec_block_size spec"
  obtain start where l: "chunk_loop p hs gids [start div ?B..L div ?B - 1]
      (replicate (length gids) (replicate (nat (start div ?B)) (null_block p))) = Inr res"
    and start: "start = 0 \<or> L > 0 \<and> c \<noteq> 0 \<and> start = L div c * c"
    using run B by (auto simp: chunked_hit_def Let_def py_simps rdiv_def split: if_splits)
  have "0 \<le> L div c * c" if "0 < L" "c \<noteq> 0"
  proof (cases "0 < c")
    case True
    then show ?thesis using that by (simp add: pos_imp_zdiv_nonneg_iff)
  next
    case False
    then have "L mod c \<le> 0" using that by (simp add: neg_mod_sign)
    then show ?thesis using that div_mult_mod_eq [of L c] by linarith
  qed
  then have "0 \<le> start" using start by auto
  then have "0 \<le> start div ?B" using B by (simp add: pos_imp_zdiv_nonneg_iff)
  then show ?thesis using chunk_loop_ok [OF inv g cols_ok_null, of hs "nat (start div ?B)"] l by simp
qed

lemma hit_cols_ok:
  assumes inv: "pool_inv p xs S" and g: "groups_ok gids" and B: "0 < spec_block_size spec"
    and run: "find_longest_cache_hit spec hs L gids p use_eagle a dcp pcp = Inr res"
  shows "\<exists>n. cols_ok p hs gids n res"
proof (cases "spec_kind spec")
  case (MambaSpec k)
  then show ?thesis using run mamba_loop_ok [OF inv g]
    by (auto simp: find_longest_cache_hit_def mamba_hit_def py_simps split: if_splits)
qed (use run full_hit_sound [OF inv g] sliding_sound [OF inv g] chunked_sound [OF inv g B]
  in \<open>simp_all add: find_longest_cache_hit_def cross_hit_def\<close>)

text \<open>
  C19. A hit is never wrong, whatever the attention type: \<open>find_longest_cache_hit\<close> returns one
  list per group, all of the same length, and each block in them is the null block, standing for
  a position the attention does not read, or carries the hash at its position and its group.
\<close>

theorem cache_hit_sound:
  assumes inv: "pool_inv p xs S" and g: "groups_ok gids" and B: "0 < spec_block_size spec"
    and run: "find_longest_cache_hit spec hs L gids p use_eagle a dcp pcp = Inr res"
  shows "\<exists>n. length res = length gids \<and> (\<forall>k < length gids. length (res ! k) = n \<and>
    (\<forall>j < n. res ! k ! j = null_block p \<or> j < length hs \<and> carries p (res ! k ! j) (hs ! j) (gids ! k)))"
  using hit_cols_ok [OF assms] by (simp add: cols_ok_def)

theorem cache_hit_sound_witness:
  "\<exists>res n. find_longest_cache_hit \<lparr>spec_kind = SlidingWindowSpec 2, spec_block_size = 2, spec_rest = []\<rparr> [[9], [8]] 4 [0]
     (enter [9, 0, 0, 0, 0] 2 demo_pool) False 2 1 1 = Inr res \<and> length res = 1 \<and> length (res ! 0) = n \<and>
     (\<forall>j < n. res ! 0 ! j = null_block demo_pool \<or> carries (enter [9, 0, 0, 0, 0] 2 demo_pool) (res ! 0 ! j) ([[9], [8]] ! j) 0)"
proof -
  let ?p = "enter [9, 0, 0, 0, 0] 2 demo_pool" let ?s = "\<lparr>spec_kind = SlidingWindowSpec 2, spec_block_size = 2, spec_rest = []\<rparr>"
  have g: "groups_ok [0]" by (simp add: groups_ok_def)
  obtain r1 where r1: "hit ?p [9] [0] = Inr r1" "r1 = None \<or> (\<exists>bs. r1 = Some bs)" by (rule hit_cases [OF demo_entered g, of "[9]"]) auto
  obtain r2 where r2: "hit ?p [8] [0] = Inr r2" "r2 = None \<or> (\<exists>bs. r2 = Some bs)" by (rule hit_cases [OF demo_entered g, of "[8]"]) auto
  obtain res where run: "find_longest_cache_hit ?s [[9], [8]] 4 [0] ?p False 2 1 1 = Inr res"
    using r1 r2 by (auto simp: find_longest_cache_hit_def sliding_hit_def rcdiv_def cdiv_def numeral_eq_Suc Let_def align_blocks_def
        py_nth_def split: option.splits)
  have "null_block ?p = null_block demo_pool" by (simp add: enter_def)
  then show ?thesis using cache_hit_sound [OF demo_entered g _ run] run by auto
qed

section \<open>A hit stays within the length asked for\<close>

definition cols_within :: "nat \<Rightarrow> nat list list \<Rightarrow> bool" where
  "cols_within n cols \<longleftrightarrow> (\<forall>c \<in> set cols. length c \<le> n)"

lemma cols_within_simps [simp]:
  "cols_within n (replicate k []) " "m \<le> n \<Longrightarrow> cols_within n (replicate k (replicate m x))"
  by (auto simp: cols_within_def)

lemma cols_within_shrink:
  "cols_within n cols \<Longrightarrow> cols_within n (map butlast cols)" "cols_within n cols \<Longrightarrow> cols_within n (map (take k) cols)"
  by (fastforce simp: cols_within_def)+

lemma cols_within_push: "cols_within n cols \<Longrightarrow> cols_within (Suc n) (push_all cols bs)"
  by (auto simp: cols_within_def push_all_def dest!: set_zip_leftD)

lemma cols_within_update: "cols_within n cols \<Longrightarrow> cols_within n (map2 (\<lambda>c b. c[i := b]) cols bs)"
  by (auto simp: cols_within_def dest!: set_zip_leftD)

lemma cols_within_unaligned: "cols_within n cols \<Longrightarrow> cols_within n (drop_unaligned b a cols)"
proof (induction b a cols rule: drop_unaligned.induct)
  case (1 b a cols)
  then show ?case using cols_within_shrink(1) by (subst drop_unaligned.simps) auto
qed

lemma cols_within_align: "cols_within n cols \<Longrightarrow> align_blocks b a cols = Inr res \<Longrightarrow> cols_within n res"
  using cols_within_unaligned by (auto simp: align_blocks_def split: if_splits)

lemma full_loop_within: "cols_within n acc \<Longrightarrow> full_loop p gids hs acc = Inr res \<Longrightarrow> cols_within (n + length hs) res"
proof (induction hs arbitrary: n acc)
  case (Cons h hs)
  obtain r where r: "hit p h gids = Inr r" using Cons.prems(2) by (auto simp: py_simps)
  show ?case
  proof (cases r)
    case None
    then show ?thesis using Cons.prems r by (auto simp: cols_within_def)
  next
    case (Some bs)
    then show ?thesis using Cons.IH [OF cols_within_push [OF Cons.prems(1)]] Cons.prems(2) r by simp
  qed
qed simp

lemma sw_loop_within:
  "cols_within n cols \<Longrightarrow> sw_loop p hs gids b a need i cols run = Inr (res, run', found) \<Longrightarrow> cols_within n res"
proof (induction i arbitrary: cols run)
  case (Suc i)
  obtain h r where r: "py_nth hs (int i) = Inr h" "hit p h gids = Inr r"
    using Suc.prems(2) by (auto simp only: sw_loop.simps rbind_Inr_iff)
  show ?case
  proof (cases r)
    case None
    then show ?thesis using Suc.IH [OF Suc.prems(1)] Suc.prems(2) r by (simp only: sw_loop.simps rbind_simps option.case)
  next
    case (Some bs)
    note up = cols_within_update [OF Suc.prems(1), of i bs]
    show ?thesis
      using Suc.prems(2) Suc.IH [OF Suc.prems(1)] Suc.IH [OF up] cols_within_shrink(2) [OF up] r Some
      by (auto simp: Let_def py_simps simp del: py_nth_nat split: if_splits)
  qed
qed simp

lemma chunk_loop_within:
  "cols_within (nat s) acc \<Longrightarrow> 0 \<le> s \<Longrightarrow> s \<le> m \<Longrightarrow> chunk_loop p hs gids [s..m - 1] acc = Inr res \<Longrightarrow> cols_within (nat m) res"
proof (induction "nat (m - s)" arbitrary: s acc)
  case 0
  then show ?case by simp
next
  case (Suc d)
  then have u: "[s..m - 1] = s # [s + 1..m - 1]" by (subst upto_rec1) simp_all
  obtain h r where r: "py_nth hs s = Inr h" "hit p h gids = Inr r" using Suc.prems(4) u by (auto simp: py_simps)
  show ?case
  proof (cases r)
    case None
    then have "res = acc" using Suc.prems(4) u r by simp
    then show ?thesis using Suc.prems(1,3) by (auto simp: cols_within_def)
  next
    case (Some bs)
    have "cols_within (nat (s + 1)) (push_all acc bs)" using cols_within_push [OF Suc.prems(1)] Suc.prems(2) by (simp add: nat_add_distrib)
    then show ?thesis using Suc.hyps(1) [of "s + 1"] Suc.hyps(2) Suc.prems u r Some by simp
  qed
qed

lemma mamba_loop_within: "mamba_loop p hs gids b a i (replicate k []) = Inr res \<Longrightarrow> cols_within i res"
proof (induction i)
  case (Suc i)
  have "cols_within (Suc i) (map2 (\<lambda>c b. c @ replicate i (null_block p) @ [b]) (replicate k []) bs)" for bs
    by (auto simp: cols_within_def dest!: set_zip_leftD)
  moreover have "cols_within (Suc i) res" if "cols_within i res" using that by (auto simp: cols_within_def)
  ultimately show ?case using Suc by (auto simp: py_simps split: if_splits option.splits)
qed (simp add: eq_commute)

text \<open>Block and chunk sizes are positive.\<close>

definition spec_ok :: "kv_cache_spec \<Rightarrow> bool" where
  "spec_ok spec \<longleftrightarrow> 0 < spec_block_size spec \<and> (case spec_kind spec of ChunkedLocalAttentionSpec chunk \<Rightarrow> 0 < chunk | _ \<Rightarrow> True)"

lemma sliding_within:
  assumes "sliding_hit w spec hs L gids p e a dcp pcp = Inr res"
  shows "cols_within (nat (L div spec_block_size spec)) res"
proof (rule sliding_parts [OF assms])
  let ?B = "spec_block_size spec" let ?m = "nat (L div ?B)"
  fix need cols k found cols'
  assume l: "sw_loop p hs gids ?B a need ?m (replicate (length gids) (replicate ?m (null_block p))) 0 = Inr (cols, k, found)"
    and al: "(if found then Inr cols else align_blocks ?B a (map (take k) cols)) = Inr cols'" and t: "res = cols' \<or> res = map butlast cols'"
  have "cols_within ?m cols" by (rule sw_loop_within [OF _ l]) simp
  then have "cols_within ?m cols'"
    using al cols_within_align [OF cols_within_shrink(2)] by (cases found) auto
  then show ?thesis using t cols_within_shrink(1) by auto
qed

lemma hit_within:
  assumes "spec_ok spec" "0 \<le> L" "find_longest_cache_hit spec hs L gids p e a 1 1 = Inr res" "c \<in> set res"
  shows "int (length c) * spec_block_size spec \<le> L"
proof -
  let ?B = "spec_block_size spec" let ?m = "nat (L div ?B)"
  have B: "0 < ?B" using assms(1) by (simp add: spec_ok_def)
  have full: "cols_within ?m res" if run: "full_hit spec hs L gids p e a 1 1 = Inr res"
  proof -
    obtain cols cols' where l: "full_loop p gids (take ?m hs) (replicate (length gids) []) = Inr cols"
      "eagle_drop e cols = Inr cols'" "align_blocks ?B a cols' = Inr res"
      using run B by (auto simp: full_hit_def Let_def py_simps rdiv_def split: if_splits)
    have "cols_within (0 + length (take ?m hs)) cols" by (rule full_loop_within [OF _ l(1)]) simp
    then have "cols_within ?m cols" by (auto simp: cols_within_def)
    then have "cols_within ?m cols'" using l(2) cols_within_shrink(1) by (auto simp: eagle_drop_def py_simps split: if_splits)
    then show ?thesis using l(3) cols_within_align by blast
  qed
  have "cols_within ?m res"
  proof (cases "spec_kind spec")
    case (SlidingWindowSpec w)
    then show ?thesis using assms(3) sliding_within by (simp add: find_longest_cache_hit_def)
  next
    case (ChunkedLocalAttentionSpec c)
    then have c: "0 < c" using assms(1) by (simp add: spec_ok_def)
    let ?s = "if L > 0 then L div c * c else 0"
    obtain s where s: "chunk_loop p hs gids [s div ?B..L div ?B - 1] (replicate (length gids) (replicate (nat (s div ?B)) (null_block p))) = Inr res"
      "s = ?s"
      using assms(3) ChunkedLocalAttentionSpec B c that [of ?s]
      by (auto simp: find_longest_cache_hit_def chunked_hit_def Let_def py_simps rdiv_def split: if_splits)
    have "0 \<le> L div c * c" "L div c * c \<le> L" using c assms(2) by (simp_all add: pos_imp_zdiv_nonneg_iff int_le_div_iff [symmetric])
    then have "0 \<le> s" "s \<le> L" using s(2) assms(2) by auto
    then have "0 \<le> s div ?B" "s div ?B \<le> L div ?B" using B by (simp_all add: pos_imp_zdiv_nonneg_iff zdiv_mono1)
    then show ?thesis using chunk_loop_within [OF _ _ _ s(1)] by simp
  next
    case (MambaSpec k)
    then show ?thesis using assms(3) B mamba_loop_within by (auto simp: find_longest_cache_hit_def mamba_hit_def py_simps rdiv_def)
  qed (use assms(3) full in \<open>simp_all add: find_longest_cache_hit_def cross_hit_def\<close>)
  then have "length c \<le> ?m" using assms(4) by (auto simp: cols_within_def)
  then have "int (length c) \<le> L div ?B" using B assms(2) by (simp add: pos_imp_zdiv_nonneg_iff nat_le_iff le_nat_iff)
  then show ?thesis using int_le_div_iff [OF B] by simp
qed

end
