(* ===== verification/KV_Coord.thy ===== *)
theory KV_Coord
  imports Cache_Hit
begin

text \<open>
  The managers of one attention type and the coordinator over the cache groups
  (\<open>v1/core/single_type_kv_cache_manager.py\<close>, \<open>v1/core/kv_cache_coordinator.py\<close>). All managers
  share the block pool, so one state holds the pool and the managers; a manager is its index.
  \<open>req_to_blocks\<close> is a \<open>defaultdict\<close>: reading it enters an empty list.
\<close>

section \<open>State\<close>

record single_type_manager =
  m_spec :: kv_cache_spec
  m_block_size :: int
  req_to_blocks :: "(string, nat list) dict"
  num_cached_block :: "(string, int) dict"
  kv_cache_group_id :: int

record hybrid_groups =
  full_attention_group_ids :: "nat list"
  other_group_ids :: "nat list"
  full_attention_spec :: kv_cache_spec
  other_spec :: kv_cache_spec
  lcm_block_size :: int
  full_attn_first :: bool

datatype coordinator_class = NoPrefixCache | Unitary | Hybrid hybrid_groups

record coordinator =
  pool :: block_pool
  managers :: "single_type_manager list"
  coord_class :: coordinator_class
  use_eagle :: bool
  dcp_world_size :: int
  pcp_world_size :: int
  max_model_len :: int

type_synonym 'a coord = "(coordinator, 'a) sprog"

definition on_pool :: "(block_pool, 'a) sprog \<Rightarrow> 'a coord" where
  "on_pool f c = (let (r, p) = f (pool c) in (r, c\<lparr>pool := p\<rparr>))"

definition upd_manager :: "nat \<Rightarrow> (single_type_manager \<Rightarrow> single_type_manager) \<Rightarrow> coordinator \<Rightarrow> coordinator" where
  "upd_manager m f c = c\<lparr>managers := (managers c)[m := f (managers c ! m)]\<rparr>"

definition manager_init :: "kv_cache_spec \<Rightarrow> int \<Rightarrow> int \<Rightarrow> int \<Rightarrow> single_type_manager" where
  "manager_init spec gid dcp pcp =
     \<lparr>m_spec = spec, m_block_size = (if dcp * pcp > 1 then spec_block_size spec * (dcp * pcp) else spec_block_size spec),
      req_to_blocks = [], num_cached_block = [], kv_cache_group_id = gid\<rparr>"

section \<open>One manager\<close>

text \<open>\<open>self.req_to_blocks[request_id]\<close>.\<close>

definition read_blocks :: "nat \<Rightarrow> string \<Rightarrow> nat list coord" where
  "read_blocks m rid c =
     (let bs = dget (req_to_blocks (managers c ! m)) rid []
      in (Inr bs, upd_manager m (\<lambda>g. g\<lparr>req_to_blocks := AList.update rid bs (req_to_blocks g)\<rparr>) c))"

definition set_blocks :: "nat \<Rightarrow> string \<Rightarrow> nat list \<Rightarrow> coordinator \<Rightarrow> coordinator" where
  "set_blocks m rid bs = upd_manager m (\<lambda>g. g\<lparr>req_to_blocks := AList.update rid bs (req_to_blocks g)\<rparr>)"

text \<open>Mamba managers reserve blocks for speculative decoding.\<close>

definition speculative_tokens :: "kv_cache_spec \<Rightarrow> int" where
  "speculative_tokens spec =
     (case spec_kind spec of MambaSpec n \<Rightarrow> if n > 0 then spec_block_size spec * n else 0 | _ \<Rightarrow> 0)"

definition get_num_blocks_to_allocate1 :: "nat \<Rightarrow> string \<Rightarrow> int \<Rightarrow> nat list \<Rightarrow> int coord" where
  "get_num_blocks_to_allocate1 m rid n_tokens new_computed =
     pbind (pget (\<lambda>c. managers c ! m)) (\<lambda>g.
     pbind (plift (rcdiv (n_tokens + speculative_tokens (m_spec g)) (m_block_size g))) (\<lambda>required.
     pbind (read_blocks m rid) (\<lambda>bs c.
       let evictable = length (filter (\<lambda>b. ref_cnt (blocks (pool c) ! b) = 0 \<and> \<not> is_null (blocks (pool c) ! b)) new_computed)
       in (Inr (required - int (length new_computed) - int (length bs) + int evictable), c))))"

definition save_new_computed_blocks1 :: "nat \<Rightarrow> string \<Rightarrow> nat list \<Rightarrow> unit coord" where
  "save_new_computed_blocks1 m rid new_computed c =
     (let g = managers c ! m
      in if spec_kind (m_spec g) = CrossAttentionSpec
         then (if new_computed = [] then Inr () else Inl AssertionError, c)
         else if map_of (num_cached_block g) rid = None
         then pbind (read_blocks m rid) (\<lambda>bs.
                if bs \<noteq> [] then praise AssertionError
                else pmodify (\<lambda>c. upd_manager m (\<lambda>g. g\<lparr>num_cached_block := AList.update rid (int (length new_computed)) (num_cached_block g)\<rparr>)
                       (set_blocks m rid (bs @ new_computed) c))) c
         else (if new_computed = [] then Inr () else Inl AssertionError, c))"

definition allocate_new_blocks1 :: "nat \<Rightarrow> string \<Rightarrow> int \<Rightarrow> nat list coord" where
  "allocate_new_blocks1 m rid n_tokens =
     pbind (pget (\<lambda>c. managers c ! m)) (\<lambda>g.
     pbind (read_blocks m rid) (\<lambda>bs.
     pbind (plift (rcdiv (n_tokens + speculative_tokens (m_spec g)) (m_block_size g))) (\<lambda>required.
       let num_new = required - int (length bs)
       in if num_new \<le> 0 then pret []
          else pbind (on_pool (get_new_blocks num_new)) (\<lambda>new.
               pbind (pmodify (set_blocks m rid (bs @ new))) (\<lambda>_. pret new)))))"

definition cache_blocks1 :: "request \<Rightarrow> int \<Rightarrow> nat \<Rightarrow> unit coord" where
  "cache_blocks1 r n_tokens m c =
     (let g = managers c ! m
      in if spec_kind (m_spec g) = CrossAttentionSpec then (Inl ValueError, c)
         else pbind (plift (rdiv n_tokens (m_block_size g))) (\<lambda>num_full.
           let num_cached = dget (num_cached_block g) (request_id r) 0
           in if num_cached \<ge> num_full then pret ()
              else pbind (read_blocks m (request_id r)) (\<lambda>bs.
                   pbind (on_pool (cache_full_blocks r bs num_cached num_full (m_block_size g) (kv_cache_group_id g))) (\<lambda>_.
                   pmodify (upd_manager m (\<lambda>g. g\<lparr>num_cached_block := AList.update (request_id r) num_full (num_cached_block g)\<rparr>))))) c)"

definition free1 :: "string \<Rightarrow> nat \<Rightarrow> unit coord" where
  "free1 rid m =
     pbind (pget (\<lambda>c. dget (req_to_blocks (managers c ! m)) rid [])) (\<lambda>bs.
     pbind (pmodify (upd_manager m (\<lambda>g. g\<lparr>req_to_blocks := AList.delete rid (req_to_blocks g)\<rparr>))) (\<lambda>_.
     pbind (on_pool (free_blocks (rev bs))) (\<lambda>_.
     pmodify (upd_manager m (\<lambda>g. g\<lparr>num_cached_block := AList.delete rid (num_cached_block g)\<rparr>)))))"

definition sliding_skipped_tokens :: "int \<Rightarrow> int \<Rightarrow> int" where
  "sliding_skipped_tokens window n = n - window + 1"

definition chunked_skipped_tokens :: "int \<Rightarrow> int \<Rightarrow> int res" where
  "chunked_skipped_tokens chunk n = rbind (rdiv n chunk) (\<lambda>q. Inr (q * chunk))"

text \<open>The method of the base class and the classes that override it.\<close>

definition get_num_skipped_tokens :: "kv_cache_spec \<Rightarrow> int \<Rightarrow> int res" where
  "get_num_skipped_tokens spec n =
     (case spec_kind spec of
        SlidingWindowSpec window \<Rightarrow> Inr (sliding_skipped_tokens window n)
      | ChunkedLocalAttentionSpec chunk \<Rightarrow> chunked_skipped_tokens chunk n
      | _ \<Rightarrow> Inr 0)"

text \<open>The loop from the last skipped block down to the first null block: the new list and the blocks removed.\<close>

primrec skip_loop :: "nat \<Rightarrow> nat \<Rightarrow> nat list \<Rightarrow> nat list \<Rightarrow> (nat list \<times> nat list) res" where
  "skip_loop null 0 bs removed = Inr (bs, removed)"
| "skip_loop null (Suc i) bs removed =
     rbind (py_nth bs (int i)) (\<lambda>b.
       if b = null then Inr (bs, removed) else skip_loop null i (bs[i := null]) (removed @ [b]))"

definition remove_skipped_blocks1 :: "string \<Rightarrow> int \<Rightarrow> nat \<Rightarrow> unit coord" where
  "remove_skipped_blocks1 rid n m =
     pbind (pget (\<lambda>c. managers c ! m)) (\<lambda>g.
     pbind (plift (get_num_skipped_tokens (m_spec g) n)) (\<lambda>skipped.
       if skipped \<le> 0 then pret ()
       else pbind (plift (rdiv skipped (m_block_size g))) (\<lambda>k.
            pbind (read_blocks m rid) (\<lambda>bs.
            pbind (pget (\<lambda>c. skip_loop (null_block (pool c)) (nat k) bs [])) (\<lambda>r.
            pbind (plift r) (\<lambda>(bs', removed).
            pbind (pmodify (set_blocks m rid bs')) (\<lambda>_.
            on_pool (free_blocks removed))))))))"

definition common_run :: "block_pool \<Rightarrow> int \<Rightarrow> nat list \<Rightarrow> int" where
  "common_run p n bs = int (length (takeWhile (\<lambda>b. ref_cnt (blocks p ! b) = n) bs))"

definition get_num_common_prefix_blocks1 :: "string \<Rightarrow> nat \<Rightarrow> int coord" where
  "get_num_common_prefix_blocks1 rid m c =
     (if is_full (m_spec (managers c ! m))
      then pbind (read_blocks m rid) (\<lambda>bs c.
             (Inr (common_run (pool c) (int (length (req_to_blocks (managers c ! m)))) bs), c)) c
      else (Inr 0, c))"

section \<open>The coordinator\<close>

definition is_cross :: "single_type_manager \<Rightarrow> bool" where
  "is_cross g \<longleftrightarrow> spec_kind (m_spec g) = CrossAttentionSpec"

text \<open>A loop over the managers that adds up, or collects, what a call returns for each of them.\<close>

primrec pmap :: "('a \<Rightarrow> ('s, 'b) sprog) \<Rightarrow> 'a list \<Rightarrow> ('s, 'b list) sprog" where
  "pmap f [] = pret []"
| "pmap f (x # xs) = pbind (f x) (\<lambda>y. pbind (pmap f xs) (\<lambda>ys. pret (y # ys)))"

definition manager_ids :: "coordinator \<Rightarrow> nat list" where
  "manager_ids c = [0..<length (managers c)]"

definition over_managers :: "(nat \<Rightarrow> unit coord) \<Rightarrow> unit coord" where
  "over_managers f c = pseq f (manager_ids c) c"

definition pick_group :: "nat list list \<Rightarrow> nat \<Rightarrow> nat list res" where
  "pick_group bss m = py_nth bss (int m)"

definition get_num_blocks_to_allocate :: "string \<Rightarrow> int \<Rightarrow> nat list list \<Rightarrow> int \<Rightarrow> int coord" where
  "get_num_blocks_to_allocate rid n_tokens new_computed n_encoder c =
     pbind (pmap (\<lambda>m c.
         if is_cross (managers c ! m) then get_num_blocks_to_allocate1 m rid n_encoder [] c
         else pbind (plift (pick_group new_computed m)) (get_num_blocks_to_allocate1 m rid n_tokens) c) (manager_ids c))
       (\<lambda>ns. pret (sum_list ns)) c"

definition save_new_computed_blocks :: "string \<Rightarrow> nat list list \<Rightarrow> unit coord" where
  "save_new_computed_blocks rid new_computed =
     over_managers (\<lambda>m. pbind (plift (pick_group new_computed m)) (save_new_computed_blocks1 m rid))"

definition allocate_new_blocks :: "string \<Rightarrow> int \<Rightarrow> int \<Rightarrow> nat list list coord" where
  "allocate_new_blocks rid n_tokens n_encoder c =
     pmap (\<lambda>m c. allocate_new_blocks1 m rid (if is_cross (managers c ! m) then n_encoder else n_tokens) c) (manager_ids c) c"

definition cache_blocks :: "request \<Rightarrow> int \<Rightarrow> unit coord" where
  "cache_blocks r n_computed = over_managers (cache_blocks1 r n_computed)"

definition coord_free :: "string \<Rightarrow> unit coord" where
  "coord_free rid = over_managers (free1 rid)"

definition remove_skipped_blocks :: "string \<Rightarrow> int \<Rightarrow> unit coord" where
  "remove_skipped_blocks rid n = over_managers (remove_skipped_blocks1 rid n)"

definition coord_get_blocks :: "coordinator \<Rightarrow> string \<Rightarrow> nat list list" where
  "coord_get_blocks c rid = map (\<lambda>g. dget (req_to_blocks g) rid []) (managers c)"

definition get_num_common_prefix_blocks :: "string \<Rightarrow> int list coord" where
  "get_num_common_prefix_blocks rid c =
     (case coord_class c of
        NoPrefixCache \<Rightarrow> (Inr (replicate (length (managers c)) 0), c)
      | _ \<Rightarrow> pmap (get_num_common_prefix_blocks1 rid) (manager_ids c) c)"

section \<open>Cache hits of the coordinator\<close>

definition scaled_block_size :: "coordinator \<Rightarrow> kv_cache_spec \<Rightarrow> int" where
  "scaled_block_size c spec =
     spec_block_size spec * (if dcp_world_size c > 1 then dcp_world_size c else 1) * (if pcp_world_size c > 1 then pcp_world_size c else 1)"

text \<open>The hashes of a request at the block size of a spec.\<close>

definition hashes_for :: "coordinator \<Rightarrow> kv_cache_spec \<Rightarrow> bytes list \<Rightarrow> bytes list res" where
  "hashes_for c spec hs =
     (if spec_block_size spec = hash_block_size (pool c) then Inr hs
      else rbind (scaled_init hs (hash_block_size (pool c)) (spec_block_size spec)) scaled_iter)"

definition first_len :: "nat list list \<Rightarrow> int res" where
  "first_len bss = (case bss of [] \<Rightarrow> Inl IndexError | b # _ \<Rightarrow> Inr (int (length b)))"

definition hybrid_hit :: "coordinator \<Rightarrow> hybrid_groups \<Rightarrow> bytes list \<Rightarrow> int \<Rightarrow> (nat list list \<times> int) res" where
  "hybrid_hit c h hs max_length =
     rbind (hashes_for c (full_attention_spec h) hs) (\<lambda>full_hs.
     rbind (full_hit (full_attention_spec h) full_hs max_length (map int (full_attention_group_ids h)) (pool c)
              (use_eagle c) (lcm_block_size h) 1 1) (\<lambda>full_blocks.
     rbind (first_len full_blocks) (\<lambda>n.
     rbind (hashes_for c (other_spec h) hs) (\<lambda>other_hs.
     rbind (find_longest_cache_hit (other_spec h) other_hs (n * spec_block_size (full_attention_spec h))
              (map int (other_group_ids h)) (pool c) (use_eagle c) (lcm_block_size h) 1 1) (\<lambda>other_blocks.
     rbind (first_len other_blocks) (\<lambda>k.
       let hit_length = k * spec_block_size (other_spec h)
       in rbind (rmod hit_length (spec_block_size (full_attention_spec h))) (\<lambda>m.
          if m \<noteq> 0 then Inl AssertionError
          else let full_blocks = map (take (nat (hit_length div spec_block_size (full_attention_spec h)))) full_blocks
               in Inr (if full_attn_first h then full_blocks @ other_blocks else other_blocks @ full_blocks, hit_length))))))))"

definition coord_find_longest_cache_hit :: "coordinator \<Rightarrow> bytes list \<Rightarrow> int \<Rightarrow> (nat list list \<times> int) res" where
  "coord_find_longest_cache_hit c hs max_length =
     (case coord_class c of
        NoPrefixCache \<Rightarrow> Inr (replicate (length (managers c)) [], 0)
      | Unitary \<Rightarrow>
          (case managers c of
             [] \<Rightarrow> Inl IndexError
           | g # _ \<Rightarrow>
               let block_size = scaled_block_size c (m_spec g)
               in rbind (find_longest_cache_hit (m_spec g) hs max_length [0] (pool c) (use_eagle c) block_size
                           (dcp_world_size c) (pcp_world_size c)) (\<lambda>hit_blocks.
                  rbind (first_len hit_blocks) (\<lambda>n. Inr (hit_blocks, n * block_size))))
      | Hybrid h \<Rightarrow> hybrid_hit c h hs max_length)"

section \<open>Construction\<close>

record coord_config =
  cfg_groups :: "kv_cache_spec list"
  cfg_num_blocks :: int
  cfg_max_model_len :: int
  cfg_use_eagle :: bool
  cfg_enable_caching :: bool
  cfg_kv_events :: bool
  cfg_int_hashes :: bool
  cfg_dcp :: int
  cfg_pcp :: int
  cfg_hash_block_size :: int

definition coord_base :: "coord_config \<Rightarrow> bool \<Rightarrow> coordinator_class \<Rightarrow> coordinator res" where
  "coord_base cfg caching cls =
     rbind (pool_init (cfg_num_blocks cfg) caching (cfg_hash_block_size cfg) (cfg_kv_events cfg) (cfg_int_hashes cfg)) (\<lambda>p.
       Inr \<lparr>pool = p,
            managers = map2 (\<lambda>i spec. manager_init spec (int i) (cfg_dcp cfg) (cfg_pcp cfg))
                         [0..<length (cfg_groups cfg)] (cfg_groups cfg),
            coord_class = cls, use_eagle = cfg_use_eagle cfg, dcp_world_size = cfg_dcp cfg,
            pcp_world_size = cfg_pcp cfg, max_model_len = cfg_max_model_len cfg\<rparr>)"

definition unitary_init :: "coord_config \<Rightarrow> coordinator res" where
  "unitary_init cfg =
     rbind (coord_base cfg (cfg_enable_caching cfg) Unitary) (\<lambda>c.
       case cfg_groups cfg of
         [] \<Rightarrow> Inl IndexError
       | spec # rest \<Rightarrow>
           if cfg_enable_caching cfg \<and> cfg_hash_block_size cfg \<noteq> scaled_block_size c spec then Inl AssertionError
           else if rest \<noteq> [] then Inl AssertionError
           else Inr c)"

text \<open>The first spec of each of the two types and the ids of its groups.\<close>

primrec split_groups :: "nat \<Rightarrow> kv_cache_spec list \<Rightarrow> kv_cache_spec option \<Rightarrow> kv_cache_spec option \<Rightarrow> nat list \<Rightarrow> nat list \<Rightarrow>
    (kv_cache_spec option \<times> kv_cache_spec option \<times> nat list \<times> nat list) res" where
  "split_groups i [] full other full_ids other_ids = Inr (full, other, full_ids, other_ids)"
| "split_groups i (s # ss) full other full_ids other_ids =
     (if is_full s
      then if full \<noteq> None \<and> full \<noteq> Some s then Inl AssertionError
           else split_groups (Suc i) ss (Some s) other (full_ids @ [i]) other_ids
      else if other \<noteq> None \<and> other \<noteq> Some s then Inl AssertionError
           else split_groups (Suc i) ss full (Some s) full_ids (other_ids @ [i]))"

definition verify_and_split_kv_cache_groups :: "kv_cache_spec list \<Rightarrow> hybrid_groups res" where
  "verify_and_split_kv_cache_groups specs =
     rbind (split_groups 0 specs None None [] []) (\<lambda>(full, other, full_ids, other_ids).
       case (full, other) of
         (Some f, Some g) \<Rightarrow>
           let h = \<lparr>full_attention_group_ids = full_ids, other_group_ids = other_ids, full_attention_spec = f, other_spec = g,
                    lcm_block_size = lcm (spec_block_size f) (spec_block_size g), full_attn_first = True\<rparr>
           in if Max (set full_ids) < Min (set other_ids) then Inr h
              else if Max (set other_ids) < Min (set full_ids) then Inr (h\<lparr>full_attn_first := False\<rparr>)
              else Inl ValueError
       | _ \<Rightarrow> Inl AssertionError)"

definition hybrid_init :: "coord_config \<Rightarrow> coordinator res" where
  "hybrid_init cfg =
     rbind (coord_base cfg (cfg_enable_caching cfg) NoPrefixCache) (\<lambda>c.
       if cfg_groups cfg \<noteq> [] \<and> cfg_hash_block_size cfg = 0 then Inl ZeroDivisionError
       else if \<exists>s \<in> set (cfg_groups cfg). spec_block_size s mod cfg_hash_block_size cfg \<noteq> 0 then Inl AssertionError
       else if cfg_dcp cfg \<noteq> 1 \<or> cfg_pcp cfg \<noteq> 1 then Inl AssertionError
       else rbind (verify_and_split_kv_cache_groups (cfg_groups cfg)) (\<lambda>h. Inr (c\<lparr>coord_class := Hybrid h\<rparr>)))"

definition get_kv_cache_coordinator :: "coord_config \<Rightarrow> coordinator res" where
  "get_kv_cache_coordinator cfg =
     (if \<not> cfg_enable_caching cfg then coord_base cfg False NoPrefixCache
      else if length (cfg_groups cfg) = 1 then unitary_init cfg
      else hybrid_init cfg)"

end
