(* ===== verification/KV_Manager.thy ===== *)
theory KV_Manager
  imports KV_Coord "HOL-Library.List_Lexorder" "HOL-Library.Char_ord"
begin

text \<open>
  The KV-cache manager of the engine (\<open>v1/core/kv_cache_manager.py\<close>): prefix lookup, allocation
  of slots, pinning and unpinning of the blocks of a request, freeing and statistics, and the
  entry points of \<open>v1/engine/core.py\<close> that pin and unpin.
\<close>

section \<open>Allocation results\<close>

text \<open>
  A \<open>KVCacheBlocks\<close> object: \<open>None\<close> is the one shared empty object of the manager, which callers
  also pass for "no computed blocks"; the code compares with it by identity.
\<close>

type_synonym kv_cache_blocks = "nat list list option"

definition blocks_of :: "nat \<Rightarrow> kv_cache_blocks \<Rightarrow> nat list list" where
  "blocks_of n kb = (case kb of None \<Rightarrow> replicate n [] | Some bss \<Rightarrow> bss)"

definition create_kv_cache_blocks :: "nat list list \<Rightarrow> kv_cache_blocks" where
  "create_kv_cache_blocks bss = (if \<exists>bs \<in> set bss. bs \<noteq> [] then Some bss else None)"

definition kvb_add :: "nat list list \<Rightarrow> nat list list \<Rightarrow> nat list list" where
  "kvb_add xs ys = map2 (@) xs ys"

definition get_block_ids :: "bool \<Rightarrow> nat list list \<Rightarrow> nat list list option" where
  "get_block_ids allow_none bss = (if allow_none \<and> (\<forall>bs \<in> set bss. length bs = 0) then None else Some bss)"

definition get_unhashed_block_ids :: "block_pool \<Rightarrow> nat list list \<Rightarrow> nat list res" where
  "get_unhashed_block_ids p bss =
     (case bss of [bs] \<Rightarrow> Inr (filter (\<lambda>b. b_hash (blocks p ! b) = None) bs) | _ \<Rightarrow> Inl AssertionError)"

definition new_empty :: "nat list list \<Rightarrow> nat list list" where
  "new_empty bss = replicate (length bss) []"

section \<open>Statistics\<close>

record prefix_cache_stats =
  st_reset :: bool
  st_requests :: int
  st_queries :: int
  st_hits :: int
  preempted_requests :: int
  preempted_queries :: int
  preempted_hits :: int

definition new_stats :: prefix_cache_stats where
  "new_stats = \<lparr>st_reset = False, st_requests = 0, st_queries = 0, st_hits = 0,
     preempted_requests = 0, preempted_queries = 0, preempted_hits = 0\<rparr>"

definition record_stats :: "int \<Rightarrow> int \<Rightarrow> bool \<Rightarrow> prefix_cache_stats \<Rightarrow> prefix_cache_stats" where
  "record_stats n hits preempted s =
     (if preempted
      then s\<lparr>preempted_requests := preempted_requests s + 1, preempted_queries := preempted_queries s + n,
             preempted_hits := preempted_hits s + hits\<rparr>
      else s\<lparr>st_requests := st_requests s + 1, st_queries := st_queries s + n, st_hits := st_hits s + hits\<rparr>)"

section \<open>The manager\<close>

record kv_cache_manager =
  coord :: coordinator
  km_enable_caching :: bool
  log_stats :: bool
  prefix_cache_stats :: prefix_cache_stats

type_synonym 'a km = "(kv_cache_manager, 'a) sprog"

definition on_coord :: "'a coord \<Rightarrow> 'a km" where
  "on_coord f k = (let (r, c) = f (coord k) in (r, k\<lparr>coord := c\<rparr>))"

definition num_groups :: "kv_cache_manager \<Rightarrow> nat" where
  "num_groups k = length (managers (coord k))"

definition manager_new :: "coord_config \<Rightarrow> bool \<Rightarrow> kv_cache_manager res" where
  "manager_new cfg logging =
     rbind (get_kv_cache_coordinator cfg) (\<lambda>c.
       Inr \<lparr>coord = c, km_enable_caching = cfg_enable_caching cfg, log_stats = logging, prefix_cache_stats = new_stats\<rparr>)"

definition usage :: "kv_cache_manager \<Rightarrow> rat" where
  "usage k = get_usage (pool (coord k))"

definition make_prefix_cache_stats :: "kv_cache_manager \<Rightarrow> prefix_cache_stats option \<times> kv_cache_manager" where
  "make_prefix_cache_stats k =
     (if log_stats k then (Some (prefix_cache_stats k), k\<lparr>prefix_cache_stats := new_stats\<rparr>) else (None, k))"

definition get_computed_blocks :: "request \<Rightarrow> (kv_cache_blocks \<times> int) km" where
  "get_computed_blocks r k =
     (if \<not> km_enable_caching k \<or> skip_reading_prefix_cache r then (Inr (None, 0), k)
      else case coord_find_longest_cache_hit (coord k) (block_hashes r) (num_tokens r - 1) of
          Inl e \<Rightarrow> (Inl e, k)
        | Inr (bss, n) \<Rightarrow>
            (Inr (create_kv_cache_blocks bss, n),
             if log_stats k
             then k\<lparr>prefix_cache_stats := record_stats (num_tokens r) n (num_preemptions r > 0) (prefix_cache_stats k)\<rparr>
             else k))"

definition set_block_pin :: "bool \<Rightarrow> nat \<Rightarrow> block_pool \<Rightarrow> block_pool" where
  "set_block_pin v b = upd_block b (\<lambda>x. x\<lparr>pinned := v\<rparr>)"

definition pin_block :: "nat \<Rightarrow> block_pool \<Rightarrow> block_pool" where
  "pin_block b p = (if is_null (blocks p ! b) \<or> b_hash (blocks p ! b) = None then p else set_block_pin True b p)"

definition pin_request :: "string \<Rightarrow> unit coord" where
  "pin_request rid c = (Inr (), c\<lparr>pool := fold pin_block (concat (coord_get_blocks c rid)) (pool c)\<rparr>)"

definition unpin_request :: "string \<Rightarrow> unit coord" where
  "unpin_request rid =
     pbind (\<lambda>c. (Inr (), c\<lparr>pool := fold (set_block_pin False) (concat (coord_get_blocks c rid)) (pool c)\<rparr>)) (\<lambda>_. coord_free rid)"

text \<open>The coordinator calls of \<open>allocate_slots\<close> once there is room, in order.\<close>

definition commit_slots :: "request \<Rightarrow> int \<Rightarrow> int \<Rightarrow> int \<Rightarrow> kv_cache_blocks \<Rightarrow> bool \<Rightarrow> bool \<Rightarrow> int \<Rightarrow> kv_cache_blocks option coord" where
  "commit_slots r need_slot n_computed n_new computed caching delay n_encoder c =
     (let bss = blocks_of (length (managers c)) computed
      in pbind (if caching then on_pool (touch bss)
                else if \<exists>bs \<in> set bss. bs \<noteq> [] then praise AssertionError else pret ()) (\<lambda>_.
         pbind (case computed of None \<Rightarrow> pret () | Some _ \<Rightarrow> save_new_computed_blocks (request_id r) bss) (\<lambda>_.
         pbind (allocate_new_blocks (request_id r) need_slot n_encoder) (\<lambda>new.
           if \<not> caching \<or> delay then pret (Some (create_kv_cache_blocks new))
           else pbind (cache_blocks r (min (n_computed + n_new) (num_tokens r))) (\<lambda>_.
                pbind (if r_pinned r then pin_request (request_id r) else pret ()) (\<lambda>_.
                pret (Some (create_kv_cache_blocks new)))))))) c"

definition allocate_slots_c :: "request \<Rightarrow> int \<Rightarrow> int \<Rightarrow> kv_cache_blocks \<Rightarrow> int \<Rightarrow> bool \<Rightarrow> int \<Rightarrow> bool \<Rightarrow> kv_cache_blocks option coord" where
  "allocate_slots_c r n_new n_new_computed computed lookahead delay n_encoder caching =
     (if n_new = 0 then praise ValueError
      else pbind (remove_skipped_blocks (request_id r) (num_computed_tokens r)) (\<lambda>_ c.
        let bss = blocks_of (length (managers c)) computed;
            n_computed = num_computed_tokens r + n_new_computed;
            need_slot = min (n_computed + n_new + lookahead) (max_model_len c)
        in pbind (get_num_blocks_to_allocate (request_id r) need_slot bss n_encoder) (\<lambda>need c.
             if need > get_num_free_blocks (pool c) then (Inr None, c)
             else commit_slots r need_slot n_computed n_new computed caching delay n_encoder c) c))"

definition allocate_slots :: "request \<Rightarrow> int \<Rightarrow> int \<Rightarrow> kv_cache_blocks \<Rightarrow> int \<Rightarrow> bool \<Rightarrow> int \<Rightarrow> kv_cache_blocks option km" where
  "allocate_slots r n_new n_new_computed computed lookahead delay n_encoder k =
     on_coord (allocate_slots_c r n_new n_new_computed computed lookahead delay n_encoder (km_enable_caching k)) k"

definition km_free :: "request \<Rightarrow> unit km" where
  "km_free r = on_coord (coord_free (request_id r))"

definition km_evict_blocks :: "nat list \<Rightarrow> unit km" where
  "km_evict_blocks ids = on_coord (on_pool (evict_blocks ids))"

definition km_reset_prefix_cache :: "kv_cache_manager \<Rightarrow> bool \<times> kv_cache_manager" where
  "km_reset_prefix_cache k =
     (let (ok, p) = reset_prefix_cache (pool (coord k)); k = k\<lparr>coord := (coord k)\<lparr>pool := p\<rparr>\<rparr>
      in (ok, if ok \<and> log_stats k then k\<lparr>prefix_cache_stats := (prefix_cache_stats k)\<lparr>st_reset := True\<rparr>\<rparr> else k))"

definition km_take_events :: "kv_cache_manager \<Rightarrow> kv_event list \<times> kv_cache_manager" where
  "km_take_events k = (let (es, p) = take_events (pool (coord k)) in (es, k\<lparr>coord := (coord k)\<lparr>pool := p\<rparr>\<rparr>))"

definition km_get_blocks :: "kv_cache_manager \<Rightarrow> string \<Rightarrow> kv_cache_blocks" where
  "km_get_blocks k rid = create_kv_cache_blocks (coord_get_blocks (coord k) rid)"

definition km_get_block_ids :: "kv_cache_manager \<Rightarrow> string \<Rightarrow> nat list list option" where
  "km_get_block_ids k rid = get_block_ids False (blocks_of (num_groups k) (km_get_blocks k rid))"

definition km_cache_blocks :: "request \<Rightarrow> int \<Rightarrow> unit km" where
  "km_cache_blocks r n k = (if km_enable_caching k then on_coord (cache_blocks r n) k else (Inr (), k))"

definition pinned_entry :: "coordinator \<Rightarrow> string \<Rightarrow> (string \<times> nat \<times> nat) option" where
  "pinned_entry c rid =
     (let bs = filter (\<lambda>b. \<not> is_null (blocks (pool c) ! b)) (concat (coord_get_blocks c rid));
          n = length (filter (\<lambda>b. pinned (blocks (pool c) ! b)) bs)
      in if n > 0 then Some (rid, n, length bs) else None)"

definition get_pinned_requests :: "coordinator \<Rightarrow> (string \<times> nat \<times> nat) list" where
  "get_pinned_requests c = List.map_filter (pinned_entry c) (sort (remdups (concat (map (\<lambda>g. dkeys (req_to_blocks g)) (managers c)))))"

section \<open>Entry points of the engine\<close>

definition engine_pin_request :: "string \<Rightarrow> unit km" where
  "engine_pin_request rid = on_coord (pin_request (rid @ ''-0''))"

definition engine_unpin_request :: "string \<Rightarrow> unit km" where
  "engine_unpin_request rid = on_coord (unpin_request rid)"

definition engine_unpin_requests :: "string list \<Rightarrow> unit km" where
  "engine_unpin_requests rids = pseq engine_unpin_request rids"

text \<open>The end of a request in \<open>v1/core/sched/scheduler.py\<close>: the blocks of a pinned request stay.\<close>

definition scheduler_free_request :: "bool \<Rightarrow> request \<Rightarrow> unit km" where
  "scheduler_free_request delay_free_blocks r = (if \<not> delay_free_blocks \<and> \<not> r_pinned r then km_free r else pret ())"

end
