(* ===== verification/KV_Account.thy ===== *)
theory KV_Account
  imports KV_Manager
begin

text \<open>
  Accounting of block references: the reference count of a block is the number of times the
  requests of all cache groups hold it. The invariant \<open>coord_ok\<close> is kept by every operation of
  the coordinator and of the KV-cache manager.
\<close>

section \<open>References held_by by requests\<close>

definition refs_in :: "(string, nat list) dict \<Rightarrow> nat \<Rightarrow> int" where
  "refs_in d i = (\<Sum>(rid, bs) \<leftarrow> d. int (count_list bs i))"

definition held_by :: "coordinator \<Rightarrow> nat \<Rightarrow> int" where
  "held_by c i = (\<Sum>g \<leftarrow> managers c. refs_in (req_to_blocks g) i)"

definition valid_list :: "block_pool \<Rightarrow> nat list \<Rightarrow> bool" where
  "valid_list p bs \<longleftrightarrow> set bs \<subseteq> {..<length (blocks p)} \<and> (\<forall>b \<in> set bs. b \<noteq> null_block p \<longrightarrow> count_list bs b = 1)"

definition lists_ok :: "block_pool \<Rightarrow> single_type_manager \<Rightarrow> bool" where
  "lists_ok p g \<longleftrightarrow> dwf (req_to_blocks g) \<and> (\<forall>rid bs. map_of (req_to_blocks g) rid = Some bs \<longrightarrow> valid_list p bs)"

definition coord_ok :: "nat \<Rightarrow> coordinator \<Rightarrow> bool" where
  "coord_ok K c \<longleftrightarrow> length (managers c) = K \<and> (\<exists>xs. pool_inv (pool c) xs {}) \<and>
     (\<forall>g \<in> set (managers c). lists_ok (pool c) g) \<and>
     (\<forall>i < length (blocks (pool c)). i \<noteq> null_block (pool c) \<longrightarrow> ref_cnt (blocks (pool c) ! i) = held_by c i)"

lemma refs_in_nonneg: "0 \<le> refs_in d i"
  by (auto simp: refs_in_def intro!: sum_list_nonneg)

lemma refs_in_update: "refs_in (AList.update rid bs d) i = refs_in d i - int (count_list (dget d rid []) i) + int (count_list bs i)"
  by (induction d) (auto simp: refs_in_def dget_def)

lemma refs_in_delete: "dwf d \<Longrightarrow> refs_in (AList.delete rid d) i = refs_in d i - int (count_list (dget d rid []) i)"
proof (induction d)
  case (Cons x d)
  then have "AList.delete rid d = d" if "fst x = rid"
    using that by (auto simp: dwf_def intro!: delete_notin_dom)
  then show ?case using Cons by (cases x) (auto simp: refs_in_def dget_def dwf_def)
qed (simp add: refs_in_def dget_def)

lemma refs_in_ge: "int (count_list (dget d rid []) i) \<le> refs_in d i"
  by (induction d) (auto simp: refs_in_def dget_def intro: add_increasing add_increasing2 refs_in_nonneg [unfolded refs_in_def])

lemma sum_list_upd: "m < length xs \<Longrightarrow> sum_list (map f (xs[m := x])) = sum_list (map f xs) - f (xs ! m) + (f x :: int)"
  by (induction xs arbitrary: m) (auto split: nat.splits)

lemma sum_list_member: "m < length xs \<Longrightarrow> (\<And>x. 0 \<le> f x) \<Longrightarrow> f (xs ! m) \<le> (sum_list (map f xs) :: int)"
proof (induction xs arbitrary: m)
  case (Cons a xs)
  have "0 \<le> sum_list (map f xs)" using Cons.prems(2) by (intro sum_list_nonneg) auto
  then show ?case using Cons by (cases m) (auto simp: add_increasing)
qed simp

lemma held_ge:
  assumes "m < length (managers c)"
  shows "int (count_list (dget (req_to_blocks (managers c ! m)) rid []) i) \<le> held_by c i"
  using refs_in_ge [of "req_to_blocks (managers c ! m)" rid i]
    sum_list_member [OF assms, of "\<lambda>g. refs_in (req_to_blocks g) i"] refs_in_nonneg
  by (fastforce simp: held_by_def)

lemma upd_manager_fields [simp]:
  "pool (upd_manager m f c) = pool c" "managers (upd_manager m f c) = (managers c)[m := f (managers c ! m)]"
  "coord_class (upd_manager m f c) = coord_class c" "max_model_len (upd_manager m f c) = max_model_len c"
  "set_blocks m rid bs c = upd_manager m (\<lambda>g. g\<lparr>req_to_blocks := AList.update rid bs (req_to_blocks g)\<rparr>) c"
  by (simp_all add: upd_manager_def set_blocks_def)

lemma held_upd:
  "m < length (managers c) \<Longrightarrow> held_by (upd_manager m f c) i =
     held_by c i - refs_in (req_to_blocks (managers c ! m)) i + refs_in (req_to_blocks (f (managers c ! m))) i"
  by (simp add: held_by_def sum_list_upd)

lemma held_pool [simp]: "held_by (c\<lparr>pool := p\<rparr>) i = held_by c i"
  by (simp add: held_by_def)

lemma valid_listD:
  "valid_list p bs \<Longrightarrow> b \<in> set bs \<Longrightarrow> b < length (blocks p)"
  "valid_list p bs \<Longrightarrow> b \<in> set bs \<Longrightarrow> b \<noteq> null_block p \<Longrightarrow> count_list bs b = 1"
  by (auto simp: valid_list_def)

lemma valid_list_Nil [simp]: "valid_list p []"
  by (simp add: valid_list_def)

lemma valid_list_static: "same_static p q \<Longrightarrow> valid_list q bs \<longleftrightarrow> valid_list p bs"
  by (simp add: valid_list_def same_static_def)

lemma lists_ok_static: "same_static p q \<Longrightarrow> lists_ok q g \<longleftrightarrow> lists_ok p g"
  by (simp add: lists_ok_def valid_list_static)

lemma lists_ok_get: "lists_ok p g \<Longrightarrow> valid_list p (dget (req_to_blocks g) rid [])"
  by (cases "map_of (req_to_blocks g) rid") (simp_all add: lists_ok_def)

lemma lists_ok_update: "lists_ok p g \<Longrightarrow> valid_list p bs \<Longrightarrow> lists_ok p (g\<lparr>req_to_blocks := AList.update rid bs (req_to_blocks g)\<rparr>)"
  by (simp add: lists_ok_def)

lemma lists_ok_delete: "lists_ok p g \<Longrightarrow> lists_ok p (g\<lparr>req_to_blocks := AList.delete rid (req_to_blocks g)\<rparr>)"
  by (simp add: lists_ok_def)

section \<open>Transfer lemmas\<close>

text \<open>
  The pool moves to a state with the same shape, the lists stay valid, and counts and holdings
  change by the same amount.
\<close>

lemma coord_okI:
  assumes "coord_ok K c" "same_static (pool c) (pool c')" "pool_inv (pool c') xs {}" "length (managers c') = K"
    "\<And>g. g \<in> set (managers c') \<Longrightarrow> lists_ok (pool c) g"
    "\<And>i. i < length (blocks (pool c)) \<Longrightarrow> i \<noteq> null_block (pool c) \<Longrightarrow>
       ref_cnt (blocks (pool c') ! i) - ref_cnt (blocks (pool c) ! i) = held_by c' i - held_by c i"
  shows "coord_ok K c'"
proof -
  have st: "length (blocks (pool c')) = length (blocks (pool c))" "null_block (pool c') = null_block (pool c)"
    using assms(2) by (simp_all add: same_static_def)
  have "ref_cnt (blocks (pool c') ! i) = held_by c' i" if "i < length (blocks (pool c))" "i \<noteq> null_block (pool c)" for i
    using assms(1) assms(6) [OF that] that by (simp add: coord_ok_def)
  then show ?thesis
    using assms(3,4,5) st lists_ok_static [OF assms(2)] by (auto simp: coord_ok_def)
qed

lemma coord_okD:
  assumes "coord_ok K c"
  shows "length (managers c) = K" "\<exists>xs. pool_inv (pool c) xs {}" "\<And>m. m < K \<Longrightarrow> lists_ok (pool c) (managers c ! m)"
    "\<And>i. i < length (blocks (pool c)) \<Longrightarrow> i \<noteq> null_block (pool c) \<Longrightarrow> ref_cnt (blocks (pool c) ! i) = held_by c i"
  using assms by (auto simp: coord_ok_def)

text \<open>A request's list holds blocks that are referenced.\<close>

lemma held_positive:
  assumes "coord_ok K c" "m < K" "b \<in> set (dget (req_to_blocks (managers c ! m)) rid [])" "b \<noteq> null_block (pool c)"
  shows "0 < ref_cnt (blocks (pool c) ! b)" "b < length (blocks (pool c))"
proof -
  let ?bs = "dget (req_to_blocks (managers c ! m)) rid []"
  have v: "valid_list (pool c) ?bs" using lists_ok_get coord_okD(3) [OF assms(1,2)] by blast
  show b: "b < length (blocks (pool c))" using valid_listD(1) [OF v assms(3)] .
  have "count_list ?bs b = 1" using valid_listD(2) [OF v assms(3,4)] .
  then have "1 \<le> held_by c b" using held_ge [of m c rid b] coord_okD(1) [OF assms(1)] assms(2) by simp
  then show "0 < ref_cnt (blocks (pool c) ! b)" using coord_okD(4) [OF assms(1) b assms(4)] by simp
qed

lemma in_set_upd: "x \<in> set (xs[m := y]) \<Longrightarrow> x \<in> set xs \<or> x = y"
  using set_update_subset_insert by fastforce

text \<open>Changing one manager only.\<close>

lemma coord_ok_upd:
  assumes ok: "coord_ok K c" and m: "m < K" and l: "lists_ok (pool c) (f (managers c ! m))"
    and r: "\<And>i. i \<noteq> null_block (pool c) \<Longrightarrow> refs_in (req_to_blocks (f (managers c ! m))) i = refs_in (req_to_blocks (managers c ! m)) i"
  shows "coord_ok K (upd_manager m f c)"
proof -
  obtain xs where xs: "pool_inv (pool c) xs {}" using coord_okD(2) [OF ok] by blast
  show ?thesis
  proof (rule coord_okI [OF ok, where xs = xs])
    fix g assume "g \<in> set (managers (upd_manager m f c))"
    then consider "g \<in> set (managers c)" | "g = f (managers c ! m)" using in_set_upd by fastforce
    then show "lists_ok (pool c) g" by cases (use ok l in \<open>auto simp: coord_ok_def\<close>)
  qed (use xs r m coord_okD(1) [OF ok] in \<open>simp_all add: held_upd\<close>)
qed

lemma coord_ok_upd_same:
  assumes "coord_ok K c" "m < K" "\<And>g. req_to_blocks (f g) = req_to_blocks g"
  shows "coord_ok K (upd_manager m f c)"
  by (rule coord_ok_upd [OF assms(1,2)]) (use assms(3) coord_okD(3) [OF assms(1,2)] in \<open>simp_all add: lists_ok_def\<close>)

lemma read_blocks_ok:
  assumes "coord_ok K c" "m < K"
  shows "read_blocks m rid c = (Inr (dget (req_to_blocks (managers c ! m)) rid []), snd (read_blocks m rid c))"
    "coord_ok K (snd (read_blocks m rid c))" "pool (snd (read_blocks m rid c)) = pool c"
    "dget (req_to_blocks (managers (snd (read_blocks m rid c)) ! m)) rid [] = dget (req_to_blocks (managers c ! m)) rid []"
proof -
  let ?bs = "dget (req_to_blocks (managers c ! m)) rid []"
  show "read_blocks m rid c = (Inr ?bs, snd (read_blocks m rid c))" by (simp add: read_blocks_def Let_def)
  show "pool (snd (read_blocks m rid c)) = pool c" by (simp add: read_blocks_def Let_def)
  show "coord_ok K (snd (read_blocks m rid c))"
    unfolding read_blocks_def Let_def snd_conv
    by (rule coord_ok_upd [OF assms])
      (use lists_ok_get [OF coord_okD(3) [OF assms]] lists_ok_update [OF coord_okD(3) [OF assms]] in \<open>simp_all add: refs_in_update\<close>)
  show "dget (req_to_blocks (managers (snd (read_blocks m rid c)) ! m)) rid [] = ?bs"
    using assms coord_okD(1) [OF assms(1)] by (simp add: read_blocks_def Let_def)
qed

section \<open>Freeing\<close>

lemma valid_list_rev: "valid_list p (rev bs) \<longleftrightarrow> valid_list p bs"
  by (simp add: valid_list_def count_list_rev)

text \<open>
  Giving back the blocks \<open>gone\<close>, which a manager no longer lists.
\<close>

lemma release_ok:
  assumes ok: "coord_ok K c" and m: "m < K" and l: "lists_ok (pool c) (f (managers c ! m))" and v: "valid_list (pool c) gone"
    and r: "\<And>i. i \<noteq> null_block (pool c) \<Longrightarrow>
      refs_in (req_to_blocks (f (managers c ! m))) i = refs_in (req_to_blocks (managers c ! m)) i - int (count_list gone i)"
  shows "\<exists>p. free_blocks gone (pool c) = (Inr (), p) \<and> coord_ok K ((upd_manager m f c)\<lparr>pool := p\<rparr>) \<and>
    with_refs (\<lambda>i. - int (count_list gone i)) (pool c) p"
proof -
  obtain xs where xs: "pool_inv (pool c) xs {}" using coord_okD(2) [OF ok] by blast
  have pos: "count_list gone b = 1 \<and> 0 < ref_cnt (blocks (pool c) ! b)" if "b \<in> set gone" "b \<noteq> null_block (pool c)" for b
  proof -
    have c1: "count_list gone b = 1" using valid_listD(2) [OF v that] .
    have "0 \<le> refs_in (req_to_blocks (f (managers c ! m))) b" by (rule refs_in_nonneg)
    then have "1 \<le> refs_in (req_to_blocks (managers c ! m)) b" using r [OF that(2)] c1 by simp
    also have "\<dots> \<le> held_by c b"
      using sum_list_member [of m "managers c" "\<lambda>g. refs_in (req_to_blocks g) b"] m coord_okD(1) [OF ok] refs_in_nonneg
      by (simp add: held_by_def)
    finally show ?thesis using c1 coord_okD(4) [OF ok valid_listD(1) [OF v that(1)] that(2)] by simp
  qed
  obtain p where p: "free_blocks gone (pool c) = (Inr (), p)" "pool_inv p (xs @ filter (\<lambda>b. idle (blocks p ! b)) gone) {}"
    "with_refs (\<lambda>i. - int (count_list gone i)) (pool c) p"
    using free_effect [OF xs _ pos] v by (auto simp: valid_list_def)
  have "coord_ok K ((upd_manager m f c)\<lparr>pool := p\<rparr>)"
  proof (rule coord_okI [OF ok])
    fix g assume "g \<in> set (managers ((upd_manager m f c)\<lparr>pool := p\<rparr>))"
    then consider "g \<in> set (managers c)" | "g = f (managers c ! m)" using in_set_upd by fastforce
    then show "lists_ok (pool c) g" by cases (use ok l in \<open>auto simp: coord_ok_def\<close>)
  qed (use p r m coord_okD(1) [OF ok] in \<open>simp_all add: held_upd with_refs_def\<close>)
  then show ?thesis using p(1,3) by blast
qed

definition forget :: "string \<Rightarrow> single_type_manager \<Rightarrow> single_type_manager" where
  "forget rid g = g\<lparr>req_to_blocks := AList.delete rid (req_to_blocks g), num_cached_block := AList.delete rid (num_cached_block g)\<rparr>"

definition same_pins :: "block_pool \<Rightarrow> block_pool \<Rightarrow> bool" where
  "same_pins p q \<longleftrightarrow> same_static p q \<and> (\<forall>i < length (blocks p). pinned (blocks q ! i) = pinned (blocks p ! i))"

lemma same_pins_trans: "same_pins p q \<Longrightarrow> same_pins q r \<Longrightarrow> same_pins p r"
  by (auto simp: same_pins_def same_static_def)

lemma free1_ok:
  assumes ok: "coord_ok K c" and m: "m < K"
  shows "\<exists>d. free1 rid m c = (Inr (), d) \<and> coord_ok K d \<and> same_pins (pool c) (pool d) \<and>
    managers d = (managers c)[m := forget rid (managers c ! m)]"
proof -
  let ?bs = "dget (req_to_blocks (managers c ! m)) rid []"
  let ?f = "\<lambda>g. g\<lparr>req_to_blocks := AList.delete rid (req_to_blocks g)\<rparr>"
  have l: "lists_ok (pool c) (managers c ! m)" using coord_okD(3) [OF ok m] .
  have v: "valid_list (pool c) (rev ?bs)" using lists_ok_get [OF l] by (simp add: valid_list_rev)
  obtain p where p: "free_blocks (rev ?bs) (pool c) = (Inr (), p)" "coord_ok K ((upd_manager m ?f c)\<lparr>pool := p\<rparr>)"
    "with_refs (\<lambda>i. - int (count_list (rev ?bs) i)) (pool c) p"
    using release_ok [OF ok m _ v, of ?f] lists_ok_delete [OF l] l
    by (auto simp: refs_in_delete lists_ok_def count_list_rev)
  let ?c = "(upd_manager m ?f c)\<lparr>pool := p\<rparr>"
  let ?g = "\<lambda>g. g\<lparr>num_cached_block := AList.delete rid (num_cached_block g)\<rparr>"
  have "free1 rid m c = (Inr (), upd_manager m ?g ?c)"
    using p(1) by (simp add: free1_def on_pool_def)
  moreover have "coord_ok K (upd_manager m ?g ?c)"
    by (rule coord_ok_upd_same [OF p(2) m]) simp
  moreover have "same_pins (pool c) (pool (upd_manager m ?g ?c))" using p(3) by (simp add: same_pins_def with_refs_def)
  moreover have "managers (upd_manager m ?g ?c) = (managers c)[m := forget rid (managers c ! m)]"
    using m coord_okD(1) [OF ok] by (simp add: forget_def)
  ultimately show ?thesis by blast
qed

section \<open>Skipped blocks\<close>

lemma count_list_upd:
  "i < length bs \<Longrightarrow> int (count_list (bs[i := v]) x) =
     int (count_list bs x) - (if bs ! i = x then 1 else 0) + (if v = x then 1 else 0)"
proof (induction bs arbitrary: i)
  case (Cons b bs)
  then show ?case by (cases i) (fastforce split: if_splits)+
qed simp

lemma skip_loop_spec:
  "skip_loop null k bs removed = Inr (bs', removed') \<Longrightarrow>
     \<exists>gone. removed' = removed @ gone \<and> set gone \<subseteq> set bs \<and> set bs' \<subseteq> insert null (set bs) \<and> null \<notin> set gone \<and>
       (\<forall>x. x \<noteq> null \<longrightarrow> count_list bs' x + count_list gone x = count_list bs x)"
proof (induction k arbitrary: bs removed)
  case (Suc k)
  show ?case
  proof (cases "k < length bs \<and> bs ! k \<noteq> null")
    case True
    then obtain gone where g: "removed' = (removed @ [bs ! k]) @ gone" "set gone \<subseteq> set (bs[k := null])"
      "set bs' \<subseteq> insert null (set (bs[k := null]))" "null \<notin> set gone"
      "\<And>x. x \<noteq> null \<Longrightarrow> count_list bs' x + count_list gone x = count_list (bs[k := null]) x"
      using Suc.IH [of "bs[k := null]" "removed @ [bs ! k]"] Suc.prems by auto
    have sub: "set (bs[k := null]) \<subseteq> insert null (set bs)" by (rule set_update_subset_insert)
    have "set (bs ! k # gone) \<subseteq> set bs" using g(2,4) sub True by auto
    moreover have "count_list bs' x + count_list (bs ! k # gone) x = count_list bs x" if "x \<noteq> null" for x
      using g(5) [OF that] count_list_upd [of k bs null x] True that by auto
    moreover have "set bs' \<subseteq> insert null (set bs)" using g(3) sub by blast
    ultimately show ?thesis using g(1,4) True by (intro exI [of _ "bs ! k # gone"]) auto
  next
    case False
    then show ?thesis using Suc.prems by (auto split: if_splits intro!: exI [of _ "[]"])
  qed
qed auto

lemma valid_part:
  assumes v: "valid_list p bs" and n: "null_block p < length (blocks p)"
    and s: "set xs \<subseteq> insert (null_block p) (set bs)" "\<And>x. x \<noteq> null_block p \<Longrightarrow> count_list xs x \<le> count_list bs x"
  shows "valid_list p xs"
proof -
  have "count_list xs b = 1" if "b \<in> set xs" "b \<noteq> null_block p" for b
  proof -
    have "count_list xs b \<noteq> 0" using that(1) by (simp add: count_list_0_iff)
    moreover have "b \<in> set bs" using that s(1) by auto
    then have "count_list bs b = 1" using valid_listD(2) [OF v _ that(2)] by simp
    ultimately show ?thesis using s(2) [OF that(2)] by simp
  qed
  then show ?thesis using v n s(1) by (auto simp: valid_list_def)
qed

lemma null_in_pool: "coord_ok K c \<Longrightarrow> null_block (pool c) < length (blocks (pool c))"
  by (auto simp: coord_ok_def pool_inv_def blocks_ok_def)

lemma skip_loop_length: "skip_loop null k bs removed = Inr (bs', removed') \<Longrightarrow> length bs' = length bs"
  by (induction k arbitrary: bs removed) (auto simp: py_simps split: if_splits)

text \<open>What freeing skipped blocks and counting leave alone, for a request \<open>rid\<close>.\<close>

definition calm :: "string \<Rightarrow> coordinator \<Rightarrow> coordinator \<Rightarrow> bool" where
  "calm rid c c' \<longleftrightarrow> same_static (pool c) (pool c') \<and> length (managers c') = length (managers c) \<and>
     (\<forall>m < length (managers c). m_spec (managers c' ! m) = m_spec (managers c ! m) \<and>
        num_cached_block (managers c' ! m) = num_cached_block (managers c ! m) \<and>
        (dget (req_to_blocks (managers c ! m)) rid [] = [] \<longrightarrow> dget (req_to_blocks (managers c' ! m)) rid [] = []))"

lemma calm_refl [simp]: "calm rid c c"
  by (simp add: calm_def)

lemma calm_trans: "calm rid a b \<Longrightarrow> calm rid b c \<Longrightarrow> calm rid a c"
  by (auto simp: calm_def intro: same_static_trans)

lemma nth_upd: "j < length xs \<Longrightarrow> xs[i := x] ! j = (if j = i then x else xs ! j)"
  by (cases "j = i") simp_all

lemma calm_set:
  assumes "same_static (pool c) p"
    "dget (req_to_blocks (managers c ! m)) rid [] = [] \<Longrightarrow> bs = []"
  shows "calm rid c ((set_blocks m rid bs c)\<lparr>pool := p\<rparr>)"
  using assms by (auto simp: calm_def nth_upd)

lemma calm_read: "calm rid c (snd (read_blocks m rid c))"
  by (auto simp: calm_def read_blocks_def Let_def nth_upd)

definition calm_ok :: "nat \<Rightarrow> string \<Rightarrow> coordinator \<Rightarrow> coordinator \<Rightarrow> bool" where
  "calm_ok K rid a c \<longleftrightarrow> coord_ok K c \<and> calm rid a c"

lemma skip_body_ok:
  assumes m: "m < K"
  shows "keeps (calm_ok K rid a) (pbind (read_blocks m rid) (\<lambda>bs.
            pbind (pget (\<lambda>c. skip_loop (null_block (pool c)) k bs [])) (\<lambda>r.
            pbind (plift r) (\<lambda>(bs', removed).
            pbind (pmodify (set_blocks m rid bs')) (\<lambda>_.
            on_pool (free_blocks removed))))))" (is "keeps _ ?prog")
  unfolding keeps_def
proof (intro allI impI)
  fix c assume cok: "calm_ok K rid a c"
  then have ok: "coord_ok K c" by (simp add: calm_ok_def)
  define d where "d = snd (read_blocks m rid c)"
  let ?bs = "dget (req_to_blocks (managers c ! m)) rid []"
  note rd = read_blocks_ok [OF ok m, of rid, folded d_def]
  have gd: "dget (req_to_blocks (managers d ! m)) rid [] = ?bs" by (rule rd(4))
  have cd: "calm rid a d" using cok calm_trans calm_read d_def by (auto simp: calm_ok_def)
  let ?r = "skip_loop (null_block (pool c)) k ?bs []"
  have run: "?prog c =
      (case ?r of Inl e \<Rightarrow> (Inl e, d) | Inr (bs', removed) \<Rightarrow> on_pool (free_blocks removed) (set_blocks m rid bs' d))"
    using rd(1,3) by (simp add: pbind_def split: sum.splits prod.splits)
  show "calm_ok K rid a (snd (?prog c))"
  proof (cases ?r)
    case (Inl e)
    then show ?thesis using run rd(2) cd by (simp add: calm_ok_def)
  next
    case (Inr br)
    obtain bs' removed where br: "br = (bs', removed)" by (cases br)
    obtain gone where "removed = [] @ gone" and g: "set gone \<subseteq> set ?bs" "set bs' \<subseteq> insert (null_block (pool c)) (set ?bs)"
      "\<And>x. x \<noteq> null_block (pool c) \<Longrightarrow> count_list bs' x + count_list gone x = count_list ?bs x"
      using skip_loop_spec [OF Inr [unfolded br]] by blast
    then have rem: "removed = gone" by simp
    have v: "valid_list (pool d) ?bs" using lists_ok_get [OF coord_okD(3) [OF rd(2) m], of rid] gd by simp
    have le: "count_list bs' x \<le> count_list ?bs x" "count_list gone x \<le> count_list ?bs x"
      if "x \<noteq> null_block (pool d)" for x using g(3) [of x] that rd(3) by simp_all
    have vb: "valid_list (pool d) bs'" using valid_part [OF v null_in_pool [OF rd(2)] _ le(1)] g(2) rd(3) by simp
    have vg: "valid_list (pool d) gone" using valid_part [OF v null_in_pool [OF rd(2)] _ le(2)] g(1) by blast
    let ?f = "\<lambda>g. g\<lparr>req_to_blocks := AList.update rid bs' (req_to_blocks g)\<rparr>"
    have "lists_ok (pool d) (?f (managers d ! m))" using lists_ok_update [OF coord_okD(3) [OF rd(2) m] vb] .
    moreover have "refs_in (req_to_blocks (?f (managers d ! m))) i =
        refs_in (req_to_blocks (managers d ! m)) i - int (count_list gone i)" if "i \<noteq> null_block (pool d)" for i
      using g(3) [of i] rd(3) that by (simp add: refs_in_update gd)
    ultimately obtain p where p: "free_blocks gone (pool d) = (Inr (), p)" "same_static (pool d) p"
        "coord_ok K ((set_blocks m rid bs' d)\<lparr>pool := p\<rparr>)"
      using release_ok [OF rd(2) m, of ?f gone] vg by (auto simp: with_refs_def)
    have "calm rid d ((set_blocks m rid bs' d)\<lparr>pool := p\<rparr>)"
      by (rule calm_set [OF p(2)]) (use skip_loop_length [OF Inr [unfolded br]] gd in simp)
    then have "calm rid a ((set_blocks m rid bs' d)\<lparr>pool := p\<rparr>)" by (rule calm_trans [OF cd])
    then show ?thesis using p run Inr br rem by (simp add: calm_ok_def on_pool_def)
  qed
qed

lemma remove_skipped1_ok: "m < K \<Longrightarrow> keeps (calm_ok K rid a) (remove_skipped_blocks1 rid n m)"
  unfolding remove_skipped_blocks1_def by (intro keeps_intros skip_body_ok)

section \<open>Operations that keep every reference\<close>

lemma coord_ok_pool:
  assumes "coord_ok K c" "same_static (pool c) p" "pool_inv p xs {}"
    "\<And>i. i < length (blocks (pool c)) \<Longrightarrow> ref_cnt (blocks p ! i) = ref_cnt (blocks (pool c) ! i)"
  shows "coord_ok K (c\<lparr>pool := p\<rparr>)"
  by (rule coord_okI [OF assms(1), where xs = xs]) (use assms in \<open>auto simp: coord_ok_def\<close>)

lemma same_refs_cnt: "same_refs p q \<Longrightarrow> i < length (blocks p) \<Longrightarrow> ref_cnt (blocks q ! i) = ref_cnt (blocks p ! i)"
proof -
  assume a: "same_refs p q" "i < length (blocks p)"
  then have "blocks q ! i = (blocks p ! i)\<lparr>b_hash := b_hash (blocks q ! i)\<rparr>" by (simp add: same_refs_def)
  from arg_cong [OF this, of ref_cnt] show ?thesis by simp
qed

lemma coord_ok_refs:
  assumes "coord_ok K c" "same_refs (pool c) p" "pool_inv p xs {}"
  shows "coord_ok K (c\<lparr>pool := p\<rparr>)"
  by (rule coord_ok_pool [OF assms(1) _ assms(3)])
    (use assms(2) same_refs_cnt [OF assms(2)] in \<open>simp_all add: same_refs_def\<close>)

lemma on_pool_parts [simp]: "snd (on_pool f c) = c\<lparr>pool := snd (f (pool c))\<rparr>" "fst (on_pool f c) = fst (f (pool c))"
  by (simp_all add: on_pool_def split: prod.splits)

lemma evict_ok: "keeps (coord_ok K) (on_pool (evict_blocks ids))"
  unfolding keeps_def
proof (intro allI impI)
  fix c assume ok: "coord_ok K c"
  obtain xs where "pool_inv (pool c) xs {}" using coord_okD(2) [OF ok] by blast
  from coord_ok_refs [OF ok evict_blocks_keeps(2) [OF this] evict_blocks_keeps(1) [OF this]]
  show "coord_ok K (snd (on_pool (evict_blocks ids) c))" by simp
qed

lemma reset_ok:
  assumes ok: "coord_ok K c"
  shows "coord_ok K (c\<lparr>pool := snd (reset_prefix_cache (pool c))\<rparr>)"
proof -
  obtain xs where "pool_inv (pool c) xs {}" using coord_okD(2) [OF ok] by blast
  from reset_keeps [OF this] show ?thesis
    by (rule coord_ok_pool [OF ok, rotated]) (simp_all add: reset_prefix_cache_def Let_def same_static_def)
qed

lemma events_ok:
  assumes ok: "coord_ok K c"
  shows "coord_ok K (c\<lparr>pool := snd (take_events (pool c))\<rparr>)"
proof -
  obtain xs where xs: "pool_inv (pool c) xs {}" using coord_okD(2) [OF ok] by blast
  then have "pool_inv (snd (take_events (pool c))) xs {}"
    by (subst pool_inv_cong [of _ "pool c"]) (simp_all add: take_events_def)
  then show ?thesis by (rule coord_ok_pool [OF ok, rotated]) (simp_all add: take_events_def same_static_def)
qed

text \<open>Reading the list of a request and going on with it.\<close>

lemma read_then:
  assumes m: "m < K" and f: "\<And>c. coord_ok K c \<Longrightarrow> coord_ok K (snd (f (dget (req_to_blocks (managers c ! m)) rid []) c))"
  shows "keeps (coord_ok K) (pbind (read_blocks m rid) f)"
  unfolding keeps_def
proof (intro allI impI)
  fix c assume ok: "coord_ok K c"
  note rd = read_blocks_ok [OF ok m, of rid]
  show "coord_ok K (snd (pbind (read_blocks m rid) f c))"
    using f [OF rd(2)] unfolding rd(4) by (simp only: pbind_simps(2) [where p = "read_blocks m rid", OF rd(1)])
qed

lemma list_in_pool:
  assumes "coord_ok K c" "m < K"
  shows "set (dget (req_to_blocks (managers c ! m)) rid []) \<subseteq> {..<length (blocks (pool c))}"
  using lists_ok_get [OF coord_okD(3) [OF assms]] by (simp add: valid_list_def)

lemma cache1_ok: "m < K \<Longrightarrow> keeps (coord_ok K) (cache_blocks1 r n m)"
proof -
  assume m: "m < K"
  let ?u = "\<lambda>nf. upd_manager m (\<lambda>g. g\<lparr>num_cached_block := AList.update (request_id r) nf (num_cached_block g)\<rparr>)"
  have upd: "keeps (coord_ok K) (pmodify (?u nf))" for nf
    by (rule keeps_modify) (rule coord_ok_upd_same [OF _ m], simp_all)
  have "keeps (coord_ok K) (pbind (read_blocks m (request_id r)) (\<lambda>bs.
      pbind (on_pool (cache_full_blocks r bs nc nf sz gid)) (\<lambda>_. pmodify (?u nf))))" for nc nf sz gid
  proof (rule read_then [OF m])
    fix c assume ok: "coord_ok K c"
    let ?bs = "dget (req_to_blocks (managers c ! m)) (request_id r) []"
    obtain xs where xs: "pool_inv (pool c) xs {}" using coord_okD(2) [OF ok] by blast
    note k = cache_full_keeps [OF xs list_in_pool [OF ok m], of r "request_id r" nc nf sz gid]
    have "coord_ok K (snd (on_pool (cache_full_blocks r ?bs nc nf sz gid) c))"
      using coord_ok_refs [OF ok k(2,1)] by simp
    then show "coord_ok K (snd (pbind (on_pool (cache_full_blocks r ?bs nc nf sz gid)) (\<lambda>_. pmodify (?u nf)) c))"
      using keepsD [OF upd] by (simp add: pbind_apply split: sum.splits)
  qed
  note body = this
  show ?thesis
    unfolding keeps_def
  proof (intro allI impI)
    fix c assume ok: "coord_ok K c"
    let ?g = "managers c ! m"
    have "keeps (coord_ok K) (if is_cross ?g then praise ValueError else pbind (plift (rdiv n (m_block_size ?g))) (\<lambda>num_full.
           let num_cached = dget (num_cached_block ?g) (request_id r) 0
           in if num_cached \<ge> num_full then pret ()
              else pbind (read_blocks m (request_id r)) (\<lambda>bs.
                   pbind (on_pool (cache_full_blocks r bs num_cached num_full (m_block_size ?g) (kv_cache_group_id ?g))) (\<lambda>_.
                   pmodify (?u num_full)))))"
      unfolding Let_def by (intro keeps_intros body)
    from keepsD [OF this ok] show "coord_ok K (snd (cache_blocks1 r n m c))"
      by (auto simp: cache_blocks1_def Let_def is_cross_def split: if_splits)
  qed
qed

text \<open>Pins change only on blocks that a request holds, which are not idle.\<close>

lemma set_pin_inv:
  assumes "pool_inv p xs {}" "b < length (blocks p)" "b \<noteq> null_block p \<Longrightarrow> 0 < ref_cnt (blocks p ! b)"
  shows "pool_inv (set_block_pin v b p) xs {}"
proof -
  have "is_null (blocks p ! b) \<longleftrightarrow> b = null_block p" using assms(1,2) by (simp add: pool_inv_def blocks_ok_def)
  then show ?thesis
    unfolding set_block_pin_def by (intro pool_inv_upd [OF assms(1,2)]) (use assms(3) in \<open>auto simp: idle_def\<close>)
qed

definition same_counts :: "block_pool \<Rightarrow> block_pool \<Rightarrow> bool" where
  "same_counts p q \<longleftrightarrow> same_static p q \<and> (\<forall>i < length (blocks p). ref_cnt (blocks q ! i) = ref_cnt (blocks p ! i))"

lemma set_pin_counts: "same_counts p q \<Longrightarrow> same_counts p (set_block_pin v b q)"
  by (auto simp: same_counts_def set_block_pin_def nth_upd same_static_def)

lemma fold_pins:
  assumes f: "\<And>b q. f b q = q \<or> (\<exists>v. f b q = set_block_pin v b q)"
    and inv: "pool_inv p xs {}" and bs: "\<And>b. b \<in> set bs \<Longrightarrow> b < length (blocks p) \<and> (b \<noteq> null_block p \<longrightarrow> 0 < ref_cnt (blocks p ! b))"
  shows "pool_inv (fold f bs p) xs {} \<and> same_counts p (fold f bs p)"
proof -
  have "pool_inv (fold f bs q) xs {} \<and> same_counts p (fold f bs q)" if "pool_inv q xs {}" "same_counts p q" for q
    using that bs
  proof (induction bs arbitrary: q)
    case (Cons b bs)
    have b: "b < length (blocks q)" "b \<noteq> null_block q \<Longrightarrow> 0 < ref_cnt (blocks q ! b)"
      using Cons.prems(2) Cons.prems(3) [of b] by (auto simp: same_counts_def same_static_def)
    have "pool_inv (f b q) xs {}" using f [of b q] set_pin_inv [OF Cons.prems(1) b] Cons.prems(1) by auto
    moreover have "same_counts p (f b q)" using f [of b q] set_pin_counts [OF Cons.prems(2)] Cons.prems(2) by auto
    ultimately show ?case using Cons.IH [of "f b q"] Cons.prems(3) by simp
  qed simp
  then show ?thesis using inv by (simp add: same_counts_def)
qed

lemma request_blocks:
  assumes "coord_ok K c" "b \<in> set (concat (coord_get_blocks c rid))"
  shows "b < length (blocks (pool c)) \<and> (b \<noteq> null_block (pool c) \<longrightarrow> 0 < ref_cnt (blocks (pool c) ! b))"
proof -
  obtain m where m: "m < K" "b \<in> set (dget (req_to_blocks (managers c ! m)) rid [])"
    using assms(2) coord_okD(1) [OF assms(1)]
    by (auto simp: coord_get_blocks_def in_set_conv_nth [where xs = "managers c"])
  have "b < length (blocks (pool c))" using list_in_pool [OF assms(1) m(1)] m(2) by blast
  then show ?thesis using held_positive(1) [OF assms(1) m] by blast
qed

lemma fold_pins_ok:
  assumes "\<And>b q. f b q = q \<or> (\<exists>v. f b q = set_block_pin v b q)" "coord_ok K c"
  shows "coord_ok K (c\<lparr>pool := fold f (concat (coord_get_blocks c rid)) (pool c)\<rparr>)"
proof -
  obtain xs where "pool_inv (pool c) xs {}" using coord_okD(2) [OF assms(2)] by blast
  then have "pool_inv (fold f (concat (coord_get_blocks c rid)) (pool c)) xs {} \<and>
      same_counts (pool c) (fold f (concat (coord_get_blocks c rid)) (pool c))"
    by (rule fold_pins [OF assms(1)]) (rule request_blocks [OF assms(2)])
  then show ?thesis using coord_ok_pool [OF assms(2)] by (auto simp: same_counts_def)
qed

lemma pin_ok: "keeps (coord_ok K) (pin_request rid)"
proof -
  have "pin_block b q = q \<or> (\<exists>v. pin_block b q = set_block_pin v b q)" for b q by (auto simp: pin_block_def)
  from fold_pins_ok [OF this] show ?thesis by (simp add: keeps_def pin_request_def)
qed

section \<open>Operations over all managers\<close>

lemma keeps_pseq: "(\<And>x. x \<in> set xs \<Longrightarrow> keeps I (f x)) \<Longrightarrow> keeps I (pseq f xs)"
  by (induction xs) (auto intro: keeps_intros)

lemma keeps_pmap: "(\<And>x. x \<in> set xs \<Longrightarrow> keeps I (f x)) \<Longrightarrow> keeps I (pmap f xs)"
  by (induction xs) (auto intro!: keeps_intros)

lemma keeps_over:
  assumes "\<And>c. I c \<Longrightarrow> length (managers c) = K" "\<And>m. m < K \<Longrightarrow> keeps I (f m)"
  shows "keeps I (over_managers f)"
  unfolding keeps_def over_managers_def manager_ids_def
proof (intro allI impI)
  fix c assume "I c"
  moreover have "keeps I (pseq f [0..<K])" using assms(2) by (intro keeps_pseq) auto
  ultimately show "I (snd (pseq f [0..<length (managers c)] c))" using assms(1) keepsD by fastforce
qed

lemma free_ok_all: "keeps (coord_ok K) (coord_free rid)"
  unfolding coord_free_def
proof (intro keeps_over [where K = K] coord_okD(1))
  fix m assume "m < K"
  then show "keeps (coord_ok K) (free1 rid m)" using free1_ok [of K _ m rid] by (fastforce simp: keeps_def)
qed

lemma cache_ok_all: "keeps (coord_ok K) (cache_blocks r n)"
  unfolding cache_blocks_def by (intro keeps_over [where K = K] coord_okD(1) cache1_ok)

lemma unpin_ok: "keeps (coord_ok K) (unpin_request rid)"
  unfolding unpin_request_def using fold_pins_ok [of "set_block_pin False"]
  by (intro keeps_bind free_ok_all) (auto simp: keeps_def)

lemma calm_ok_len: "calm_ok K rid a c \<Longrightarrow> length (managers c) = K"
  using coord_okD(1) by (auto simp: calm_ok_def)

lemma remove_skipped_ok: "keeps (calm_ok K rid a) (remove_skipped_blocks rid n)"
  unfolding remove_skipped_blocks_def by (intro keeps_over [where K = K] calm_ok_len remove_skipped1_ok)

section \<open>New blocks\<close>

lemma upd_pool: "(upd_manager m f c)\<lparr>pool := p\<rparr> = upd_manager m f (c\<lparr>pool := p\<rparr>)"
  by (cases c) (simp add: upd_manager_def)

lemma distinct_count_list: "distinct xs \<Longrightarrow> count_list xs x = (if x \<in> set xs then 1 else 0)"
  by (induction xs) auto

lemma allocate1_ok: "m < K \<Longrightarrow> keeps (coord_ok K) (allocate_new_blocks1 m rid n)"
proof -
  assume m: "m < K"
  have step: "coord_ok K (snd (pbind (on_pool (get_new_blocks k)) (\<lambda>new.
      pbind (pmodify (set_blocks m rid (dget (req_to_blocks (managers c ! m)) rid [] @ new))) (\<lambda>_. pret new)) c))"
    if ok: "coord_ok K c" and k: "0 < k" for c k
  proof -
    let ?bs = "dget (req_to_blocks (managers c ! m)) rid []"
    obtain xs where xs: "pool_inv (pool c) xs {}" using coord_okD(2) [OF ok] by blast
    note f = free_okD [OF xs]
    show ?thesis
    proof (cases "k \<le> int (length xs)")
      case False
      then have "get_new_blocks k (pool c) = (Inl ValueError, pool c)" using f(4) by (simp add: get_new_blocks_def)
      then show ?thesis using ok by (simp add: pbind_apply)
    next
      case True
      let ?new = "take (nat k) xs"
      obtain p where p: "get_new_blocks k (pool c) = (Inr ?new, p)" "pool_inv p (drop (nat k) xs) {}" "same_static (pool c) p"
        "\<And>i. blocks p ! i = (if i \<in> set ?new then claimed (enable_caching (pool c)) (blocks (pool c) ! i) else blocks (pool c) ! i)"
      proof -
        have "nat k \<le> length xs" "int (nat k) = k" using True k by simp_all
        then show thesis using new_blocks_effect [OF xs, of "nat k"] that by auto
      qed
      have new: "b < length (blocks (pool c)) \<and> idle (blocks (pool c) ! b) \<and> b \<noteq> null_block (pool c)" if "b \<in> set ?new" for b
        using that f(3) xs by (auto simp: pool_inv_def blocks_ok_def idle_def dest!: in_set_takeD)
      have d: "distinct ?new" using f(2) by simp
      have fresh: "b \<notin> set ?bs" if "b \<in> set ?new" for b
        using held_positive(1) [OF ok m, of b rid] new [OF that] by (auto simp: idle_def)
      have cnt: "count_list ?new b = (if b \<in> set ?new then 1 else 0)" for b using d by (simp add: distinct_count_list)
      have l: "lists_ok (pool c) (managers c ! m)" using coord_okD(3) [OF ok m] .
      have "valid_list (pool c) (?bs @ ?new)"
        using lists_ok_get [OF l, of rid] new fresh cnt by (fastforce simp: valid_list_def count_list_0_iff)
      from lists_ok_update [OF l this, of rid]
      have "coord_ok K ((set_blocks m rid (?bs @ ?new) c)\<lparr>pool := p\<rparr>)"
      proof (intro coord_okI [OF ok, where xs = "drop (nat k) xs"])
        fix g assume a: "lists_ok (pool c) ((managers c ! m)\<lparr>req_to_blocks := AList.update rid (?bs @ ?new) (req_to_blocks (managers c ! m))\<rparr>)"
          "g \<in> set (managers ((set_blocks m rid (?bs @ ?new) c)\<lparr>pool := p\<rparr>))"
        show "lists_ok (pool c) g" using in_set_upd [of g "managers c" m] a ok by (auto simp: coord_ok_def)
      next
        fix i assume "i < length (blocks (pool c))"
        show "ref_cnt (blocks (pool ((set_blocks m rid (?bs @ ?new) c)\<lparr>pool := p\<rparr>)) ! i) - ref_cnt (blocks (pool c) ! i) =
          held_by ((set_blocks m rid (?bs @ ?new) c)\<lparr>pool := p\<rparr>) i - held_by c i"
          using m coord_okD(1) [OF ok] p(4) [of i] cnt [of i] new [of i]
          by (simp add: held_upd refs_in_update claimed_def idle_def)
      qed (use p coord_okD(1) [OF ok] in simp_all)
      then show ?thesis using p(1) by (simp add: pbind_apply on_pool_def upd_pool)
    qed
  qed
  show ?thesis
    unfolding allocate_new_blocks1_def
  proof (rule keeps_bind [OF keeps_basic(4)], rule read_then [OF m])
    fix g :: single_type_manager and c assume ok: "coord_ok K c"
    show "coord_ok K (snd (pbind (plift (rcdiv (n + speculative_tokens (m_spec g)) (m_block_size g))) (\<lambda>required.
       let num_new = required - int (length (dget (req_to_blocks (managers c ! m)) rid []))
       in if num_new \<le> 0 then pret []
          else pbind (on_pool (get_new_blocks num_new)) (\<lambda>new.
               pbind (pmodify (set_blocks m rid (dget (req_to_blocks (managers c ! m)) rid [] @ new))) (\<lambda>_. pret new))) c))"
      using step [OF ok] ok by (auto simp: pbind_apply [of "plift _"] Let_def not_le split: sum.splits)
  qed
qed

lemma allocate_ok: "keeps (coord_ok K) (allocate_new_blocks rid n e)"
  unfolding keeps_def allocate_new_blocks_def manager_ids_def
proof (intro allI impI)
  fix c assume ok: "coord_ok K c"
  let ?f = "\<lambda>m c. allocate_new_blocks1 m rid (if is_cross (managers c ! m) then e else n) c"
  have "keeps (coord_ok K) (pmap ?f [0..<K])"
    by (intro keeps_pmap) (use allocate1_ok keepsD in \<open>fastforce simp: keeps_def\<close>)
  from keepsD [OF this ok] show "coord_ok K (snd (pmap ?f [0..<length (managers c)] c))" using coord_okD(1) [OF ok] by simp
qed

lemma count_ok: "keeps (calm_ok K rid a) (get_num_blocks_to_allocate rid n bss e)"
proof -
  have rd: "keeps (calm_ok K rid a) (read_blocks m rid)" if "m < K" for m
    using read_blocks_ok(2) [OF _ that] calm_trans calm_read by (fastforce simp: keeps_def calm_ok_def)
  have c1: "keeps (calm_ok K rid a) (get_num_blocks_to_allocate1 m rid k bs)" if "m < K" for m k bs
    unfolding get_num_blocks_to_allocate1_def by (intro keeps_bind keeps_basic rd that) (simp add: keeps_def Let_def)
  show ?thesis
    unfolding keeps_def get_num_blocks_to_allocate_def manager_ids_def
  proof (intro allI impI)
    fix c assume ok: "calm_ok K rid a c"
    let ?f = "\<lambda>m c. if is_cross (managers c ! m) then get_num_blocks_to_allocate1 m rid e [] c
         else pbind (plift (pick_group bss m)) (get_num_blocks_to_allocate1 m rid n) c"
    have "keeps (calm_ok K rid a) (pbind (plift (pick_group bss m)) (get_num_blocks_to_allocate1 m rid n))" if "m < K" for m
      by (intro keeps_intros c1 that)
    then have f1: "keeps (calm_ok K rid a) (?f m)" if "m < K" for m
      using c1 that by (simp add: keeps_def)
    have "keeps (calm_ok K rid a) (pbind (pmap ?f [0..<K]) (\<lambda>ns. pret (sum_list ns)))"
      by (intro keeps_intros keeps_pmap f1) simp
    from keepsD [OF this ok]
    show "calm_ok K rid a (snd (pbind (pmap ?f [0..<length (managers c)]) (\<lambda>ns. pret (sum_list ns)) c))"
      using calm_ok_len [OF ok] by simp
  qed
qed

section \<open>Computed blocks\<close>

text \<open>
  \<open>computed_ok rid bss c\<close>: the blocks that a request brings from the prefix cache, one list per
  manager. A request brings blocks only when no manager has a list for it.
\<close>

definition computed_ok :: "string \<Rightarrow> nat list list \<Rightarrow> coordinator \<Rightarrow> bool" where
  "computed_ok rid bss c \<longleftrightarrow> length bss = length (managers c) \<and> (\<forall>bs \<in> set bss. valid_list (pool c) bs) \<and>
     ((\<exists>bs \<in> set bss. bs \<noteq> []) \<longrightarrow>
        (\<forall>m < length (managers c).
           if is_cross (managers c ! m) then bss ! m = []
           else map_of (num_cached_block (managers c ! m)) rid = None \<and> dget (req_to_blocks (managers c ! m)) rid [] = []))"

lemma computed_calm: "computed_ok rid bss c \<Longrightarrow> calm rid c d \<Longrightarrow> computed_ok rid bss d"
  using valid_list_static by (auto simp: computed_ok_def calm_def is_cross_def)

text \<open>Between \<open>touch\<close> and the last \<open>save_new_computed_blocks\<close> the counts exceed the holdings by \<open>d\<close>.\<close>

definition owed :: "nat \<Rightarrow> (nat \<Rightarrow> int) \<Rightarrow> coordinator \<Rightarrow> bool" where
  "owed K d c \<longleftrightarrow> length (managers c) = K \<and> (\<exists>xs. pool_inv (pool c) xs {}) \<and> (\<forall>g \<in> set (managers c). lists_ok (pool c) g) \<and>
     (\<forall>i < length (blocks (pool c)). i \<noteq> null_block (pool c) \<longrightarrow> ref_cnt (blocks (pool c) ! i) = held_by c i + d i)"

lemma owed_none: "owed K (\<lambda>i. 0) c \<longleftrightarrow> coord_ok K c"
  by (simp add: owed_def coord_ok_def)

lemma owed_save:
  assumes o: "owed K (\<lambda>i. int (count_list bs i) + d i) c" and m: "m < K" and v: "valid_list (pool c) bs"
    and l: "dget (req_to_blocks (managers c ! m)) rid [] = []"
    and f: "req_to_blocks (f (managers c ! m)) = AList.update rid bs (req_to_blocks (managers c ! m))"
  shows "owed K d (upd_manager m f c)"
proof -
  have len: "length (managers c) = K" using o by (simp add: owed_def)
  have lo: "lists_ok (pool c) (managers c ! m)" using o m len by (auto simp: owed_def)
  have "lists_ok (pool c) (f (managers c ! m))"
    using lists_ok_update [OF lo v, of rid] f by (simp add: lists_ok_def)
  then have "lists_ok (pool c) g" if "g \<in> set (managers (upd_manager m f c))" for g
    using that in_set_upd [of g "managers c" m] o by (auto simp: owed_def)
  moreover have "held_by (upd_manager m f c) i = held_by c i + int (count_list bs i)" for i
    using m len by (simp add: held_upd f refs_in_update l)
  ultimately show ?thesis using o len by (auto simp: owed_def)
qed

lemma save1_eq:
  assumes "\<not> is_cross (managers c ! m)" "map_of (num_cached_block (managers c ! m)) rid = None"
    "dget (req_to_blocks (managers c ! m)) rid [] = []" "m < length (managers c)"
  shows "save_new_computed_blocks1 m rid bs c = (Inr (), upd_manager m (\<lambda>g. g\<lparr>req_to_blocks := AList.update rid bs (req_to_blocks g),
     num_cached_block := AList.update rid (int (length bs)) (num_cached_block g)\<rparr>) c)"
  using assms by (simp add: save_new_computed_blocks1_def Let_def is_cross_def read_blocks_def pbind_def upd_manager_def)

lemma pick_group_nth: "m < length bss \<Longrightarrow> pick_group bss m = Inr (bss ! m)"
  by (simp add: pick_group_def py_nth_def)

lemma save_all:
  assumes "owed K (\<lambda>i. \<Sum>m \<leftarrow> ms. int (count_list (bss ! m) i)) c" "distinct ms" "set ms \<subseteq> {..<K}" "length bss = K"
    "\<And>bs. bs \<in> set bss \<Longrightarrow> valid_list (pool c) bs"
    "\<And>m. m \<in> set ms \<Longrightarrow> if is_cross (managers c ! m) then bss ! m = []
       else map_of (num_cached_block (managers c ! m)) rid = None \<and> dget (req_to_blocks (managers c ! m)) rid [] = []"
  shows "\<exists>c'. pseq (\<lambda>m. pbind (plift (pick_group bss m)) (save_new_computed_blocks1 m rid)) ms c = (Inr (), c') \<and> coord_ok K c'"
  using assms
proof (induction ms arbitrary: c)
  case Nil
  then show ?case by (simp add: owed_none)
next
  case (Cons m ms)
  have m: "m < K" "m < length bss" "length (managers c) = K" using Cons.prems(1,3,4) by (auto simp: owed_def)
  show ?case
  proof (cases "is_cross (managers c ! m)")
    case True
    then have "bss ! m = []" using Cons.prems(6) [of m] by simp
    then have "owed K (\<lambda>i. \<Sum>m \<leftarrow> ms. int (count_list (bss ! m) i)) c"
      and "save_new_computed_blocks1 m rid (bss ! m) c = (Inr (), c)"
      using Cons.prems(1) True by (simp_all add: save_new_computed_blocks1_def Let_def is_cross_def)
    then show ?thesis using Cons.IH [of c] Cons.prems(2-6) pick_group_nth [OF m(2)] by (simp add: pbind_apply)
  next
    case False
    let ?f = "\<lambda>g. g\<lparr>req_to_blocks := AList.update rid (bss ! m) (req_to_blocks g),
       num_cached_block := AList.update rid (int (length (bss ! m))) (num_cached_block g)\<rparr>"
    have fr: "map_of (num_cached_block (managers c ! m)) rid = None" "dget (req_to_blocks (managers c ! m)) rid [] = []"
      using Cons.prems(6) [of m] False by simp_all
    have eq: "save_new_computed_blocks1 m rid (bss ! m) c = (Inr (), upd_manager m ?f c)"
      using save1_eq [OF False fr] m by simp
    have o: "owed K (\<lambda>i. \<Sum>m \<leftarrow> ms. int (count_list (bss ! m) i)) (upd_manager m ?f c)"
      by (rule owed_save [OF _ m(1) Cons.prems(5) fr(2)]) (use Cons.prems(1) m in simp_all)
    have "\<exists>c'. pseq (\<lambda>m. pbind (plift (pick_group bss m)) (save_new_computed_blocks1 m rid)) ms (upd_manager m ?f c) = (Inr (), c') \<and> coord_ok K c'"
    proof (rule Cons.IH [OF o])
      fix m' assume "m' \<in> set ms"
      then have "m' \<noteq> m" "m' \<in> set (m # ms)" using Cons.prems(2) by auto
      then show "if is_cross (managers (upd_manager m ?f c) ! m') then bss ! m' = []
         else map_of (num_cached_block (managers (upd_manager m ?f c) ! m')) rid = None \<and>
           dget (req_to_blocks (managers (upd_manager m ?f c) ! m')) rid [] = []"
        using Cons.prems(6) [of m'] by simp
    qed (use Cons.prems in simp_all)
    moreover have "pbind (plift (pick_group bss m)) (save_new_computed_blocks1 m rid) c = (Inr (), upd_manager m ?f c)"
      using eq pick_group_nth [OF m(2)] by (simp add: pbind_apply)
    ultimately show ?thesis unfolding pseq.simps by (simp only: pbind_simps(2))
  qed
qed

lemma save_empty1: "m < K \<Longrightarrow> keeps (coord_ok K) (save_new_computed_blocks1 m rid [])"
proof -
  assume m: "m < K"
  have "keeps (coord_ok K) (pbind (read_blocks m rid) (\<lambda>bs. if bs \<noteq> [] then praise AssertionError
      else pmodify (\<lambda>c. upd_manager m (\<lambda>g. g\<lparr>num_cached_block := AList.update rid (int (length ([] :: nat list))) (num_cached_block g)\<rparr>) (set_blocks m rid (bs @ []) c))))"
  proof (rule read_then [OF m])
    fix c assume ok: "coord_ok K c"
    let ?bs = "dget (req_to_blocks (managers c ! m)) rid []"
    have "coord_ok K (set_blocks m rid ?bs c)" using read_blocks_ok(2) [OF ok m, of rid] by (simp add: read_blocks_def Let_def)
    note u = coord_ok_upd_same [OF this m, of "\<lambda>g. g\<lparr>num_cached_block := AList.update rid (int (length ([] :: nat list))) (num_cached_block g)\<rparr>"]
    show "coord_ok K (snd ((if ?bs \<noteq> [] then praise AssertionError else pmodify (\<lambda>c. upd_manager m
        (\<lambda>g. g\<lparr>num_cached_block := AList.update rid (int (length ([] :: nat list))) (num_cached_block g)\<rparr>) (set_blocks m rid (?bs @ []) c))) c))"
      by (cases "?bs = []") (use u ok in simp_all)
  qed
  from keepsD [OF this] show ?thesis by (simp add: keeps_def save_new_computed_blocks1_def Let_def)
qed

lemma save_nil:
  assumes "m < K" "length bss = K" "\<forall>bs \<in> set bss. bs = []"
  shows "keeps (coord_ok K) (pbind (plift (pick_group bss m)) (save_new_computed_blocks1 m rid))"
proof -
  have "bss ! m = []" using assms by simp
  then have "pick_group bss m = Inr []" using pick_group_nth [of m bss] assms by simp
  then show ?thesis using keepsD [OF save_empty1 [OF assms(1)]] by (simp add: keeps_def pbind_apply)
qed

lemma sum_count_concat: "(\<Sum>m \<leftarrow> [0..<length bss]. int (count_list (bss ! m) i)) = int (count_list (concat bss) i)"
proof -
  have "(\<Sum>m \<leftarrow> [0..<length bss]. int (count_list (bss ! m) i)) = (\<Sum>bs \<leftarrow> bss. int (count_list bs i))"
    by (rule arg_cong [where f = sum_list]) (rule nth_equalityI, simp_all)
  also have "\<dots> = int (count_list (concat bss) i)" by (induction bss) simp_all
  finally show ?thesis .
qed

text \<open>\<open>touch\<close> followed by \<open>save_new_computed_blocks\<close>.\<close>

lemma touch_save_ok:
  assumes ok: "coord_ok K c" and cm: "computed_ok rid bss c"
  shows "coord_ok K (snd (pbind (on_pool (touch bss)) (\<lambda>_. save_new_computed_blocks rid bss) c))"
proof -
  obtain xs where xs: "pool_inv (pool c) xs {}" using coord_okD(2) [OF ok] by blast
  have K: "length bss = K" "length (managers c) = K" using cm coord_okD(1) [OF ok] by (simp_all add: computed_ok_def)
  have "set (concat bss) \<subseteq> {..<length (blocks (pool c))}" using cm by (auto simp: computed_ok_def valid_list_def)
  from touch_effect [OF xs this] obtain p where
    p: "touch bss (pool c) = (Inr (), p)" "pool_inv p (filter (\<lambda>x. x \<notin> set (concat bss)) xs) {}"
      "with_refs (\<lambda>i. int (count_list (concat bss) i)) (pool c) p"
    by (auto simp: touch_def pseq_concat)
  let ?c = "c\<lparr>pool := p\<rparr>"
  have st: "same_static (pool c) p" using p(3) by (simp add: with_refs_def)
  then have s: "length (blocks p) = length (blocks (pool c))" "null_block p = null_block (pool c)" by (simp_all add: same_static_def)
  have o: "owed K (\<lambda>i. int (count_list (concat bss) i)) ?c"
    using ok p(2,3) s lists_ok_static [OF st] by (auto simp: owed_def coord_ok_def with_refs_def)
  have run: "pbind (on_pool (touch bss)) (\<lambda>_. save_new_computed_blocks rid bss) c =
      pseq (\<lambda>m. pbind (plift (pick_group bss m)) (save_new_computed_blocks1 m rid)) [0..<K] ?c"
    using p(1) K by (simp add: pbind_apply on_pool_def save_new_computed_blocks_def over_managers_def manager_ids_def)
  show ?thesis
  proof (cases "\<exists>bs \<in> set bss. bs \<noteq> []")
    case True
    then have fr: "if is_cross (managers ?c ! m) then bss ! m = []
       else map_of (num_cached_block (managers ?c ! m)) rid = None \<and> dget (req_to_blocks (managers ?c ! m)) rid [] = []"
      if "m \<in> set [0..<K]" for m using cm that K by (simp add: computed_ok_def)
    have o': "owed K (\<lambda>i. \<Sum>m \<leftarrow> [0..<K]. int (count_list (bss ! m) i)) ?c"
      using o unfolding sum_count_concat [of bss, unfolded K(1)] .
    have sub: "set [0..<K] \<subseteq> {..<K}" by auto
    have vl: "valid_list (pool ?c) bs" if "bs \<in> set bss" for bs
      using cm that valid_list_static [OF st] by (simp add: computed_ok_def)
    have "\<exists>d. pseq (\<lambda>m. pbind (plift (pick_group bss m)) (save_new_computed_blocks1 m rid)) [0..<K] ?c = (Inr (), d) \<and> coord_ok K d"
      by (rule save_all [OF o' distinct_upt sub K(1)]) (rule vl fr, assumption)+
    then show ?thesis unfolding run by (elim exE conjE) (simp only: snd_conv)
  next
    case False
    then have "count_list (concat bss) i = 0" for i by (auto simp: count_list_0_iff)
    with o have ok': "coord_ok K ?c" by (simp only: owed_none int_ops(1))
    have "keeps (coord_ok K) (pseq (\<lambda>m. pbind (plift (pick_group bss m)) (save_new_computed_blocks1 m rid)) [0..<K])"
      using False by (intro keeps_pseq save_nil [OF _ K(1)]) simp_all
    then show ?thesis unfolding run by (rule keepsD) (rule ok')
  qed
qed

section \<open>Allocating slots\<close>

lemma bind_after:
  assumes "I (snd (p c))" "\<And>a d. I d \<Longrightarrow> J (snd (f a d))" "\<And>d. I d \<Longrightarrow> J d"
  shows "J (snd (pbind p f c))"
  using assms by (auto simp: pbind_apply split: sum.splits)

lemma commit_ok:
  assumes ok: "coord_ok K c" and cm: "computed_ok (request_id r) (blocks_of K computed) c"
  shows "coord_ok K (snd (commit_slots r need n_computed n_new computed caching delay e c))"
proof -
  let ?bss = "blocks_of K computed"
  let ?touch = "if caching then on_pool (touch ?bss) else if \<exists>bs \<in> set ?bss. bs \<noteq> [] then praise AssertionError else pret ()"
  let ?save = "case computed of None \<Rightarrow> pret () | Some _ \<Rightarrow> save_new_computed_blocks (request_id r) ?bss"
  let ?rest = "pbind (allocate_new_blocks (request_id r) need e) (\<lambda>new.
           if \<not> caching \<or> delay then pret (Some (create_kv_cache_blocks new))
           else pbind (cache_blocks r (min (n_computed + n_new) (num_tokens r))) (\<lambda>_.
                pbind (if r_pinned r then pin_request (request_id r) else pret ()) (\<lambda>_.
                pret (Some (create_kv_cache_blocks new)))))"
  have len: "length (managers c) = K" using coord_okD(1) [OF ok] .
  have run: "commit_slots r need n_computed n_new computed caching delay e c = pbind (pbind ?touch (\<lambda>_. ?save)) (\<lambda>_. ?rest) c"
    by (simp add: commit_slots_def Let_def len pbind_apply split: sum.splits)
  have rest: "keeps (coord_ok K) ?rest"
    by (intro keeps_intros allocate_ok cache_ok_all pin_ok)
  have none: "touch ?bss (pool c) = (Inr (), pool c)" if "\<forall>bs \<in> set ?bss. bs = []"
  proof -
    have "concat ?bss = []" using that by simp
    then show ?thesis unfolding touch_def pseq_concat by (simp only: pseq.simps prog_simps)
  qed
  have nil: "keeps (coord_ok K) (save_new_computed_blocks (request_id r) ?bss)" if "\<forall>bs \<in> set ?bss. bs = []"
    unfolding save_new_computed_blocks_def
    using that cm len by (intro keeps_over [where K = K] coord_okD(1) save_nil) (simp_all add: computed_ok_def)
  have "coord_ok K (snd (pbind ?touch (\<lambda>_. ?save) c))"
  proof (cases computed)
    case None
    then have "\<forall>bs \<in> set ?bss. bs = []" by (simp add: blocks_of_def)
    then show ?thesis using None none ok by (simp add: pbind_apply on_pool_def)
  next
    case (Some x)
    show ?thesis
    proof (cases caching)
      case True
      then show ?thesis using touch_save_ok [OF ok cm] Some by simp
    next
      case False
      show ?thesis
      proof (cases "\<exists>bs \<in> set ?bss. bs \<noteq> []")
        case True
        then show ?thesis using False ok by (simp add: pbind_apply)
      next
        case nb: False
        then show ?thesis using False Some keepsD [OF nil ok] by (simp add: pbind_apply)
      qed
    qed
  qed
  then show ?thesis unfolding run by (rule bind_after) (rule keepsD [OF rest])
qed

lemma allocate_slots_ok:
  assumes ok: "coord_ok K c" and cm: "computed_ok (request_id r) (blocks_of K computed) c"
  shows "coord_ok K (snd (allocate_slots_c r n_new n_nc computed lookahead delay e caching c))"
proof -
  let ?rid = "request_id r"
  let ?I = "calm_ok K ?rid c"
  have c0: "?I c" using ok by (simp add: calm_ok_def)
  have fin: "coord_ok K (snd (commit_slots r need n_computed n_new computed caching delay e d))" if "?I d" for d need n_computed
    using commit_ok computed_calm [OF cm] that by (auto simp: calm_ok_def)
  have calm: "coord_ok K d" if "?I d" for d using that by (simp add: calm_ok_def)
  have count: "coord_ok K (snd (pbind (get_num_blocks_to_allocate ?rid need bss e) (\<lambda>need' d.
      if need' > get_num_free_blocks (pool d) then (Inr None, d)
      else commit_slots r need n_computed n_new computed caching delay e d) d))" if "?I d" for d need n_computed bss
  proof (rule bind_after [where I = ?I])
    show "?I (snd (get_num_blocks_to_allocate ?rid need bss e d))" by (rule keepsD [OF count_ok that])
  qed (simp_all add: fin calm)
  show ?thesis
  proof (cases "n_new = 0")
    case False
    have "coord_ok K (snd (pbind (remove_skipped_blocks ?rid (num_computed_tokens r)) (\<lambda>_ d.
        pbind (get_num_blocks_to_allocate ?rid (need d) (bss d) e) (\<lambda>need' d'.
          if need' > get_num_free_blocks (pool d') then (Inr None, d')
          else commit_slots r (need d) n_computed n_new computed caching delay e d') d) c))" for need bss n_computed
    proof (rule bind_after [where I = ?I])
      show "?I (snd (remove_skipped_blocks ?rid (num_computed_tokens r) c))" by (rule keepsD [OF remove_skipped_ok c0])
    qed (rule count calm, assumption)+
    then show ?thesis using False unfolding allocate_slots_c_def Let_def by simp
  qed (use ok in \<open>simp add: allocate_slots_c_def\<close>)
qed

section \<open>Steps\<close>

text \<open>
  What the engine does to the state of the KV-cache manager: slots for a request, the end or the
  preemption of a request, pins, late caching, eviction on request, a reset of the prefix cache and
  the removal of events. A call that raises leaves the state it has reached.
\<close>

inductive cache_step :: "coordinator \<Rightarrow> coordinator \<Rightarrow> bool" where
  allocate: "computed_ok (request_id r) (blocks_of (length (managers c)) computed) c \<Longrightarrow>
     cache_step c (snd (allocate_slots_c r n_new n_new_computed computed lookahead delay n_encoder caching c))"
| free: "cache_step c (snd (coord_free rid c))"
| pin: "cache_step c (snd (pin_request rid c))"
| unpin: "cache_step c (snd (unpin_request rid c))"
| cache: "cache_step c (snd (cache_blocks r n c))"
| evict: "cache_step c (snd (on_pool (evict_blocks ids) c))"
| reset: "cache_step c (c\<lparr>pool := snd (reset_prefix_cache (pool c))\<rparr>)"
| events: "cache_step c (c\<lparr>pool := snd (take_events (pool c))\<rparr>)"

inductive cache_reach :: "coord_config \<Rightarrow> coordinator \<Rightarrow> bool" for cfg where
  start: "get_kv_cache_coordinator cfg = Inr c \<Longrightarrow> cache_reach cfg c"
| step: "cache_reach cfg c \<Longrightarrow> cache_step c d \<Longrightarrow> cache_reach cfg d"

inductive_cases cache_reachE: "cache_reach cfg c"

lemma cache_step_ok: "cache_step c d \<Longrightarrow> coord_ok K c \<Longrightarrow> coord_ok K d"
proof (induction rule: cache_step.induct)
  case (allocate r c computed)
  then show ?case using allocate_slots_ok coord_okD(1) by blast
qed (simp_all add: keepsD [OF free_ok_all] keepsD [OF pin_ok] keepsD [OF unpin_ok] keepsD [OF cache_ok_all] keepsD [OF evict_ok, simplified]
  reset_ok events_ok)

lemma fresh_manager: "req_to_blocks (manager_init spec g d p) = []"
  by (simp add: manager_init_def)

lemma coord_base_ok:
  assumes "coord_base cfg caching cls = Inr c" "0 < cfg_num_blocks cfg"
  shows "coord_ok (length (cfg_groups cfg)) c \<and> num_gpu_blocks (pool c) = cfg_num_blocks cfg"
proof -
  obtain p where p: "pool_init (cfg_num_blocks cfg) caching (cfg_hash_block_size cfg) (cfg_kv_events cfg) (cfg_int_hashes cfg) = Inr p"
    "pool_inv p [1..<nat (cfg_num_blocks cfg)] {}" "null_block p = 0" "num_gpu_blocks p = cfg_num_blocks cfg"
    "blocks p = (replicate (nat (cfg_num_blocks cfg)) new_block)[0 := new_block\<lparr>is_null := True\<rparr>]"
    using pool_init_ok [OF assms(2)] by blast
  let ?gs = "map2 (\<lambda>i spec. manager_init spec (int i) (cfg_dcp cfg) (cfg_pcp cfg)) [0..<length (cfg_groups cfg)] (cfg_groups cfg)"
  have c: "pool c = p" "managers c = ?gs" using assms(1) p(1) by (auto simp: coord_base_def)
  have e: "req_to_blocks g = []" if "g \<in> set (managers c)" for g using that c(2) by (auto simp: fresh_manager)
  then have "held_by c i = 0" for i by (simp add: held_by_def refs_in_def cong: map_cong)
  then show ?thesis
    using c e p by (auto simp: coord_ok_def lists_ok_def dwf_def new_block_def)
qed

lemma unitary_base: "unitary_init cfg = Inr c \<Longrightarrow> coord_base cfg (cfg_enable_caching cfg) Unitary = Inr c"
  by (cases "cfg_groups cfg") (auto simp: unitary_init_def py_simps split: if_splits)

lemma start_ok:
  assumes "get_kv_cache_coordinator cfg = Inr c" "0 < cfg_num_blocks cfg"
  shows "coord_ok (length (cfg_groups cfg)) c \<and> num_gpu_blocks (pool c) = cfg_num_blocks cfg"
proof -
  have cls: "coord_ok K (c\<lparr>coord_class := h\<rparr>) \<longleftrightarrow> coord_ok K c" for K c h by (simp add: coord_ok_def held_by_def)
  obtain b cls' where "coord_base cfg b cls' = Inr c \<or> (\<exists>c' h. coord_base cfg b cls' = Inr c' \<and> c = c'\<lparr>coord_class := h\<rparr>)"
    using assms(1) unitary_base [of cfg c] by (auto simp: get_kv_cache_coordinator_def hybrid_init_def py_simps split: if_splits)
  then show ?thesis using coord_base_ok [OF _ assms(2)] cls by auto
qed

lemma cache_reach_ok: "cache_reach cfg c \<Longrightarrow> 0 < cfg_num_blocks cfg \<Longrightarrow> coord_ok (length (cfg_groups cfg)) c"
  by (induction rule: cache_reach.induct) (simp_all add: start_ok cache_step_ok)

end
