(* ===== verification/KV_Shape.thy ===== *)
theory KV_Shape
  imports KV_Account
begin

text \<open>
  What no operation changes: the class of the coordinator, its world sizes, the specs, block sizes
  and ids of its groups and the size at which hashes are computed. So a reachable state has them
  from its configuration. For a hybrid coordinator the groups of the two attention types follow
  each other, in the order in which their hits are joined.
\<close>

section \<open>The shape of a coordinator\<close>

definition group_shape :: "single_type_manager \<Rightarrow> kv_cache_spec \<times> int \<times> int" where
  "group_shape g = (m_spec g, m_block_size g, kv_cache_group_id g)"

definition same_shape :: "coordinator \<Rightarrow> coordinator \<Rightarrow> bool" where
  "same_shape a c \<longleftrightarrow> coord_class c = coord_class a \<and> use_eagle c = use_eagle a \<and> dcp_world_size c = dcp_world_size a \<and>
     pcp_world_size c = pcp_world_size a \<and> map group_shape (managers c) = map group_shape (managers a) \<and>
     hash_block_size (pool c) = hash_block_size (pool a)"

lemma same_shape_refl: "same_shape c c"
  by (simp add: same_shape_def)

lemma same_shape_trans: "same_shape a b \<Longrightarrow> same_shape b c \<Longrightarrow> same_shape a c"
  by (simp add: same_shape_def)

text \<open>Operations of the pool.\<close>

definition hashes_at :: "int \<Rightarrow> block_pool \<Rightarrow> bool" where
  "hashes_at h p \<longleftrightarrow> hash_block_size p = h"

lemma hashes_at_upd [simp]:
  "hashes_at h (upd_block b f p) = hashes_at h p" "hashes_at h (add_ref d b p) = hashes_at h p"
  "hashes_at h (add_event e p) = hashes_at h p" "hashes_at h (p\<lparr>free_block_queue := q\<rparr>) = hashes_at h p"
  "hashes_at h (p\<lparr>cached_block_hash_to_block := t\<rparr>) = hashes_at h p" "hashes_at h (set_block_pin v b p) = hashes_at h p"
  by (simp_all add: hashes_at_def add_ref_def add_event_def set_block_pin_def)

lemma hashes_at_evict [simp]: "hashes_at h (snd (maybe_evict_cached_block b p)) = hashes_at h p"
  by (auto simp: maybe_evict_cached_block_def Let_def split: option.splits prod.splits)

lemma hashes_at_queue: "keeps (hashes_at h) (on_queue f)"
  by (auto simp: keeps_def on_queue_def split: sum.splits)

lemma hashes_at_fold: "(\<And>b p. hashes_at h (f b p) = hashes_at h p) \<Longrightarrow> hashes_at h (fold f bs p) = hashes_at h p"
  by (induction bs arbitrary: p) simp_all

lemma hashes_at_loop: "keeps (hashes_at h) (cache_loop gid bs hs new)"
proof (induction bs arbitrary: hs new)
  case (Cons b bs)
  have "keeps (hashes_at h) (store_hash key b)" for key by (auto simp: keeps_def store_hash_def split: sum.splits)
  then show ?case
    using Cons.IH by (cases hs) (auto simp only: cache_loop.simps list.case intro!: keeps_intros keeps_modify, simp)
qed (auto intro: keeps_intros)

lemma hashes_at_new: "keeps (hashes_at h) (get_new_blocks n)"
proof -
  have "keeps (hashes_at h) (claim_block b)" for b by (auto simp: keeps_def claim_block_def Let_def)
  then have "keeps (hashes_at h) (pbind (pseq claim_block bs) (\<lambda>_. pret bs))" for bs
    by (intro keeps_intros keeps_pseq)
  from keepsD [OF this] show ?thesis
    unfolding keeps_def get_new_blocks_def by (auto split: sum.splits)
qed

lemma hashes_at_touch: "keeps (hashes_at h) (touch bss)"
proof -
  have "keeps (hashes_at h) (pbind (if t then on_queue f else pret ()) (\<lambda>_. pmodify (add_ref 1 b)))" for t f b
    by (intro keeps_intros hashes_at_queue keeps_modify) simp
  from keepsD [OF this] have "keeps (hashes_at h) (touch_block b)" for b
    unfolding keeps_def touch_block_def Let_def by blast
  then show ?thesis unfolding touch_def by (intro keeps_pseq)
qed

lemma hashes_at_free: "keeps (hashes_at h) (free_blocks bs)"
proof -
  have "hashes_at h (fold (add_ref (-1)) bs p) = hashes_at h p" for p by (rule hashes_at_fold) simp
  then show ?thesis using keepsD [OF hashes_at_queue] by (simp add: keeps_def free_blocks_def pbind_apply)
qed

lemma hashes_at_evict_blocks: "keeps (hashes_at h) (evict_blocks ids)"
  by (induction ids) (auto simp only: evict_blocks.simps intro!: keeps_intros keeps_modify, simp)

lemma hashes_at_cache: "keeps (hashes_at h) (cache_full_blocks r bs nc nf bsize gid)"
proof -
  have p: "keeps (hashes_at h) (parent_hash bs nc)" by (simp add: keeps_def parent_hash_state)
  have "keeps (hashes_at h) (\<lambda>p. if enable_kv_cache_events p then pbind (parent_hash bs nc) (\<lambda>parent. pmodify (f parent)) p else (Inr (), p))"
    if "\<And>parent p. hashes_at h (f parent p) = hashes_at h p" for f
  proof -
    have "keeps (hashes_at h) (pbind (parent_hash bs nc) (\<lambda>parent. pmodify (f parent)))"
      by (intro keeps_intros p keeps_modify) (simp add: that)
    from keepsD [OF this] show ?thesis unfolding keeps_def by simp
  qed
  then show ?thesis unfolding cache_full_blocks_def by (intro keeps_intros hashes_at_loop) simp
qed

text \<open>Operations of the coordinator.\<close>

abbreviation keeps_shape :: "coordinator \<Rightarrow> 'a coord \<Rightarrow> bool" where
  "keeps_shape a p \<equiv> keeps (same_shape a) p"

lemma shape_pool:
  assumes "\<And>h. keeps (hashes_at h) f"
  shows "keeps_shape a (on_pool f)"
  unfolding keeps_def
proof (intro allI impI)
  fix c assume "same_shape a c"
  then show "same_shape a (snd (on_pool f c))"
    using keepsD [OF assms, of "hash_block_size (pool c)" "pool c"] by (simp add: same_shape_def hashes_at_def)
qed

lemma shape_upd:
  assumes "\<And>g. group_shape (f g) = group_shape g" "same_shape a c"
  shows "same_shape a (upd_manager m f c)"
proof -
  have "map group_shape ((managers c)[m := f (managers c ! m)]) = map group_shape (managers c)"
    using assms(1) by (cases "m < length (managers c)") (simp_all add: map_update list_update_same_conv list_update_beyond)
  then show ?thesis using assms(2) by (simp add: same_shape_def upd_manager_def)
qed

lemma shape_modify: "(\<And>g. group_shape (f g) = group_shape g) \<Longrightarrow> keeps_shape a (pmodify (upd_manager m f))"
  using shape_upd by (intro keeps_modify) blast

lemma shape_read: "keeps_shape a (read_blocks m rid)"
  unfolding keeps_def read_blocks_def Let_def snd_conv by (intro allI impI shape_upd) (simp_all add: group_shape_def)

lemma shape_set: "keeps_shape a (pmodify (set_blocks m rid bs))"
  unfolding set_blocks_def by (intro shape_modify) (simp add: group_shape_def)

lemmas shape_intros = keeps_intros shape_read shape_set shape_modify

lemma shape_over: "(\<And>m. keeps_shape a (f m)) \<Longrightarrow> keeps_shape a (over_managers f)"
  by (rule keeps_over [where K = "length (managers a)"]) (auto simp: same_shape_def dest: map_eq_imp_length_eq)

lemma shape_pmap:
  assumes "\<And>m. keeps_shape a (f m)"
  shows "keeps_shape a (\<lambda>c. pmap f (manager_ids c) c)"
proof -
  have "keeps_shape a (pmap f ms)" for ms using assms by (intro keeps_pmap)
  then show ?thesis unfolding keeps_def by blast
qed

lemma shape_free: "keeps_shape a (coord_free rid)"
proof -
  have "keeps_shape a (free1 rid m)" for m
    unfolding free1_def by (intro shape_intros shape_pool hashes_at_free) (simp_all add: group_shape_def)
  then show ?thesis unfolding coord_free_def by (rule shape_over)
qed

lemma shape_cache: "keeps_shape a (cache_blocks r n)"
proof -
  have "keeps_shape a (cache_blocks1 r n m)" for m
  proof -
    have "keeps_shape a (pbind (plift x) (\<lambda>num_full. if num_cached \<ge> num_full then pret ()
        else pbind (read_blocks m (request_id r)) (\<lambda>bs. pbind (on_pool (cache_full_blocks r bs num_cached num_full B gid)) (\<lambda>_.
          pmodify (upd_manager m (\<lambda>g. g\<lparr>num_cached_block := AList.update (request_id r) num_full (num_cached_block g)\<rparr>))))))" for x num_cached B gid
      by (intro shape_intros shape_pool hashes_at_cache) (simp add: group_shape_def)
    from keepsD [OF this] show ?thesis unfolding keeps_def cache_blocks1_def Let_def by simp
  qed
  then show ?thesis unfolding cache_blocks_def by (rule shape_over)
qed

lemma shape_skip: "keeps_shape a (remove_skipped_blocks rid n)"
  unfolding remove_skipped_blocks_def remove_skipped_blocks1_def
  by (intro shape_over shape_intros shape_pool hashes_at_free)

lemma shape_count: "keeps_shape a (get_num_blocks_to_allocate rid n bss e)"
proof -
  have one: "keeps_shape a (get_num_blocks_to_allocate1 m rid k bs)" for m k bs
    unfolding get_num_blocks_to_allocate1_def by (intro shape_intros) (simp add: keeps_def Let_def)
  have k: "keeps_shape a (get_num_blocks_to_allocate1 m rid e [])"
      "keeps_shape a (pbind (plift (pick_group bss m)) (get_num_blocks_to_allocate1 m rid n))" for m
    by (intro keeps_intros one)+
  have "keeps_shape a (\<lambda>c. if is_cross (managers c ! m) then get_num_blocks_to_allocate1 m rid e [] c
      else pbind (plift (pick_group bss m)) (get_num_blocks_to_allocate1 m rid n) c)" for m
    using k [of m] unfolding keeps_def by simp
  then have "keeps_shape a (pbind (\<lambda>c. pmap (\<lambda>m c. if is_cross (managers c ! m) then get_num_blocks_to_allocate1 m rid e [] c
      else pbind (plift (pick_group bss m)) (get_num_blocks_to_allocate1 m rid n) c) (manager_ids c) c) (\<lambda>ns. pret (sum_list ns)))"
    by (intro keeps_intros shape_pmap)
  then show ?thesis by (simp add: keeps_def get_num_blocks_to_allocate_def pbind_def)
qed

lemma shape_save: "keeps_shape a (save_new_computed_blocks rid bss)"
proof -
  have "keeps_shape a (save_new_computed_blocks1 m rid bs)" for m bs
  proof -
    have "keeps_shape a (pbind (read_blocks m rid) (\<lambda>old. if old \<noteq> [] then praise AssertionError
        else pmodify (\<lambda>c. upd_manager m (\<lambda>g. g\<lparr>num_cached_block := AList.update rid (int (length bs)) (num_cached_block g)\<rparr>)
               (set_blocks m rid (old @ bs) c))))"
      unfolding set_blocks_def by (intro shape_intros keeps_modify shape_upd) (simp_all add: group_shape_def)
    from keepsD [OF this] show ?thesis unfolding keeps_def save_new_computed_blocks1_def Let_def by simp
  qed
  then show ?thesis unfolding save_new_computed_blocks_def by (intro shape_over keeps_intros)
qed

lemma shape_allocate: "keeps_shape a (allocate_new_blocks rid n e)"
proof -
  have "keeps_shape a (allocate_new_blocks1 m rid k)" for m k
    unfolding allocate_new_blocks1_def Let_def by (intro shape_intros shape_pool hashes_at_new)
  then have "keeps_shape a (\<lambda>c. allocate_new_blocks1 m rid (if is_cross (managers c ! m) then e else n) c)" for m
    unfolding keeps_def by blast
  then show ?thesis unfolding allocate_new_blocks_def by (rule shape_pmap)
qed

lemma shape_pin: "keeps_shape a (pin_request rid)"
proof -
  have "hash_block_size (fold pin_block bs p) = hash_block_size p" for bs p
    by (induction bs arbitrary: p) (simp_all add: pin_block_def set_block_pin_def)
  then show ?thesis by (simp add: keeps_def pin_request_def same_shape_def)
qed

lemma shape_unpin: "keeps_shape a (unpin_request rid)"
proof -
  have "hashes_at h (fold (set_block_pin False) bs p) = hashes_at h p" for h bs p by (rule hashes_at_fold) simp
  then have "keeps_shape a (\<lambda>c. (Inr (), c\<lparr>pool := fold (set_block_pin False) (concat (coord_get_blocks c rid)) (pool c)\<rparr>))"
    by (auto simp: keeps_def same_shape_def hashes_at_def)
  then show ?thesis unfolding unpin_request_def by (intro keeps_intros shape_free)
qed

lemma shape_commit: "keeps_shape a (commit_slots r need nc nn computed caching delay e)"
proof -
  have "keeps_shape a (pbind (if caching then on_pool (touch bss)
                else if \<exists>bs \<in> set bss. bs \<noteq> [] then praise AssertionError else pret ()) (\<lambda>_.
         pbind (case computed of None \<Rightarrow> pret () | Some _ \<Rightarrow> save_new_computed_blocks (request_id r) bss) (\<lambda>_.
         pbind (allocate_new_blocks (request_id r) need e) (\<lambda>new.
           if \<not> caching \<or> delay then pret (Some (create_kv_cache_blocks new))
           else pbind (cache_blocks r (min (nc + nn) (num_tokens r))) (\<lambda>_.
                pbind (if r_pinned r then pin_request (request_id r) else pret ()) (\<lambda>_.
                pret (Some (create_kv_cache_blocks new))))))))" for bss
    by (intro keeps_intros shape_pool hashes_at_touch shape_save shape_allocate shape_cache shape_pin)
  from keepsD [OF this] show ?thesis unfolding keeps_def commit_slots_def Let_def by blast
qed

lemma shape_slots: "keeps_shape a (allocate_slots_c r nn nc computed lookahead delay e caching)"
proof -
  have "keeps_shape a (\<lambda>c. if need > get_num_free_blocks (pool c) then (Inr None, c)
      else commit_slots r n k nn computed caching delay e c)" for need n k
    using keepsD [OF shape_commit] unfolding keeps_def by simp
  then have "keeps_shape a (pbind (get_num_blocks_to_allocate (request_id r) n bss e) (\<lambda>need c.
      if need > get_num_free_blocks (pool c) then (Inr None, c) else commit_slots r n k nn computed caching delay e c))" for n k bss
    by (intro keeps_intros shape_count)
  from keepsD [OF this] have "keeps_shape a (\<lambda>c. let bss = blocks_of (length (managers c)) computed; k = num_computed_tokens r + nc;
      n = min (k + nn + lookahead) (max_model_len c)
    in pbind (get_num_blocks_to_allocate (request_id r) n bss e) (\<lambda>need c.
      if need > get_num_free_blocks (pool c) then (Inr None, c) else commit_slots r n k nn computed caching delay e c) c)"
    unfolding keeps_def Let_def by blast
  then show ?thesis unfolding allocate_slots_c_def by (intro keeps_intros shape_skip)
qed

lemma shape_step: "cache_step c d \<Longrightarrow> same_shape c d"
proof (induction rule: cache_step.induct)
  case (reset c)
  then show ?case by (auto simp: same_shape_def reset_prefix_cache_def Let_def add_event_def)
next
  case (events c)
  then show ?case by (auto simp: same_shape_def take_events_def)
qed (simp_all only: keepsD [OF shape_slots same_shape_refl] keepsD [OF shape_free same_shape_refl] keepsD [OF shape_pin same_shape_refl]
    keepsD [OF shape_unpin same_shape_refl] keepsD [OF shape_cache same_shape_refl]
    keepsD [OF shape_pool [OF hashes_at_evict_blocks] same_shape_refl])

lemma reach_shape: "cache_reach cfg c \<Longrightarrow> \<exists>c0. get_kv_cache_coordinator cfg = Inr c0 \<and> same_shape c0 c"
proof (induction rule: cache_reach.induct)
  case (start c)
  then show ?case using same_shape_refl by blast
next
  case (step c d)
  then show ?case using shape_step same_shape_trans by blast
qed

section \<open>The groups of a configuration\<close>

text \<open>Sizes are positive, world sizes at least one, and group ids fit 32 bits.\<close>

definition config_ok :: "coord_config \<Rightarrow> bool" where
  "config_ok cfg \<longleftrightarrow> 0 < cfg_hash_block_size cfg \<and> 1 \<le> cfg_dcp cfg \<and> 1 \<le> cfg_pcp cfg \<and>
     length (cfg_groups cfg) \<le> 2 ^ 32 \<and> (\<forall>s \<in> set (cfg_groups cfg). spec_ok s)"

lemma base_shape:
  assumes "coord_base cfg caching cls = Inr c"
  shows "coord_class c = cls" "dcp_world_size c = cfg_dcp cfg" "pcp_world_size c = cfg_pcp cfg"
    "hash_block_size (pool c) = cfg_hash_block_size cfg" "length (managers c) = length (cfg_groups cfg)"
    "\<And>m. m < length (cfg_groups cfg) \<Longrightarrow> managers c ! m = manager_init (cfg_groups cfg ! m) (int m) (cfg_dcp cfg) (cfg_pcp cfg)"
proof -
  obtain p where p: "pool_init (cfg_num_blocks cfg) caching (cfg_hash_block_size cfg) (cfg_kv_events cfg) (cfg_int_hashes cfg) = Inr p"
    "c = \<lparr>pool = p, managers = map2 (\<lambda>i spec. manager_init spec (int i) (cfg_dcp cfg) (cfg_pcp cfg)) [0..<length (cfg_groups cfg)] (cfg_groups cfg),
            coord_class = cls, use_eagle = cfg_use_eagle cfg, dcp_world_size = cfg_dcp cfg,
            pcp_world_size = cfg_pcp cfg, max_model_len = cfg_max_model_len cfg\<rparr>"
    using assms by (auto simp: coord_base_def py_simps)
  have "hash_block_size p = cfg_hash_block_size cfg" using p(1) by (auto simp: pool_init_def py_simps split: if_splits)
  then show "coord_class c = cls" "dcp_world_size c = cfg_dcp cfg" "pcp_world_size c = cfg_pcp cfg"
    "hash_block_size (pool c) = cfg_hash_block_size cfg" "length (managers c) = length (cfg_groups cfg)"
    "\<And>m. m < length (cfg_groups cfg) \<Longrightarrow> managers c ! m = manager_init (cfg_groups cfg ! m) (int m) (cfg_dcp cfg) (cfg_pcp cfg)"
    using p(2) by simp_all
qed

text \<open>What \<open>split_groups\<close> returns: the ids of the full groups and of the others, and their specs.\<close>

lemma split_groups_ids:
  "split_groups i ss full other fi oi = Inr (full', other', fi', oi') \<Longrightarrow>
     fi' = fi @ filter (\<lambda>k. is_full (ss ! (k - i))) [i..<i + length ss] \<and>
     oi' = oi @ filter (\<lambda>k. \<not> is_full (ss ! (k - i))) [i..<i + length ss]"
proof (induction ss arbitrary: i full other fi oi)
  case (Cons s ss)
  let ?up = "[Suc i..<Suc i + length ss]"
  have up: "[i..<i + length (s # ss)] = i # ?up" by (simp add: upt_rec)
  have nth: "(s # ss) ! (k - i) = ss ! (k - Suc i)" if "k \<in> set ?up" for k
  proof -
    have "Suc i \<le> k" using that unfolding set_upt by simp
    then have "k - i = Suc (k - Suc i)" by simp
    then show ?thesis by simp
  qed
  have f: "filter (\<lambda>k. is_full ((s # ss) ! (k - i))) ?up = filter (\<lambda>k. is_full (ss ! (k - Suc i))) ?up"
    "filter (\<lambda>k. \<not> is_full ((s # ss) ! (k - i))) ?up = filter (\<lambda>k. \<not> is_full (ss ! (k - Suc i))) ?up"
    by (rule filter_cong [OF refl], simp only: nth)+
  show ?case
  proof (cases "is_full s")
    case True
    then have "split_groups (Suc i) ss (Some s) other (fi @ [i]) oi = Inr (full', other', fi', oi')"
      using Cons.prems by (simp split: if_splits)
    from Cons.IH [OF this] show ?thesis using True unfolding up filter.simps f by simp
  next
    case False
    then have "split_groups (Suc i) ss full (Some s) fi (oi @ [i]) = Inr (full', other', fi', oi')"
      using Cons.prems by (simp split: if_splits)
    from Cons.IH [OF this] show ?thesis using False unfolding up filter.simps f by simp
  qed
qed simp

lemma split_groups_specs:
  "split_groups i ss full other fi oi = Inr (full', other', fi', oi') \<Longrightarrow>
     (\<forall>f. full = Some f \<longrightarrow> full' = Some f) \<and> (\<forall>g. other = Some g \<longrightarrow> other' = Some g) \<and>
     (\<forall>s \<in> set ss. if is_full s then full' = Some s else other' = Some s) \<and>
     (full' \<noteq> full \<longrightarrow> (\<exists>s \<in> set ss. is_full s)) \<and> (other' \<noteq> other \<longrightarrow> (\<exists>s \<in> set ss. \<not> is_full s))"
proof (induction ss arbitrary: i full other fi oi)
  case (Cons s ss)
  show ?case
  proof (cases "is_full s")
    case True
    then have c: "full = None \<or> full = Some s" "split_groups (Suc i) ss (Some s) other (fi @ [i]) oi = Inr (full', other', fi', oi')"
      using Cons.prems by (simp_all split: if_splits)
    show ?thesis using Cons.IH [OF c(2)] c(1) True by auto
  next
    case False
    then have c: "other = None \<or> other = Some s" "split_groups (Suc i) ss full (Some s) fi (oi @ [i]) = Inr (full', other', fi', oi')"
      using Cons.prems by (simp_all split: if_splits)
    show ?thesis using Cons.IH [OF c(2)] c(1) False by auto
  qed
qed simp

text \<open>Two parts of the ids that do not interleave make up all of them, in order.\<close>

lemma parts_in_order:
  assumes "filter P [0..<n] \<noteq> []" "filter (\<lambda>k. \<not> P k) [0..<n] \<noteq> []"
    "Max (set (filter P [0..<n])) < Min (set (filter (\<lambda>k. \<not> P k) [0..<n]))"
  shows "filter P [0..<n] @ filter (\<lambda>k. \<not> P k) [0..<n] = [0..<n]"
proof (rule sorted_distinct_set_unique)
  have lt: "x < y" if "x \<in> set (filter P [0..<n])" "y \<in> set (filter (\<lambda>k. \<not> P k) [0..<n])" for x y
    using Max_ge [OF finite_set that(1)] Min_le [OF finite_set that(2)] assms(3) by linarith
  show "sorted (filter P [0..<n] @ filter (\<lambda>k. \<not> P k) [0..<n])"
    unfolding sorted_append using lt by (auto simp: sorted_wrt_filter less_imp_le)
qed auto

definition joined_ids :: "hybrid_groups \<Rightarrow> nat list" where
  "joined_ids h = (if full_attn_first h then full_attention_group_ids h @ other_group_ids h
     else other_group_ids h @ full_attention_group_ids h)"

lemma verify_groups:
  assumes v: "verify_and_split_kv_cache_groups specs = Inr h"
  shows "joined_ids h = [0..<length specs]" "full_attention_group_ids h \<noteq> []" "other_group_ids h \<noteq> []"
    "\<And>k. k \<in> set (full_attention_group_ids h) \<Longrightarrow> specs ! k = full_attention_spec h"
    "\<And>k. k \<in> set (other_group_ids h) \<Longrightarrow> specs ! k = other_spec h"
    "is_full (full_attention_spec h)" "full_attention_spec h \<in> set specs" "other_spec h \<in> set specs"
    "lcm_block_size h = lcm (spec_block_size (full_attention_spec h)) (spec_block_size (other_spec h))"
proof -
  let ?P = "\<lambda>k. is_full (specs ! k)" let ?n = "length specs"
  obtain f g fi oi where sp: "split_groups 0 specs None None [] [] = Inr (Some f, Some g, fi, oi)"
    and h: "full_attention_group_ids h = fi" "other_group_ids h = oi" "full_attention_spec h = f" "other_spec h = g"
      "lcm_block_size h = lcm (spec_block_size f) (spec_block_size g)"
    and o: "if full_attn_first h then Max (set fi) < Min (set oi) else Max (set oi) < Min (set fi)"
  proof -
    obtain full other fi oi where sp: "split_groups 0 specs None None [] [] = Inr (full, other, fi, oi)"
      using v by (cases "split_groups 0 specs None None [] []") (auto simp: verify_and_split_kv_cache_groups_def)
    then obtain f g where "full = Some f" "other = Some g"
      using v by (cases full; cases other) (auto simp: verify_and_split_kv_cache_groups_def)
    then show thesis
      using sp v that [of f g fi oi] by (auto simp: verify_and_split_kv_cache_groups_def Let_def split: if_splits)
  qed
  have ids: "fi = filter ?P [0..<?n]" "oi = filter (\<lambda>k. \<not> ?P k) [0..<?n]" using split_groups_ids [OF sp] by simp_all
  have sps: "\<And>s. s \<in> set specs \<Longrightarrow> if is_full s then f = s else g = s" "\<exists>s \<in> set specs. is_full s" "\<exists>s \<in> set specs. \<not> is_full s"
    using split_groups_specs [OF sp] by force+
  obtain s t where st: "s \<in> set specs" "is_full s" "t \<in> set specs" "\<not> is_full t" using sps(2,3) by blast
  then have fg: "f = s" "g = t" using sps(1) [of s] sps(1) [of t] by simp_all
  show ne: "full_attention_group_ids h \<noteq> []" "other_group_ids h \<noteq> []"
    using st unfolding h ids by (auto simp: in_set_conv_nth filter_empty_conv)
  show "joined_ids h = [0..<length specs]"
    using o ne parts_in_order [of ?P ?n] parts_in_order [of "\<lambda>k. \<not> ?P k" ?n] unfolding joined_ids_def h ids
    by (cases "full_attn_first h") simp_all
  show "specs ! k = full_attention_spec h" if "k \<in> set (full_attention_group_ids h)" for k
    using that sps(1) [of "specs ! k"] unfolding h ids by simp
  show "specs ! k = other_spec h" if "k \<in> set (other_group_ids h)" for k
    using that sps(1) [of "specs ! k"] unfolding h ids by simp
  show "is_full (full_attention_spec h)" "full_attention_spec h \<in> set specs" "other_spec h \<in> set specs"
    "lcm_block_size h = lcm (spec_block_size (full_attention_spec h)) (spec_block_size (other_spec h))"
    using h st fg by simp_all
qed

text \<open>The three kinds of coordinator a configuration gives, as their state shows in every reachable state.\<close>

lemma reach_manager:
  assumes "cache_reach cfg c" "config_ok cfg" "m < length (managers c)"
  shows "length (managers c) = length (cfg_groups cfg)" "m_spec (managers c ! m) = cfg_groups cfg ! m"
    "m_block_size (managers c ! m) = spec_block_size (cfg_groups cfg ! m) * (cfg_dcp cfg * cfg_pcp cfg)"
    "hash_block_size (pool c) = cfg_hash_block_size cfg" "dcp_world_size c = cfg_dcp cfg" "pcp_world_size c = cfg_pcp cfg"
proof -
  obtain c0 where c0: "get_kv_cache_coordinator cfg = Inr c0" "same_shape c0 c" using reach_shape [OF assms(1)] by blast
  obtain b cls c1 where b: "coord_base cfg b cls = Inr c1" "c0 = c1 \<or> (\<exists>h. c0 = c1\<lparr>coord_class := h\<rparr>)"
    using c0(1) unitary_base [of cfg c0] by (auto simp: get_kv_cache_coordinator_def hybrid_init_def py_simps split: if_splits)
  note s = base_shape [OF b(1)]
  have e: "pool c0 = pool c1" "managers c0 = managers c1" "dcp_world_size c0 = dcp_world_size c1" "pcp_world_size c0 = pcp_world_size c1"
    using b(2) by auto
  have gs: "map group_shape (managers c) = map group_shape (managers c1)" using c0(2) e by (simp add: same_shape_def)
  then show l: "length (managers c) = length (cfg_groups cfg)" using s(5) map_eq_imp_length_eq by metis
  have "group_shape (managers c ! m) = group_shape (managers c1 ! m)"
    using gs assms(3) s(5) l by (metis nth_map)
  moreover have w: "cfg_dcp cfg * cfg_pcp cfg = 1 \<or> cfg_dcp cfg * cfg_pcp cfg > 1"
    using assms(2) mult_mono [of 1 "cfg_dcp cfg" 1 "cfg_pcp cfg"] by (auto simp: config_ok_def)
  ultimately show "m_spec (managers c ! m) = cfg_groups cfg ! m"
    "m_block_size (managers c ! m) = spec_block_size (cfg_groups cfg ! m) * (cfg_dcp cfg * cfg_pcp cfg)"
    using s(6) [of m] w assms(3) l by (auto simp: group_shape_def manager_init_def)
  show "hash_block_size (pool c) = cfg_hash_block_size cfg" "dcp_world_size c = cfg_dcp cfg" "pcp_world_size c = cfg_pcp cfg"
    using c0(2) e s(2-4) by (simp_all add: same_shape_def)
qed

lemma reach_unitary:
  assumes "cache_reach cfg c" "config_ok cfg" "coord_class c = Unitary"
  shows "length (cfg_groups cfg) = 1" "cfg_hash_block_size cfg = spec_block_size (cfg_groups cfg ! 0) * (cfg_dcp cfg * cfg_pcp cfg)"
proof -
  obtain c0 where c0: "get_kv_cache_coordinator cfg = Inr c0" "same_shape c0 c" using reach_shape [OF assms(1)] by blast
  then have cls: "coord_class c0 = Unitary" using assms(3) by (simp add: same_shape_def)
  then have u: "unitary_init cfg = Inr c0" "cfg_enable_caching cfg"
    using c0(1) base_shape(1) by (auto simp: get_kv_cache_coordinator_def hybrid_init_def py_simps split: if_splits)
  then obtain s where s: "cfg_groups cfg = [s]" "cfg_hash_block_size cfg = scaled_block_size c0 s"
    by (cases "cfg_groups cfg") (auto simp: unitary_init_def py_simps split: if_splits)
  then show "length (cfg_groups cfg) = 1" by simp
  show "cfg_hash_block_size cfg = spec_block_size (cfg_groups cfg ! 0) * (cfg_dcp cfg * cfg_pcp cfg)"
    using s base_shape(2,3) [OF unitary_base [OF u(1)]] assms(2) by (auto simp: scaled_block_size_def config_ok_def)
qed

lemma reach_hybrid:
  assumes "cache_reach cfg c" "coord_class c = Hybrid h"
  shows "verify_and_split_kv_cache_groups (cfg_groups cfg) = Inr h" "cfg_dcp cfg = 1" "cfg_pcp cfg = 1"
    "\<And>s. s \<in> set (cfg_groups cfg) \<Longrightarrow> cfg_hash_block_size cfg dvd spec_block_size s"
proof -
  obtain c0 where c0: "get_kv_cache_coordinator cfg = Inr c0" "same_shape c0 c" using reach_shape [OF assms(1)] by blast
  then have cls: "coord_class c0 = Hybrid h" using assms(2) by (simp add: same_shape_def)
  then have i: "hybrid_init cfg = Inr c0"
    using c0(1) base_shape(1) unitary_base [of cfg c0] by (fastforce simp: get_kv_cache_coordinator_def split: if_splits)
  then show "verify_and_split_kv_cache_groups (cfg_groups cfg) = Inr h" "cfg_dcp cfg = 1" "cfg_pcp cfg = 1"
    "\<And>s. s \<in> set (cfg_groups cfg) \<Longrightarrow> cfg_hash_block_size cfg dvd spec_block_size s"
    using cls by (auto simp: hybrid_init_def py_simps dvd_eq_mod_eq_0 split: if_splits)
qed

end
