(* ===== verification/KV_Props.thy ===== *)
theory KV_Props
  imports KV_Shape
begin

text \<open>
  What the accounting of references gives: the free list holds exactly the blocks nobody uses, all
  blocks come back once every request is freed, the check before an allocation is sufficient, the
  blocks a lookup returns may be handed to an allocation, and where pinned blocks are lost.
\<close>

section \<open>Holders\<close>

definition holds :: "coordinator \<Rightarrow> nat \<Rightarrow> string \<Rightarrow> bool" where
  "holds c i rid \<longleftrightarrow> i \<in> set (concat (coord_get_blocks c rid))"

lemma holds_nth: "holds c i rid \<longleftrightarrow> (\<exists>m < length (managers c). i \<in> set (dget (req_to_blocks (managers c ! m)) rid []))"
  by (auto simp: holds_def coord_get_blocks_def set_conv_nth [of "managers c"])

lemma refs_in_zero: "dwf d \<Longrightarrow> refs_in d i = 0 \<longleftrightarrow> (\<forall>rid. i \<notin> set (dget d rid []))"
proof
  assume "refs_in d i = 0"
  then show "\<forall>rid. i \<notin> set (dget d rid [])" using refs_in_ge [of d _ i] by (simp add: count_list_0_iff)
next
  assume w: "dwf d" and n: "\<forall>rid. i \<notin> set (dget d rid [])"
  have "count_list bs i = 0" if "(rid, bs) \<in> set d" for rid bs
    using n [THEN spec, of rid] w that by (simp add: dget_def dwf_def count_list_0_iff)
  then show "refs_in d i = 0" unfolding refs_in_def by (subst sum_list_nonneg_eq_0_iff) auto
qed

lemma held_zero:
  assumes "coord_ok K c"
  shows "held_by c i = 0 \<longleftrightarrow> (\<forall>rid. \<not> holds c i rid)"
proof -
  have w: "dwf (req_to_blocks g)" if "g \<in> set (managers c)" for g using assms that by (auto simp: coord_ok_def lists_ok_def)
  have "held_by c i = 0 \<longleftrightarrow> (\<forall>g \<in> set (managers c). refs_in (req_to_blocks g) i = 0)"
    unfolding held_by_def by (subst sum_list_nonneg_eq_0_iff) (auto simp: refs_in_nonneg)
  also have "\<dots> \<longleftrightarrow> (\<forall>rid. \<not> holds c i rid)"
    using refs_in_zero [OF w] by (auto simp: holds_nth all_set_conv_all_nth)
  finally show ?thesis .
qed

text \<open>The free list of a state that is in order.\<close>

lemma free_list:
  assumes "coord_ok K c"
  shows "\<exists>xs. free_block_queue (pool c) = queue_of xs \<and> distinct xs \<and> get_num_free_blocks (pool c) = int (length xs) \<and>
    (\<forall>i. i \<in> set xs \<longleftrightarrow> i < length (blocks (pool c)) \<and> i \<noteq> null_block (pool c) \<and> (\<forall>rid. \<not> holds c i rid) \<and> \<not> pinned (blocks (pool c) ! i))"
proof -
  obtain xs where xs: "pool_inv (pool c) xs {}" using coord_okD(2) [OF assms] by blast
  have "is_null (blocks (pool c) ! i) \<longleftrightarrow> i = null_block (pool c)" if "i < length (blocks (pool c))" for i
    using xs that by (simp add: pool_inv_def blocks_ok_def)
  then have "i \<in> set xs \<longleftrightarrow> i < length (blocks (pool c)) \<and> i \<noteq> null_block (pool c) \<and> (\<forall>rid. \<not> holds c i rid) \<and> \<not> pinned (blocks (pool c) ! i)" for i
    using free_okD(3) [OF xs] coord_okD(4) [OF assms] held_zero [OF assms] by (auto simp: idle_def)
  then show ?thesis using free_okD(1,2,4) [OF xs] by blast
qed

section \<open>Freeing a request\<close>

lemma free_managers:
  assumes "coord_ok K c" "distinct ms" "set ms \<subseteq> {..<K}"
  shows "\<exists>d. pseq (free1 rid) ms c = (Inr (), d) \<and> coord_ok K d \<and> same_pins (pool c) (pool d) \<and>
    (\<forall>m < K. managers d ! m = (if m \<in> set ms then forget rid (managers c ! m) else managers c ! m))"
  using assms
proof (induction ms arbitrary: c)
  case (Cons m ms)
  obtain c1 where c1: "free1 rid m c = (Inr (), c1)" "coord_ok K c1" "same_pins (pool c) (pool c1)"
    "managers c1 = (managers c)[m := forget rid (managers c ! m)]"
    using free1_ok [OF Cons.prems(1), of m rid] Cons.prems(3) by auto
  obtain d where d: "pseq (free1 rid) ms c1 = (Inr (), d)" "coord_ok K d" "same_pins (pool c1) (pool d)"
    "\<And>i. i < K \<Longrightarrow> managers d ! i = (if i \<in> set ms then forget rid (managers c1 ! i) else managers c1 ! i)"
    using Cons.IH [OF c1(2)] Cons.prems(2,3) by auto
  have "managers d ! i = (if i \<in> set (m # ms) then forget rid (managers c ! i) else managers c ! i)" if "i < K" for i
    using d(4) [OF that] c1(4) Cons.prems(2) that coord_okD(1) [OF Cons.prems(1)] by (auto simp: nth_upd)
  then show ?case using c1(1) d(1,2) same_pins_trans [OF c1(3) d(3)] by simp
qed (simp add: same_pins_def)

lemma free_effect_all:
  assumes "coord_ok K c"
  shows "\<exists>d. coord_free rid c = (Inr (), d) \<and> coord_ok K d \<and> same_pins (pool c) (pool d) \<and> managers d = map (forget rid) (managers c)"
proof -
  obtain d where d: "pseq (free1 rid) [0..<K] c = (Inr (), d)" "coord_ok K d" "same_pins (pool c) (pool d)"
    "\<And>m. m < K \<Longrightarrow> managers d ! m = forget rid (managers c ! m)"
    using free_managers [OF assms, of "[0..<K]" rid] by (auto simp: atLeast0LessThan)
  have "managers d = map (forget rid) (managers c)"
    using d(4) coord_okD(1) [OF assms] coord_okD(1) [OF d(2)] by (intro nth_equalityI) simp_all
  then show ?thesis using d coord_okD(1) [OF assms] by (simp add: coord_free_def over_managers_def manager_ids_def)
qed

lemma forget_get: "dget (req_to_blocks (forget rid g)) rid' [] = (if rid' = rid then [] else dget (req_to_blocks g) rid' [])"
  by (simp add: forget_def dget_def)

lemma holds_forget:
  assumes "managers d = map (forget rid) (managers c)"
  shows "holds d i rid' \<longleftrightarrow> rid' \<noteq> rid \<and> holds c i rid'"
  using assms by (auto simp: holds_nth forget_get split: if_splits)

lemma free_all_effect:
  assumes "coord_ok K c"
  shows "\<exists>d. pseq coord_free rids c = (Inr (), d) \<and> coord_ok K d \<and> same_pins (pool c) (pool d) \<and>
    (\<forall>i rid. holds d i rid \<longleftrightarrow> rid \<notin> set rids \<and> holds c i rid)"
  using assms
proof (induction rids arbitrary: c)
  case (Cons rid rids)
  obtain c1 where c1: "coord_free rid c = (Inr (), c1)" "coord_ok K c1" "same_pins (pool c) (pool c1)"
    "managers c1 = map (forget rid) (managers c)"
    using free_effect_all [OF Cons.prems] by blast
  obtain d where d: "pseq coord_free rids c1 = (Inr (), d)" "coord_ok K d" "same_pins (pool c1) (pool d)"
    "\<And>i rid. holds d i rid \<longleftrightarrow> rid \<notin> set rids \<and> holds c1 i rid"
    using Cons.IH [OF c1(2)] by blast
  show ?case using c1(1) d(1,2,4) same_pins_trans [OF c1(3) d(3)] holds_forget [OF c1(4)] by auto
qed (simp add: same_pins_def)

section \<open>A configuration\<close>

definition demo_config :: coord_config where
  "demo_config = \<lparr>cfg_groups = [\<lparr>spec_kind = FullAttentionSpec, spec_block_size = 2, spec_rest = []\<rparr>], cfg_num_blocks = 4,
     cfg_max_model_len = 100, cfg_use_eagle = False, cfg_enable_caching = True, cfg_kv_events = False, cfg_int_hashes = False,
     cfg_dcp = 1, cfg_pcp = 1, cfg_hash_block_size = 2\<rparr>"

definition demo_coord :: coordinator where
  "demo_coord = projr (get_kv_cache_coordinator demo_config)"

definition demo_request :: "bool \<Rightarrow> request" where
  "demo_request pin = (plain_request [1, 2, 3, 4])\<lparr>block_hashes := [[9], [8]], r_pinned := pin\<rparr>"

definition demo_running :: "bool \<Rightarrow> coordinator" where
  "demo_running pin = snd (allocate_slots_c (demo_request pin) 4 0 None 0 False 0 True demo_coord)"

lemma computed_none: "computed_ok rid (blocks_of (length (managers c)) None) c"
  by (auto simp: computed_ok_def blocks_of_def)

lemma demo_reach: "cache_reach demo_config (demo_running pin)"
proof -
  have "isl (get_kv_cache_coordinator demo_config) = False" by code_simp
  then have "cache_reach demo_config demo_coord"
    unfolding demo_coord_def by (intro cache_reach.start) (cases "get_kv_cache_coordinator demo_config", simp_all)
  then show ?thesis unfolding demo_running_def by (rule cache_reach.step) (rule cache_step.allocate [OF computed_none])
qed

section \<open>Properties\<close>

text \<open>
  C3. References are accounted for: in every state the engine can reach from its start by
  allocating slots, freeing, pinning, unpinning, caching, evicting and resetting, in any order and
  also after calls that raise, the reference count of a block is the number of times the requests
  of all cache groups hold it, and the free list holds, once each, exactly the blocks that no
  request holds and that are neither pinned nor the null block.
\<close>

theorem references_accounted:
  assumes "cache_reach cfg c" "0 < cfg_num_blocks cfg"
  shows "(\<forall>i < length (blocks (pool c)). i \<noteq> null_block (pool c) \<longrightarrow> ref_cnt (blocks (pool c) ! i) = held_by c i) \<and>
    (\<exists>xs. free_block_queue (pool c) = queue_of xs \<and> distinct xs \<and> get_num_free_blocks (pool c) = int (length xs) \<and>
      (\<forall>i. i \<in> set xs \<longleftrightarrow> i < length (blocks (pool c)) \<and> i \<noteq> null_block (pool c) \<and>
         (\<forall>rid. \<not> holds c i rid) \<and> \<not> pinned (blocks (pool c) ! i)))"
  using coord_okD(4) [OF cache_reach_ok [OF assms]] free_list [OF cache_reach_ok [OF assms]] by blast

theorem references_accounted_witness:
  "ref_cnt (blocks (pool (demo_running True)) ! 1) = held_by (demo_running True) 1 \<and> held_by (demo_running True) 1 = 1 \<and>
   (\<exists>xs. free_block_queue (pool (demo_running True)) = queue_of xs \<and> 3 \<in> set xs \<and> 1 \<notin> set xs)"
proof -
  have e: "length (blocks (pool (demo_running True))) = 4" "null_block (pool (demo_running True)) = 0"
    "held_by (demo_running True) 1 = 1" "held_by (demo_running True) 3 = 0" "\<not> pinned (blocks (pool (demo_running True)) ! 3)"
    "pinned (blocks (pool (demo_running True)) ! 1)" by code_simp+
  have n: "0 < cfg_num_blocks demo_config" by code_simp
  note h = references_accounted [OF demo_reach [of True] n]
  show ?thesis using h e held_zero [OF cache_reach_ok [OF demo_reach [of True] n], of 3] by auto
qed

text \<open>
  C8. Freeing gives everything back: in a reachable state in which no block is pinned, freeing
  the requests one after the other, in any order, raises nothing, and when the last holder is
  freed all blocks except the null block are on the free list.
\<close>

theorem freed_requests_return_blocks:
  assumes "cache_reach cfg c" "0 < cfg_num_blocks cfg"
    and "\<forall>i < length (blocks (pool c)). \<not> pinned (blocks (pool c) ! i)"
    and "\<forall>i rid. holds c i rid \<longrightarrow> rid \<in> set rids"
  shows "\<exists>d. pseq coord_free rids c = (Inr (), d) \<and> get_num_free_blocks (pool d) = num_gpu_blocks (pool c) - 1"
proof -
  let ?K = "length (cfg_groups cfg)"
  note ok = cache_reach_ok [OF assms(1,2)]
  obtain d where d: "pseq coord_free rids c = (Inr (), d)" "coord_ok ?K d" "same_pins (pool c) (pool d)"
    "\<And>i rid. holds d i rid \<longleftrightarrow> rid \<notin> set rids \<and> holds c i rid"
    using free_all_effect [OF ok, of rids] by blast
  have st: "length (blocks (pool d)) = length (blocks (pool c))" "num_gpu_blocks (pool c) = int (length (blocks (pool c)))"
    "\<And>i. i < length (blocks (pool c)) \<Longrightarrow> \<not> pinned (blocks (pool d) ! i)"
    using d(3) assms(3) coord_okD(2) [OF ok] by (auto simp: same_pins_def same_static_def pool_inv_def blocks_ok_def)
  obtain xs where xs: "distinct xs" "get_num_free_blocks (pool d) = int (length xs)"
    "\<And>i. i \<in> set xs \<longleftrightarrow> i < length (blocks (pool d)) \<and> i \<noteq> null_block (pool d) \<and> (\<forall>rid. \<not> holds d i rid) \<and> \<not> pinned (blocks (pool d) ! i)"
    using free_list [OF d(2)] by blast
  have "set xs = {..<length (blocks (pool d))} - {null_block (pool d)}" using xs(3) st(1,3) d(4) assms(4) by auto
  then have "length xs = length (blocks (pool d)) - 1"
    using distinct_card [OF xs(1)] null_in_pool [OF d(2)] by simp
  then show ?thesis using d(1) xs(2) st null_in_pool [OF d(2)] by auto
qed

lemma demo_holder: "holds (demo_running pin) i rid \<Longrightarrow> rid = ''r''"
proof -
  assume h: "holds (demo_running pin) i rid"
  have "map (\<lambda>g. map fst (req_to_blocks g)) (managers (demo_running pin)) = [[''r'']]"
    by (cases pin) (simp_all only:, code_simp+)
  then obtain g bs where g: "managers (demo_running pin) = [g]" "req_to_blocks g = [(''r'', bs)]" by auto
  show ?thesis using h by (simp add: holds_nth g dget_def split: if_splits)
qed

theorem freed_requests_return_blocks_witness:
  "\<exists>d. pseq coord_free [''r''] (demo_running False) = (Inr (), d) \<and> get_num_free_blocks (pool d) = 3 \<and>
     get_num_free_blocks (pool (demo_running False)) = 1"
proof -
  have e: "list_all (\<lambda>b. \<not> pinned b) (blocks (pool (demo_running False)))" "num_gpu_blocks (pool (demo_running False)) = 4"
    "get_num_free_blocks (pool (demo_running False)) = 1" by code_simp+
  have n: "0 < cfg_num_blocks demo_config" by code_simp
  show ?thesis
    using freed_requests_return_blocks [OF demo_reach [of False] n, of "[''r'']"] e demo_holder by (auto simp: list_all_length)
qed

lemma fold_pin_other: "b \<notin> set bs \<Longrightarrow> blocks (fold (set_block_pin v) bs p) ! b = blocks p ! b"
  by (induction bs arbitrary: p) (auto simp: set_block_pin_def)

lemma fold_pin_static: "same_static p (fold (set_block_pin v) bs p)"
proof (induction bs arbitrary: p)
  case (Cons b bs)
  have "same_static p (set_block_pin v b p)" by (simp add: set_block_pin_def)
  then show ?case using Cons.IH [of "set_block_pin v b p"] same_static_trans by auto
qed simp

text \<open>Unpinning a request does not reach a pinned block that the request does not hold.\<close>

lemma unpin_other:
  assumes ok: "coord_ok K c" and b: "b < length (blocks (pool c))" "pinned (blocks (pool c) ! b)" "\<not> holds c b rid"
  shows "\<exists>d. unpin_request rid c = (Inr (), d) \<and> coord_ok K d \<and> same_static (pool c) (pool d) \<and> pinned (blocks (pool d) ! b) \<and>
    (\<forall>i rid'. holds d i rid' \<longrightarrow> holds c i rid')"
proof -
  let ?bs = "concat (coord_get_blocks c rid)"
  let ?c = "c\<lparr>pool := fold (set_block_pin False) ?bs (pool c)\<rparr>"
  have ok': "coord_ok K ?c" by (rule fold_pins_ok [OF _ ok]) blast
  have st: "same_static (pool c) (pool ?c)" by (simp add: fold_pin_static)
  obtain d where d: "coord_free rid ?c = (Inr (), d)" "coord_ok K d" "same_pins (pool ?c) (pool d)"
    "managers d = map (forget rid) (managers ?c)"
    using free_effect_all [OF ok', of rid] by blast
  have "pinned (blocks (pool ?c) ! b)" using b fold_pin_other [of b ?bs False "pool c"] by (simp add: holds_def)
  moreover have "b < length (blocks (pool ?c))" using b(1) st by (simp add: same_static_def)
  ultimately have "pinned (blocks (pool d) ! b)" using d(3) by (simp add: same_pins_def)
  moreover have "holds c i rid'" if "holds d i rid'" for i rid'
    using that d(4) holds_forget [of d rid c i rid'] by simp
  moreover have "same_static (pool c) (pool d)" using d(3) same_static_trans [OF st] by (simp add: same_pins_def)
  ultimately show ?thesis using d(1,2) by (simp add: unpin_request_def pbind_apply)
qed

text \<open>
  C38. A pinned block is lost when its last holder is freed instead of unpinned, as preemption
  does: its reference count drops to zero, the pin keeps it off the free list, and since no request
  holds it any more, no later sequence of unpin calls, for whatever requests, removes the pin.
\<close>

theorem freed_pins_are_lost:
  assumes r: "cache_reach cfg c" "0 < cfg_num_blocks cfg"
    and b: "b < length (blocks (pool c))" "b \<noteq> null_block (pool c)" "pinned (blocks (pool c) ! b)"
    and h: "\<forall>rid'. holds c b rid' \<longrightarrow> rid' = rid"
  shows "\<exists>d. coord_free rid c = (Inr (), d) \<and> ref_cnt (blocks (pool d) ! b) = 0 \<and>
    (\<forall>rids. \<exists>d' xs. pseq unpin_request rids d = (Inr (), d') \<and> pinned (blocks (pool d') ! b) \<and>
       free_block_queue (pool d') = queue_of xs \<and> b \<notin> set xs)"
proof -
  let ?K = "length (cfg_groups cfg)"
  note ok = cache_reach_ok [OF r]
  obtain d where d: "coord_free rid c = (Inr (), d)" "coord_ok ?K d" "same_pins (pool c) (pool d)"
    "managers d = map (forget rid) (managers c)"
    using free_effect_all [OF ok, of rid] by blast
  have s: "b < length (blocks (pool d))" "b \<noteq> null_block (pool d)" "pinned (blocks (pool d) ! b)"
    using d(3) b by (auto simp: same_pins_def same_static_def)
  have nh: "\<not> holds d b rid'" for rid' using holds_forget [OF d(4)] h by blast
  have z: "ref_cnt (blocks (pool d) ! b) = 0" using coord_okD(4) [OF d(2) s(1,2)] held_zero [OF d(2)] nh by simp
  have "\<exists>d' xs. pseq unpin_request rids e = (Inr (), d') \<and> pinned (blocks (pool d') ! b) \<and>
      free_block_queue (pool d') = queue_of xs \<and> b \<notin> set xs"
    if "coord_ok ?K e" "b < length (blocks (pool e))" "pinned (blocks (pool e) ! b)" "\<And>rid'. \<not> holds e b rid'" for rids e
    using that
  proof (induction rids arbitrary: e)
    case Nil
    then show ?case using free_list [OF Nil(1)] by auto
  next
    case (Cons rid' rids)
    obtain e' where e': "unpin_request rid' e = (Inr (), e')" "coord_ok ?K e'" "same_static (pool e) (pool e')"
      "pinned (blocks (pool e') ! b)" "\<And>i r. holds e' i r \<Longrightarrow> holds e i r"
      using unpin_other [OF Cons.prems(1-3) Cons.prems(4)] by blast
    have "b < length (blocks (pool e'))" using e'(3) Cons.prems(2) by (simp add: same_static_def)
    moreover have "\<not> holds e' b r" for r using e'(5) Cons.prems(4) by blast
    ultimately show ?case using Cons.IH [OF e'(2) _ e'(4)] e'(1) by simp
  qed
  then show ?thesis using d(1,2) z s nh by blast
qed

theorem freed_pins_are_lost_witness:
  "\<exists>d d' xs. coord_free ''r'' (demo_running True) = (Inr (), d) \<and> pseq unpin_request [''r''] d = (Inr (), d') \<and>
     pinned (blocks (pool d') ! 1) \<and> free_block_queue (pool d') = queue_of xs \<and> 1 \<notin> set xs"
proof -
  have e: "1 < length (blocks (pool (demo_running True)))" "1 \<noteq> null_block (pool (demo_running True))"
    "pinned (blocks (pool (demo_running True)) ! 1)" by code_simp+
  have n: "0 < cfg_num_blocks demo_config" by code_simp
  show ?thesis using freed_pins_are_lost [OF demo_reach [of True] n e, of "''r''"] demo_holder by blast
qed

section \<open>From a lookup to an allocation\<close>

lemma carries_key: "0 \<le> g \<Longrightarrow> g < 2 ^ 32 \<Longrightarrow> carries p b h g \<Longrightarrow> carries p b h' g \<Longrightarrow> h = h'"
proof -
  assume g: "0 \<le> g" "g < 2 ^ 32" and c: "carries p b h g" "carries p b h' g"
  obtain k k' where k: "make_block_hash_with_group_id h g = Inr k" "make_block_hash_with_group_id h' g = Inr k'"
    using g by (auto simp: make_key_cases)
  then have "k = k'" using c by (simp add: carries_def)
  then show "h = h'" using make_key_inj(1) [OF k(1)] k(2) by simp
qed

lemma count_one:
  assumes "b \<in> set xs" "\<And>i j. i < length xs \<Longrightarrow> j < length xs \<Longrightarrow> xs ! i = b \<Longrightarrow> xs ! j = b \<Longrightarrow> i = j"
  shows "count_list xs b = 1"
proof -
  obtain i where i: "i < length xs" "xs ! i = b" using assms(1) by (auto simp: in_set_conv_nth)
  then have "{j. j < length xs \<and> b = xs ! j} = {i}" using assms(2) by auto
  then show ?thesis by (simp add: count_list_eq_length_filter length_filter_conv_card)
qed

text \<open>Blocks found under different hashes are different.\<close>

lemma col_valid:
  assumes e: "\<And>j. j < length col \<Longrightarrow> col ! j = null_block p \<or> j < length hs \<and> carries p (col ! j) (hs ! j) g"
    and g: "0 \<le> g" "g < 2 ^ 32" and d: "distinct hs" and nb: "null_block p < length (blocks p)"
  shows "valid_list p col"
proof -
  have "set col \<subseteq> {..<length (blocks p)}"
  proof
    fix x assume "x \<in> set col"
    then obtain j where "j < length col" "x = col ! j" by (auto simp: in_set_conv_nth)
    then show "x \<in> {..<length (blocks p)}" using e [of j] nb by (auto simp: carries_def)
  qed
  moreover have "count_list col b = 1" if b: "b \<in> set col" "b \<noteq> null_block p" for b
  proof (rule count_one [OF b(1)])
    fix i j assume a: "i < length col" "j < length col" "col ! i = b" "col ! j = b"
    then have ij: "i < length hs" "j < length hs" "carries p b (hs ! i) g" "carries p b (hs ! j) g"
      using e [of i] e [of j] b(2) by auto
    then have "hs ! i = hs ! j" using carries_key [OF g] by blast
    then show "i = j" using nth_eq_iff_index_eq [OF d ij(1,2)] by simp
  qed
  ultimately show ?thesis by (simp add: valid_list_def)
qed

text \<open>The hashes of a request at the block size of a group.\<close>

definition hashes_of_group :: "coordinator \<Rightarrow> nat \<Rightarrow> bytes list \<Rightarrow> bytes list" where
  "hashes_of_group c m hs = group_hashes (nat (m_block_size (managers c ! m) div hash_block_size (pool c))) hs"

text \<open>
  A hit of \<open>n\<close> tokens: every group has as many blocks as \<open>n\<close> tokens take, and each block is the null
  block or carries the hash of its position, at the block size of the group, and the group.
\<close>

definition group_hit :: "coordinator \<Rightarrow> bytes list \<Rightarrow> int \<Rightarrow> nat \<Rightarrow> nat list \<Rightarrow> bool" where
  "group_hit c hs n m bs \<longleftrightarrow> int (length bs) * m_block_size (managers c ! m) = n \<and>
     (\<forall>j < length bs. bs ! j = null_block (pool c) \<or>
        j < length (hashes_of_group c m hs) \<and> carries (pool c) (bs ! j) (hashes_of_group c m hs ! j) (int m))"

definition prefix_hit :: "coordinator \<Rightarrow> bytes list \<Rightarrow> nat list list \<Rightarrow> int \<Rightarrow> bool" where
  "prefix_hit c hs bss n \<longleftrightarrow> list_all2 (group_hit c hs n) [0..<length (managers c)] bss"

text \<open>
  The length of the hit of a hybrid coordinator: full attention covers the largest number \<open>m\<close> of
  leading blocks that are stored for all its groups and end at a multiple of both block sizes, and
  \<open>n\<close> tokens is what the other attention type finds within these.
\<close>

definition hybrid_longest :: "coordinator \<Rightarrow> hybrid_groups \<Rightarrow> bytes list \<Rightarrow> int \<Rightarrow> int \<Rightarrow> bool" where
  "hybrid_longest c h hs L n \<longleftrightarrow>
     (let B = spec_block_size (full_attention_spec h); B' = spec_block_size (other_spec h); H = hash_block_size (pool c);
          run = cached_run (pool c) (map int (full_attention_group_ids h)) (group_hashes (nat (B div H)) hs) L B (use_eagle c)
      in \<exists>m ob. m \<le> run \<and> int m * B mod lcm B B' = 0 \<and> (\<forall>k. m < k \<and> k \<le> run \<longrightarrow> int k * B mod lcm B B' \<noteq> 0) \<and>
         find_longest_cache_hit (other_spec h) (group_hashes (nat (B' div H)) hs) (int m * B) (map int (other_group_ids h))
           (pool c) (use_eagle c) (lcm B B') 1 1 = Inr ob \<and> ob \<noteq> [] \<and> (\<forall>bs \<in> set ob. int (length bs) * B' = n))"

lemma hashes_for_groups:
  assumes "0 < hash_block_size (pool c)" "0 < spec_block_size spec" "hash_block_size (pool c) dvd spec_block_size spec"
  shows "hashes_for c spec hs = Inr (group_hashes (nat (spec_block_size spec div hash_block_size (pool c))) hs)"
proof (cases "spec_block_size spec = hash_block_size (pool c)")
  case True
  then show ?thesis using assms by (simp add: hashes_for_def)
next
  case False
  let ?n = "nat (spec_block_size spec div hash_block_size (pool c))"
  have "0 < spec_block_size spec div hash_block_size (pool c)"
    using assms by (simp add: pos_imp_zdiv_pos_iff zdvd_imp_le)
  then have n: "0 < ?n" "int ?n = spec_block_size spec div hash_block_size (pool c)" by simp_all
  have "scaled_init hs (hash_block_size (pool c)) (spec_block_size spec) = Inr \<lparr>s_hashes = hs, scale_factor = int ?n\<rparr>"
    using assms n(2) by (simp add: scaled_init_iff)
  then show ?thesis using False scaled_iter_groups [OF n(1)] by (simp add: hashes_for_def)
qed

lemma cached_run_le: "cached_run p gids hs L B e \<le> length hs"
proof -
  have "length (takeWhile P (take n hs)) \<le> length hs" for P n by (rule order_trans [OF length_takeWhile_le]) simp
  then show ?thesis unfolding cached_run_def by (rule order_trans [OF diff_le_self])
qed

lemma hybrid_lookup:
  assumes r: "cache_reach cfg c" "0 < cfg_num_blocks cfg" "config_ok cfg" and cls: "coord_class c = Hybrid h"
    and run: "hybrid_hit c h hs L = Inr (bss, n)"
  shows "prefix_hit c hs bss n \<and> hybrid_longest c h hs L n"
proof -
  let ?p = "pool c" let ?f = "full_attention_spec h" let ?o = "other_spec h" let ?B = "spec_block_size ?f" let ?B' = "spec_block_size ?o"
  let ?H = "hash_block_size ?p" let ?fi = "map int (full_attention_group_ids h)" let ?oi = "map int (other_group_ids h)"
  let ?fh = "group_hashes (nat (?B div ?H)) hs" let ?oh = "group_hashes (nat (?B' div ?H)) hs"
  note hy = reach_hybrid [OF r(1) cls] and vg = verify_groups [OF reach_hybrid(1) [OF r(1) cls]]
  let ?K = "length (cfg_groups cfg)"
  have K: "length (managers c) = ?K" using coord_okD(1) [OF cache_reach_ok [OF r(1,2)]] .
  have K0: "0 < ?K" using vg(7) by (cases "cfg_groups cfg") simp_all
  have H: "?H = cfg_hash_block_size cfg" "0 < ?H" using reach_manager(4) [OF r(1,3), of 0] K K0 r(3) by (simp_all add: config_ok_def)
  have ok: "spec_ok ?f" "spec_ok ?o" "0 < ?B" "0 < ?B'" using r(3) vg(7,8) by (auto simp: config_ok_def spec_ok_def)
  have dv: "?H dvd ?B" "?H dvd ?B'" using hy(4) vg(7,8) H(1) by simp_all
  obtain xs where xs: "pool_inv ?p xs {}" using coord_okD(2) [OF cache_reach_ok [OF r(1,2)]] by blast
  have "set (joined_ids h) = {0..<?K}" using vg(1) by simp
  then have ids: "k < ?K" if "k \<in> set (full_attention_group_ids h) \<union> set (other_group_ids h)" for k
    using that by (auto simp: joined_ids_def split: if_splits)
  have gs: "groups_ok ?fi" "groups_ok ?oi"
    using ids vg(2,3) r(3) by (fastforce simp: groups_ok_def config_ok_def)+
  obtain fb l ob k where st: "full_hit ?f ?fh L ?fi ?p (use_eagle c) (lcm_block_size h) 1 1 = Inr fb" "first_len fb = Inr l"
      "find_longest_cache_hit ?o ?oh (l * ?B) ?oi ?p (use_eagle c) (lcm_block_size h) 1 1 = Inr ob" "first_len ob = Inr k"
    and al: "k * ?B' mod ?B = 0" and n: "n = k * ?B'"
    and bss: "bss = (let fb' = map (take (nat (n div ?B))) fb in if full_attn_first h then fb' @ ob else ob @ fb')"
    using run ok(3) unfolding hybrid_hit_def hashes_for_groups [OF H(2) ok(3) dv(1)] hashes_for_groups [OF H(2) ok(4) dv(2)]
    by (auto simp: py_simps rmod_def Let_def split: if_splits)
  have e: "eff_block_size ?f 1 1 = ?B" by (simp add: eff_block_size_def)
  have L: "0 \<le> L"
  proof -
    have "0 \<le> L div ?B" using st(1) ok(3) by (auto simp: full_hit_def Let_def rdiv_def split: if_splits)
    then show ?thesis using ok(3) by (simp add: pos_imp_zdiv_nonneg_iff)
  qed
  let ?run = "cached_run ?p ?fi ?fh L ?B (use_eagle c)"
  have "0 < lcm ?B ?B'" using ok(3,4) by (simp add: lcm_pos_int)
  then obtain m where m: "length fb = length ?fi" "m \<le> ?run" "int m * ?B mod lcm ?B ?B' = 0"
    "\<forall>k. m < k \<and> k \<le> ?run \<longrightarrow> int k * ?B mod lcm ?B ?B' \<noteq> 0"
    "\<And>a. a < length ?fi \<Longrightarrow> length (fb ! a) = m \<and> (\<forall>j < m. carries ?p (fb ! a ! j) (?fh ! j) (?fi ! a))"
    using full_hit_cols [OF xs gs(1), of ?f 1 1 "lcm_block_size h" L ?fh "use_eagle c"] st(1) ok(3) L
    unfolding e vg(9) by auto
  have fne: "fb \<noteq> []" using m(1) vg(2) by auto
  have l: "l = int m" using st(2) m(5) [of 0] vg(2) fne m(1) by (cases fb) (auto simp: first_len_def)
  obtain k' where k': "length ob = length ?oi" "\<And>a. a < length ?oi \<Longrightarrow> length (ob ! a) = k' \<and>
      (\<forall>j < k'. ob ! a ! j = null_block ?p \<or> j < length ?oh \<and> carries ?p (ob ! a ! j) (?oh ! j) (?oi ! a))"
    using hit_cols_ok [OF xs gs(2) ok(4) st(3)] by (auto simp: cols_ok_def)
  have one: "ob \<noteq> []" using k'(1) vg(3) by auto
  have k: "k = int k'" using st(4) k'(2) [of 0] vg(3) one k'(1) by (cases ob) (auto simp: first_len_def)
  have "int k' * ?B' \<le> int m * ?B"
    using hit_within [OF ok(2) _ st(3), of "hd ob"] one k'(2) [of 0] k'(1) vg(3) ok(3) l by (cases ob) auto
  then have nm: "n \<le> int m * ?B" "0 \<le> n" "n mod ?B = 0" using n k al ok(4) by simp_all
  have t: "n div ?B \<le> int m" "n div ?B * ?B = n" "0 \<le> n div ?B"
    using zdiv_mono1 [OF nm(1) ok(3)] div_mult_mod_eq [of n ?B] nm(2,3) ok(3) by (simp_all add: pos_imp_zdiv_nonneg_iff)
  have run_le: "?run \<le> length ?fh" by (rule cached_run_le)
  have bsz: "m_block_size (managers c ! a) = spec_block_size (cfg_groups cfg ! a)" if "a < ?K" for a
    using reach_manager(3) [OF r(1,3)] that K hy(2,3) by simp
  have full: "list_all2 (group_hit c hs n) (full_attention_group_ids h) (map (take (nat (n div ?B))) fb)"
  proof (rule list_all2_all_nthI)
    fix a assume a: "a < length (full_attention_group_ids h)"
    let ?i = "full_attention_group_ids h ! a"
    have i: "m_block_size (managers c ! ?i) = ?B" using bsz ids vg(4) a by simp
    have "length (take (nat (n div ?B)) (fb ! a)) = nat (n div ?B)" using m(5) [of a] a t(1) by simp
    then show "group_hit c hs n ?i (map (take (nat (n div ?B))) fb ! a)"
      using m(1,2) m(5) [of a] a t run_le by (auto simp: group_hit_def i hashes_of_group_def)
  qed (use m(1) in simp)
  have other: "list_all2 (group_hit c hs n) (other_group_ids h) ob"
  proof (rule list_all2_all_nthI)
    fix a assume a: "a < length (other_group_ids h)"
    let ?i = "other_group_ids h ! a"
    have i: "m_block_size (managers c ! ?i) = ?B'" using bsz ids vg(5) a by simp
    then show "group_hit c hs n ?i (ob ! a)" using k'(2) [of a] a n k by (auto simp: group_hit_def i hashes_of_group_def)
  qed (use k'(1) in simp)
  have "list_all2 (group_hit c hs n) (joined_ids h) bss"
    using full other unfolding bss joined_ids_def Let_def by (auto intro: list_all2_appendI)
  then have "prefix_hit c hs bss n" using vg(1) K by (simp add: prefix_hit_def)
  moreover have "hybrid_longest c h hs L n"
    unfolding hybrid_longest_def Let_def
  proof (intro exI conjI)
    show "find_longest_cache_hit ?o ?oh (int m * ?B) ?oi ?p (use_eagle c) (lcm ?B ?B') 1 1 = Inr ob" using st(3) l vg(9) by simp
    show "\<forall>bs \<in> set ob. int (length bs) * ?B' = n" using k' n k by (auto simp: in_set_conv_nth)
  qed (use m(2-4) one in auto)
  ultimately show ?thesis by simp
qed

lemma unitary_lookup:
  assumes r: "cache_reach cfg c" "0 < cfg_num_blocks cfg" "config_ok cfg" and cls: "coord_class c = Unitary"
    and run: "coord_find_longest_cache_hit c hs L = Inr (bss, n)"
  shows "prefix_hit c hs bss n"
proof -
  note u = reach_unitary [OF r(1,3) cls]
  have K: "length (managers c) = 1" using coord_okD(1) [OF cache_reach_ok [OF r(1,2)]] u(1) by simp
  then obtain g where g: "managers c = [g]" by (auto simp: length_Suc_conv)
  have g0: "0 < length (managers c)" using K by simp
  note mg = reach_manager(2-) [OF r(1,3) g0, unfolded g nth_Cons_0]
  have B: "0 < spec_block_size (m_spec g)" "0 < hash_block_size (pool c)"
    using r(3) u(1) mg(1,3) by (auto simp: config_ok_def spec_ok_def)
  have sz: "scaled_block_size c (m_spec g) = m_block_size g" "hash_block_size (pool c) = m_block_size g"
    using mg u(2) r(3) by (auto simp: scaled_block_size_def config_ok_def)
  obtain xs where xs: "pool_inv (pool c) xs {}" using coord_okD(2) [OF cache_reach_ok [OF r(1,2)]] by blast
  have hit: "find_longest_cache_hit (m_spec g) hs L [0] (pool c) (use_eagle c) (m_block_size g) (dcp_world_size c) (pcp_world_size c) = Inr bss"
    "\<exists>k. first_len bss = Inr k \<and> n = k * m_block_size g"
    using run cls g sz(1) by (auto simp: coord_find_longest_cache_hit_def Let_def py_simps)
  have gs: "groups_ok [0]" by (simp add: groups_ok_def)
  obtain k where k: "cols_ok (pool c) hs [0] k bss" using hit_cols_ok [OF xs gs B(1) hit(1)] by blast
  then obtain bs where bss: "bss = [bs]" by (auto simp: cols_ok_def length_Suc_conv)
  have "hashes_of_group c 0 hs = hs" using B(2) sz(2) g by (simp add: hashes_of_group_def)
  then show ?thesis using k hit(2) g by (auto simp: prefix_hit_def bss group_hit_def cols_ok_def first_len_def)
qed

lemma prefix_hit_none: "prefix_hit c hs (replicate (length (managers c)) []) 0"
  by (auto simp: prefix_hit_def list_all2_conv_all_nth group_hit_def)

text \<open>Every coordinator: the blocks of a hit belong to their positions.\<close>

lemma lookup_prefix_hit:
  assumes r: "cache_reach cfg c" "0 < cfg_num_blocks cfg" "config_ok cfg"
    and run: "coord_find_longest_cache_hit c hs L = Inr (bss, n)"
  shows "prefix_hit c hs bss n"
proof (cases "coord_class c")
  case NoPrefixCache
  then show ?thesis using run prefix_hit_none by (auto simp: coord_find_longest_cache_hit_def)
next
  case Unitary
  then show ?thesis by (rule unitary_lookup [OF r _ run])
next
  case (Hybrid h)
  then show ?thesis using hybrid_lookup [OF r Hybrid, of hs L bss n] run by (simp add: coord_find_longest_cache_hit_def)
qed

text \<open>A group for which something was found is not a group of cross attention.\<close>

lemma lookup_not_cross:
  assumes r: "cache_reach cfg c" "config_ok cfg" and run: "coord_find_longest_cache_hit c hs L = Inr (bss, n)"
    and ne: "\<exists>bs \<in> set bss. bs \<noteq> []" and m: "m < length (managers c)"
  shows "\<not> is_cross (managers c ! m)"
proof (cases "coord_class c")
  case NoPrefixCache
  then show ?thesis using run ne by (auto simp: coord_find_longest_cache_hit_def)
next
  case Unitary
  have "length (managers c) = 1" using reach_manager(1) [OF r m] reach_unitary(1) [OF r Unitary] by simp
  then obtain g where "managers c = [g]" by (auto simp: length_Suc_conv)
  then show ?thesis using run Unitary m
    by (auto simp: coord_find_longest_cache_hit_def Let_def py_simps is_cross_def find_longest_cache_hit_def cross_hit_def)
next
  case (Hybrid h)
  note vg = verify_groups [OF reach_hybrid(1) [OF r(1) Hybrid]]
  have "m \<in> set (joined_ids h)" using vg(1) m reach_manager(1) [OF r m] by simp
  then have "m_spec (managers c ! m) = full_attention_spec h \<or> m_spec (managers c ! m) = other_spec h"
    using reach_manager(2) [OF r m] vg(4,5) by (auto simp: joined_ids_def split: if_splits)
  moreover have "spec_kind (full_attention_spec h) \<noteq> CrossAttentionSpec" using vg(6) by (auto simp: is_full_def)
  moreover have "spec_kind (other_spec h) \<noteq> CrossAttentionSpec"
    using run Hybrid by (auto simp: coord_find_longest_cache_hit_def hybrid_hit_def py_simps find_longest_cache_hit_def cross_hit_def)
  ultimately show ?thesis by (auto simp: is_cross_def)
qed

lemma prefix_hit_valid:
  assumes r: "cache_reach cfg c" "0 < cfg_num_blocks cfg" "config_ok cfg" and p: "prefix_hit c hs bss n"
    and d: "distinct hs" "\<And>h. h \<in> set hs \<Longrightarrow> length h = l" and bs: "bs \<in> set bss"
  shows "valid_list (pool c) bs"
proof -
  obtain m where m: "m < length (managers c)" "group_hit c hs n m bs"
    using p bs by (auto simp: prefix_hit_def list_all2_conv_all_nth in_set_conv_nth)
  have nb: "null_block (pool c) < length (blocks (pool c))" using null_in_pool [OF cache_reach_ok [OF r(1,2)]] .
  have ml: "int m < 2 ^ 32" using m(1) reach_manager(1) [OF r(1,3) m(1)] r(3) by (simp add: config_ok_def)
  show ?thesis
  proof (cases "nat (m_block_size (managers c ! m) div hash_block_size (pool c)) = 0")
    case True
    then have "bs ! j = null_block (pool c)" if "j < length bs" for j
      using m(2) that by (auto simp: group_hit_def hashes_of_group_def)
    then show ?thesis using col_valid [of bs "pool c" "[]" 0] nb by simp
  next
    case False
    then have "distinct (hashes_of_group c m hs)"
      unfolding hashes_of_group_def by (intro group_hashes_distinct [where l = l] d) simp_all
    then show ?thesis by (intro col_valid [where g = "int m"]) (use m(2) ml nb in \<open>auto simp: group_hit_def\<close>)
  qed
qed

lemma on_coord_state: "coord (snd (on_coord f k)) = snd (f (coord k))"
  by (simp add: on_coord_def split: prod.splits)

lemma lookup_computed_ok:
  assumes r: "cache_reach cfg c" "0 < cfg_num_blocks cfg" "config_ok cfg"
    and fresh: "\<forall>g \<in> set (managers c). map_of (num_cached_block g) rid = None \<and> dget (req_to_blocks g) rid [] = []"
    and d: "distinct hs" "\<forall>h \<in> set hs. length h = l"
    and run: "coord_find_longest_cache_hit c hs L = Inr (bss, n)" and ne: "\<exists>bs \<in> set bss. bs \<noteq> []"
  shows "computed_ok rid bss c"
proof -
  note p = lookup_prefix_hit [OF r run]
  have "length bss = length (managers c)" using p by (auto simp: prefix_hit_def dest: list_all2_lengthD)
  moreover have "\<forall>bs \<in> set bss. valid_list (pool c) bs" using prefix_hit_valid [OF r p d(1)] d(2) by blast
  ultimately show ?thesis using lookup_not_cross [OF r(1,3) run ne] fresh by (simp add: computed_ok_def)
qed

text \<open>
  C14. A prefix lookup is right and feeds an allocation, for every kind of coordinator (no prefix
  cache, one group, or full attention together with another attention type): in a reachable
  state \<open>get_computed_blocks\<close> leaves the coordinator as it is and returns, for each group, blocks for
  exactly the \<open>n\<close> tokens it reports, each the null block or a block stored under the hash of its
  position at the block size of the group and under the id of the group. With two attention types
  \<open>n\<close> is the hit of the other type within the longest hit of full attention that ends at a multiple
  of both block sizes. For a request that no group knows, the blocks are valid input of
  \<open>allocate_slots\<close>, without a block twice, and the allocation reaches a state that is again accounted
  for. The hashes of the request are assumed to be pairwise different and of one length, as the
  digests of one hash function without collisions are, and the configuration to have positive
  sizes.
\<close>

theorem lookup_feeds_allocation:
  assumes r: "cache_reach cfg (coord k)" "0 < cfg_num_blocks cfg" "config_ok cfg"
    and fresh: "\<forall>g \<in> set (managers (coord k)). map_of (num_cached_block g) (request_id r) = None \<and> dget (req_to_blocks g) (request_id r) [] = []"
    and d: "distinct (block_hashes r)" "\<forall>h \<in> set (block_hashes r). length h = l"
    and run: "get_computed_blocks r k = (Inr (computed, n), k')"
  shows "coord k' = coord k \<and> prefix_hit (coord k) (block_hashes r) (blocks_of (num_groups k) computed) n \<and>
    (\<forall>h. coord_class (coord k) = Hybrid h \<and> km_enable_caching k \<and> \<not> skip_reading_prefix_cache r \<longrightarrow>
       hybrid_longest (coord k) h (block_hashes r) (num_tokens r - 1) n) \<and>
    computed_ok (request_id r) (blocks_of (num_groups k) computed) (coord k) \<and>
    cache_reach cfg (coord (snd (allocate_slots r n_new n computed lookahead delay n_encoder k')))"
proof -
  let ?c = "coord k" let ?look = "km_enable_caching k \<and> \<not> skip_reading_prefix_cache r"
  have k': "coord k' = ?c" using run by (auto simp: get_computed_blocks_def split: if_splits sum.splits)
  consider "\<not> ?look" "computed = None" "n = 0" | bss where "?look"
      "coord_find_longest_cache_hit ?c (block_hashes r) (num_tokens r - 1) = Inr (bss, n)" "computed = create_kv_cache_blocks bss"
    using run by (auto simp: get_computed_blocks_def split: if_splits sum.splits)
  then have "prefix_hit ?c (block_hashes r) (blocks_of (num_groups k) computed) n \<and>
      (\<forall>h. coord_class ?c = Hybrid h \<and> ?look \<longrightarrow> hybrid_longest ?c h (block_hashes r) (num_tokens r - 1) n) \<and>
      computed_ok (request_id r) (blocks_of (num_groups k) computed) ?c"
  proof cases
    case 1
    then show ?thesis using computed_none [of "request_id r" ?c] prefix_hit_none [of ?c] by (auto simp: num_groups_def blocks_of_def)
  next
    case (2 bss)
    note p = lookup_prefix_hit [OF r 2(2)]
    have ln: "length bss = length (managers ?c)" using p by (auto simp: prefix_hit_def dest: list_all2_lengthD)
    have "hybrid_longest ?c h (block_hashes r) (num_tokens r - 1) n" if "coord_class ?c = Hybrid h" for h
      using hybrid_lookup [OF r that] 2(2) that by (simp add: coord_find_longest_cache_hit_def)
    moreover have "blocks_of (num_groups k) computed = bss"
    proof (cases "\<exists>bs \<in> set bss. bs \<noteq> []")
      case False
      then have "bss = replicate (length (managers ?c)) []" using ln by (auto intro: replicate_eqI)
      then show ?thesis using 2(3) False by (simp add: create_kv_cache_blocks_def blocks_of_def num_groups_def)
    qed (simp add: 2(3) create_kv_cache_blocks_def blocks_of_def)
    moreover have "computed_ok (request_id r) bss ?c"
    proof (cases "\<exists>bs \<in> set bss. bs \<noteq> []")
      case True
      then show ?thesis by (rule lookup_computed_ok [OF r fresh d 2(2)])
    next
      case False
      then have "bss = replicate (length (managers ?c)) []" using ln by (auto intro: replicate_eqI)
      then show ?thesis by (simp add: computed_ok_def)
    qed
    ultimately show ?thesis using p by simp
  qed
  moreover from this have "cache_step ?c (snd (allocate_slots_c r n_new n computed lookahead delay n_encoder (km_enable_caching k') ?c))"
    by (intro cache_step.allocate) (simp add: num_groups_def)
  ultimately show ?thesis using cache_reach.step [OF r(1)] k' by (simp add: allocate_slots_def on_coord_state)
qed

text \<open>Two groups: full attention with blocks of four tokens and a sliding window with blocks of two.\<close>

definition mixed_config :: coord_config where
  "mixed_config = \<lparr>cfg_groups = [\<lparr>spec_kind = FullAttentionSpec, spec_block_size = 4, spec_rest = []\<rparr>,
       \<lparr>spec_kind = SlidingWindowSpec 2, spec_block_size = 2, spec_rest = []\<rparr>], cfg_num_blocks = 9,
     cfg_max_model_len = 100, cfg_use_eagle = False, cfg_enable_caching = True, cfg_kv_events = False, cfg_int_hashes = False,
     cfg_dcp = 1, cfg_pcp = 1, cfg_hash_block_size = 2\<rparr>"

definition mixed_coord :: coordinator where
  "mixed_coord = projr (get_kv_cache_coordinator mixed_config)"

definition mixed_request :: "string \<Rightarrow> int list \<Rightarrow> request" where
  "mixed_request rid toks = (plain_request toks)\<lparr>request_id := rid, block_hashes := [[9], [8], [7], [6]]\<rparr>"

definition mixed_running :: coordinator where
  "mixed_running = snd (allocate_slots_c (mixed_request ''r'' [1, 2, 3, 4, 5, 6, 7, 8]) 8 0 None 0 False 0 True mixed_coord)"

definition mixed_manager :: kv_cache_manager where
  "mixed_manager = \<lparr>coord = mixed_running, km_enable_caching = True, log_stats = True, prefix_cache_stats = new_stats\<rparr>"

lemma mixed_reach: "cache_reach mixed_config mixed_running"
proof -
  have "isl (get_kv_cache_coordinator mixed_config) = False" by code_simp
  then have "cache_reach mixed_config mixed_coord"
    unfolding mixed_coord_def by (intro cache_reach.start) (cases "get_kv_cache_coordinator mixed_config", simp_all)
  then show ?thesis unfolding mixed_running_def by (rule cache_reach.step) (rule cache_step.allocate [OF computed_none])
qed

theorem lookup_feeds_allocation_witness:
  "fst (get_computed_blocks (mixed_request ''s'' [1, 2, 3, 4, 5, 6, 7, 8, 9]) mixed_manager) = Inr (Some [[1, 2], [0, 0, 0, 6]], 8) \<and>
   prefix_hit mixed_running [[9], [8], [7], [6]] [[1, 2], [0, 0, 0, 6]] 8 \<and>
   (\<exists>h. coord_class mixed_running = Hybrid h \<and> hybrid_longest mixed_running h [[9], [8], [7], [6]] 8 8) \<and>
   computed_ok ''s'' [[1, 2], [0, 0, 0, 6]] mixed_running"
proof -
  let ?r = "mixed_request ''s'' [1, 2, 3, 4, 5, 6, 7, 8, 9]" let ?k = "mixed_manager"
  have f: "fst (get_computed_blocks ?r ?k) = Inr (Some [[1, 2], [0, 0, 0, 6]], 8)" by code_simp
  then have run: "get_computed_blocks ?r ?k = (Inr (Some [[1, 2], [0, 0, 0, 6]], 8), snd (get_computed_blocks ?r ?k))"
    by (metis prod.collapse)
  have n: "0 < cfg_num_blocks mixed_config" "config_ok mixed_config" by (simp_all add: mixed_config_def config_ok_def spec_ok_def)
  have fr: "list_all (\<lambda>g. map_of (num_cached_block g) ''s'' = None \<and> dget (req_to_blocks g) ''s'' [] = []) (managers mixed_running)" by code_simp
  have cls: "(case coord_class mixed_running of Hybrid h \<Rightarrow> True | _ \<Rightarrow> False)" by code_simp
  then obtain h where h: "coord_class mixed_running = Hybrid h" by (auto split: coordinator_class.splits)
  have m: "coord ?k = mixed_running" "request_id ?r = ''s''" "block_hashes ?r = [[9], [8], [7], [6]]" "num_tokens ?r - 1 = 8"
    "km_enable_caching ?k" "\<not> skip_reading_prefix_cache ?r"
    by (simp_all add: mixed_manager_def mixed_request_def plain_request_def num_tokens_def)
  show ?thesis
    using lookup_feeds_allocation [of mixed_config ?k ?r 1, OF _ n _ _ _ run, of 1 0 False 0] mixed_reach fr f h
    by (auto simp: m list_all_iff blocks_of_def)
qed

section \<open>The check before an allocation\<close>

definition evictable :: "block_pool \<Rightarrow> nat list \<Rightarrow> nat list" where
  "evictable p bs = filter (\<lambda>b. ref_cnt (blocks p ! b) = 0 \<and> \<not> is_null (blocks p ! b)) bs"

text \<open>Touching takes at most the evictable blocks off the free list.\<close>

lemma free_after_touch:
  assumes "pool_inv p xs {}"
  shows "length xs \<le> length (filter (\<lambda>x. x \<notin> set bs) xs) + length (evictable p bs)"
proof -
  note f = free_okD [OF assms]
  have "set (filter (\<lambda>x. x \<in> set bs) xs) \<subseteq> set (evictable p bs)" using f(3) by (auto simp: evictable_def idle_def)
  then have "card (set (filter (\<lambda>x. x \<in> set bs) xs)) \<le> length (evictable p bs)"
    using card_mono [OF finite_set] card_length le_trans by blast
  then have "length (filter (\<lambda>x. x \<in> set bs) xs) \<le> length (evictable p bs)" using distinct_card f(2) by (metis distinct_filter)
  then show ?thesis using sum_length_filter_compl [of "\<lambda>x. x \<in> set bs" xs] by linarith
qed

lemma count_one_group:
  assumes g: "managers c = [g]" "\<not> is_cross g" "m_block_size g \<noteq> 0" and l: "dget (req_to_blocks g) rid [] = []"
  shows "get_num_blocks_to_allocate rid n [bs] e c =
    (Inr (cdiv (n + speculative_tokens (m_spec g)) (m_block_size g) - int (length bs) + int (length (evictable (pool c) bs))),
     snd (read_blocks 0 rid c))"
  using assms by (simp add: get_num_blocks_to_allocate_def manager_ids_def pick_group_def py_nth_def pbind_apply
      get_num_blocks_to_allocate1_def rcdiv_def read_blocks_def Let_def evictable_def)

lemma allocate_one_group:
  assumes ok: "pool_inv (pool c) xs {}" and g: "managers c = [g]" "\<not> is_cross g" "m_block_size g \<noteq> 0"
    and l: "dget (req_to_blocks g) rid [] = bs"
    and room: "cdiv (n + speculative_tokens (m_spec g)) (m_block_size g) - int (length bs) \<le> int (length xs)"
  shows "\<exists>new c'. allocate_new_blocks rid n e c = (Inr [new], c') \<and> dget (req_to_blocks (hd (managers c'))) rid [] = bs @ new \<and>
    cdiv (n + speculative_tokens (m_spec g)) (m_block_size g) \<le> int (length (bs @ new))"
proof -
  let ?k = "cdiv (n + speculative_tokens (m_spec g)) (m_block_size g) - int (length bs)"
  obtain d where rd: "read_blocks 0 rid c = (Inr bs, d)" "pool d = pool c"
    "managers d = [g\<lparr>req_to_blocks := AList.update rid bs (req_to_blocks g)\<rparr>]"
    using g(1) l by (simp_all add: read_blocks_def Let_def)
  have run: "allocate_new_blocks rid n e c = pbind (\<lambda>c. if ?k \<le> 0 then pret [] c
      else pbind (on_pool (get_new_blocks ?k)) (\<lambda>new. pbind (pmodify (set_blocks 0 rid (bs @ new))) (\<lambda>_. pret new)) c) (\<lambda>y. pret [y]) d"
    using g rd(1) by (simp add: allocate_new_blocks_def manager_ids_def allocate_new_blocks1_def pbind_apply rcdiv_def Let_def split: sum.splits)
  show ?thesis
  proof (cases "?k \<le> 0")
    case True
    then show ?thesis using rd(3) by (simp add: run pbind_apply)
  next
    case False
    then have k: "nat ?k \<le> length xs" "int (nat ?k) = ?k" using room by simp_all
    obtain p where "get_new_blocks ?k (pool c) = (Inr (take (nat ?k) xs), p)" using new_blocks_effect [OF ok k(1)] k(2) by auto
    then show ?thesis using False rd(2,3) k by (simp add: run pbind_apply on_pool_def)
  qed
qed

text \<open>
  C6. The check of \<open>allocate_slots\<close> is sufficient: with one cache group, if the number that
  \<open>get_num_blocks_to_allocate\<close> returns for a new request and the blocks it found in the prefix
  cache does not exceed the number of free blocks, then touching those blocks, saving them and
  allocating the rest raises nothing, and the request ends up with its computed blocks followed by
  new ones, as many as its tokens need. The number counts the computed blocks that are free, since
  touching takes them off the free list.
\<close>

theorem admission_check_sufficient:
  assumes r: "cache_reach cfg c" "0 < cfg_num_blocks cfg"
    and g: "managers c = [g]" "\<not> is_cross g" "m_block_size g \<noteq> 0"
    and fresh: "map_of (num_cached_block g) rid = None" "dget (req_to_blocks g) rid [] = []" and v: "valid_list (pool c) bs"
    and count: "get_num_blocks_to_allocate rid n [bs] n_encoder c = (Inr need, c1)" and room: "need \<le> get_num_free_blocks (pool c1)"
  shows "\<exists>new c2. pbind (on_pool (touch [bs])) (\<lambda>_. pbind (save_new_computed_blocks rid [bs]) (\<lambda>_.
      allocate_new_blocks rid n n_encoder)) c1 = (Inr [new], c2) \<and>
    dget (req_to_blocks (hd (managers c2))) rid [] = bs @ new \<and>
    cdiv (n + speculative_tokens (m_spec g)) (m_block_size g) \<le> int (length (bs @ new))"
proof -
  let ?req = "cdiv (n + speculative_tokens (m_spec g)) (m_block_size g)"
  note ok = cache_reach_ok [OF r]
  obtain xs where xs: "pool_inv (pool c) xs {}" using coord_okD(2) [OF ok] by blast
  let ?g1 = "g\<lparr>req_to_blocks := AList.update rid [] (req_to_blocks g)\<rparr>"
  have c1: "need = ?req - int (length bs) + int (length (evictable (pool c) bs))" "pool c1 = pool c" "managers c1 = [?g1]"
    using count count_one_group [OF g fresh(2), of n bs n_encoder] g(1) fresh(2) by (auto simp: read_blocks_def Let_def)
  obtain p where p: "touch [bs] (pool c1) = (Inr (), p)" "pool_inv p (filter (\<lambda>x. x \<notin> set bs) xs) {}"
    using touch_effect [OF xs, of bs] v c1(2) by (auto simp: touch_def valid_list_def pseq_concat)
  have fr: "?req - int (length bs) \<le> int (length (filter (\<lambda>x. x \<notin> set bs) xs))"
    using free_after_touch [OF xs, of bs] room c1(1,2) free_okD(4) [OF xs] by simp
  let ?g2 = "g\<lparr>req_to_blocks := AList.update rid bs (req_to_blocks g), num_cached_block := AList.update rid (int (length bs)) (num_cached_block g)\<rparr>"
  obtain c2 where c2: "save_new_computed_blocks rid [bs] (c1\<lparr>pool := p\<rparr>) = (Inr (), c2)" "pool c2 = p" "managers c2 = [?g2]"
    using g(2) fresh c1(3) save1_eq [of "c1\<lparr>pool := p\<rparr>" 0 rid bs]
    by (simp add: save_new_computed_blocks_def over_managers_def manager_ids_def pick_group_def py_nth_def pbind_apply is_cross_def)
  obtain new c3 where "allocate_new_blocks rid n n_encoder c2 = (Inr [new], c3)" "dget (req_to_blocks (hd (managers c3))) rid [] = bs @ new"
    "?req \<le> int (length (bs @ new))"
    using allocate_one_group [of c2 "filter (\<lambda>x. x \<notin> set bs) xs" ?g2 rid bs n n_encoder] p(2) c2(2,3) g fr by (auto simp: is_cross_def)
  then show ?thesis using p(1) c2(1) by (auto simp: pbind_apply on_pool_def)
qed

theorem admission_check_sufficient_witness:
  "\<exists>new c2. pbind (on_pool (touch [[1, 2]])) (\<lambda>_. pbind (save_new_computed_blocks ''s'' [[1, 2]]) (\<lambda>_.
      allocate_new_blocks ''s'' 5 0)) (snd (get_num_blocks_to_allocate ''s'' 5 [[1, 2]] 0 (demo_running False))) = (Inr [new], c2) \<and>
    dget (req_to_blocks (hd (managers c2))) ''s'' [] = [1, 2] @ new \<and> 3 \<le> int (length ([1, 2] @ new))"
proof -
  let ?c = "demo_running False" let ?g = "hd (managers (demo_running False))"
  have n: "0 < cfg_num_blocks demo_config" by code_simp
  have ln: "length (managers ?c) = 1" by code_simp
  have e: "\<not> is_cross ?g" "m_block_size ?g \<noteq> 0" "map_of (num_cached_block ?g) ''s'' = None" "dget (req_to_blocks ?g) ''s'' [] = []"
    "cdiv (5 + speculative_tokens (m_spec ?g)) (m_block_size ?g) = 3" by code_simp+
  have v: "valid_list (pool ?c) [1, 2]"
  proof -
    have "length (blocks (pool ?c)) = 4" by code_simp
    then show ?thesis by (simp add: valid_list_def)
  qed
  have f: "fst (get_num_blocks_to_allocate ''s'' 5 [[1, 2]] 0 ?c) = Inr 1"
    "get_num_free_blocks (pool (snd (get_num_blocks_to_allocate ''s'' 5 [[1, 2]] 0 ?c))) = 1" by code_simp+
  have run: "get_num_blocks_to_allocate ''s'' 5 [[1, 2]] 0 ?c = (Inr 1, snd (get_num_blocks_to_allocate ''s'' 5 [[1, 2]] 0 ?c))"
    using f(1) by (metis prod.collapse)
  have "managers ?c = [?g]" using ln by (auto simp: length_Suc_conv)
  from admission_check_sufficient [OF demo_reach n this e(1-4) v run] show ?thesis unfolding e(5) using f(2) by simp
qed

end
