(* ===== verification/Spec2Isabelle.thy ===== *)
theory Spec2Isabelle
  imports Query_Run KV_Props
begin

text \<open>
  Verification of Kalypso, a relational query processor over a serving engine for language models.
  A query is a list of semantic operators (filter, map, classify, join, aggregate, top-k) over a
  data source. Kalypso (\<open>src/vllm/kalypso\<close>) parses it into physical operators, fuses them into
  pipeline stages, runs the tuples through the stages under a memory budget, and keeps the prefixes
  of a tuple's prompts pinned in the KV cache of the engine between operators. The engine
  (\<open>src/vllm/v1/core\<close>) stores the keys and values of prompts in blocks that requests share by hash.
  The development models both sides and the programs between them.

  \<^bold>\<open>Foundations.\<close> \<open>Py_Prelude\<close>, \<open>Py_String\<close> and \<open>Py_Prog\<close> hold what the components share: exceptions as
  the left summand of a result, dictionaries as association lists in insertion order, string
  methods on ASCII text, and programs that thread a state and may raise, with a calculus of
  invariants (\<open>keeps\<close>). Python integers are \<open>int\<close>, floats are exact rationals.

  \<^bold>\<open>Memory accounts.\<close> \<open>KV_Budget\<close> models \<open>budget.py\<close>: per-stage capacities and bytes in use,
  borrowing and returning of capacity, and the global account. Capacity is conserved, floors and
  maxima are respected, accounts stay within capacity unless a task is forced in, and a release
  undoes an allocation.

  \<^bold>\<open>Operators.\<close> \<open>Sem_Context\<close> (\<open>context.py\<close>, \<open>prompt_utils.py\<close>) holds contexts and prompts,
  \<open>Pin_Registry\<close> (\<open>pin_registry.py\<close>) the registry of pinned requests, \<open>Executor\<close> (\<open>vllm_executor.py\<close>,
  \<open>executor.py\<close>) the calls of the engine, \<open>Map_Estimator\<close> (\<open>map_estimator.py\<close>) the output ratios of
  maps. \<open>Sem_Base\<close>, \<open>Sem_Filters\<close>, \<open>Sem_Map\<close> and \<open>Sem_Joins\<close> model the operators of \<open>sem_ops/base.py\<close>,
  \<open>filters.py\<close>, \<open>map.py\<close>, \<open>classify.py\<close> and \<open>joins.py\<close>; \<open>Sem_Ops\<close> dispatches to them and states their
  contract as the locale \<open>tuple_operators\<close>. Pins are mirrored in the registry across every call,
  counters add up, a tuple's prompts only ever grow. \<open>Estimates\<close> shows that token estimates are
  not negative.

  \<^bold>\<open>Planning.\<close> \<open>Stage\<close> models \<open>stage.py\<close> (the priority queue of tasks, admission, the run of a task),
  \<open>Plan_Parse\<close> and \<open>Plan_Build\<close> the methods \<open>parse_ops\<close> and \<open>build\<close> of \<open>plan.py\<close>. The queue is a
  stable sort, the pin flags are exactly those of the first and last operators of the runs that
  need them, no operator is lost unless two joins are adjacent, and stages are numbered, registered
  and given capacities that add up.

  \<^bold>\<open>Execution.\<close> \<open>Pipeline_Exec\<close> models the scheduler of a segment (\<open>AsyncPipelineExecutor\<close> and
  \<open>JoinTracker\<close> of \<open>pipeline_execution.py\<close>). \<open>Pipeline_Ledger\<close>, \<open>Pipeline_Tasks\<close>, \<open>Pipeline_Frame\<close>,
  \<open>Pipeline_Run\<close> and \<open>Pipeline_Term\<close> prove that its accounts balance at every point, that it
  returns all it took, that it always ends and is never stuck. \<open>Blocking\<close> models \<open>BlockingExecutor\<close>
  of the same file, \<open>Reducers\<close> and \<open>Aggregation\<close> the operators of \<open>reducers.py\<close> that run on it:
  the top-k operator returns the best contexts in order for a consistent judge, aggregation ends
  with one context if the reductions of the working sets that may arise from its input fit. \<open>Data_Source\<close> models the readers of \<open>data.py\<close>. \<open>Plan_Exec\<close> composes the parts as
  \<open>PlanExecutor\<close> and \<open>SemanticPlan.execute\<close> do, \<open>Query_Frame\<close> and \<open>Query_Run\<close> carry the component
  facts through that composition, and this theory states the property of a whole query.

  \<^bold>\<open>The KV cache of the engine.\<close> \<open>Refine\<close> is the locale of data refinement; \<open>Free_Queue\<close> (\<open>kv_cache_utils.py\<close>)
  refines the linked free list to a list; \<open>Block_Hash\<close> (\<open>kv_cache_utils.py\<close>, \<open>request.py\<close>) models block
  keys and hashes; \<open>Block_Pool\<close> and \<open>Pool_Ops\<close> model \<open>block_pool.py\<close>; \<open>Cache_Hit\<close> the lookups of every
  attention type and \<open>KV_Coord\<close> the managers and coordinators (\<open>single_type_kv_cache_manager.py\<close>,
  \<open>kv_cache_coordinator.py\<close>); \<open>KV_Manager\<close> models \<open>kv_cache_manager.py\<close> with the pin entry points of
  \<open>v1/engine/core.py\<close> and the end of a request of \<open>v1/core/sched/scheduler.py\<close>. Hashes computed as
  tokens arrive are those of the whole sequence, with multimodal inputs as long as they are settled
  (\<open>mm_settled\<close>); \<open>partial_block_forgets_input\<close> shows an input that is lost otherwise. What is cached at
  a block size is found under the joined hashes. \<open>KV_Account\<close>, \<open>KV_Shape\<close> and \<open>KV_Props\<close> prove that in
  every reachable state reference counts equal the blocks requests hold, that the groups, block
  sizes and coordinator class are those of the configuration, that freed requests return their
  blocks, that a lookup is right for each coordinator class and feeds an allocation, that the
  admission check suffices for one cache group, and that pinned blocks of a freed request are lost.

  \<^bold>\<open>Parameters.\<close> The tokenizer, the engine, the helper model, the index service, clocks, the file
  system, \<open>random.sample\<close> and the hash function are arguments of the definitions. What is relied on
  of them is a named hypothesis where it is used: \<open>templates_grow\<close> of the tokenizer, \<open>judge\<close> and
  \<open>engine_answers\<close> (an answer, of no more tokens than asked for) of the engine, freedom from
  collisions of the hash function and, for a lookup, digests of one length. Each has a witness.
  The engine and the clock may answer by the history of calls, the helper model by the request
  alone; the engine's unpin and abort calls are taken to succeed.

  \<^bold>\<open>Interleaving and fuel.\<close> Which task ends next is an argument of both executors, so the
  theorems hold for every order. The run of a task takes effect when its future is collected.
  The scheduler loop takes a number of turns as fuel: \<open>sched_terminates\<close> shows that some number
  always suffices and that more do not change the result. A wait that never ends is the value
  \<open>None\<close> of the blocking programs.

  \<^bold>\<open>Not modelled.\<close> \<open>query_processor.py\<close> (it removes the pins of a finished query over RPC; its monitor is
  a timed loop around RPC calls), \<open>vector_service.py\<close> and \<open>endpoint.py\<close> (services and I/O),
  \<open>controller/pipeline.py\<close> (not used by the plan), log output, benchmarks and tests; of the engine
  the step loop of the scheduler, the encoder cache, workers, model code, kernels, distribution and
  the HTTP front end, which are GPU, process and network code. Rounding of floats, text
  outside ASCII and the metrics collector of the block pool are left out as well.
\<close>

section \<open>A whole query\<close>

text \<open>
  C1. A query that returns leaves the memory accounts clean: from a manager with no stage bytes in
  use, when the run of a query returns its result, whatever its operators, the answers of the
  engine and the order in which tasks finish, no stage has bytes in use, the global account and the
  capacity are what they were, and the recorded map ratios are gone. The conditions on the start
  hold again, so the next query may follow. The tokenizer is relied on not to give fewer tokens to
  a conversation with a message more, and the query not to set a negative token limit.
\<close>

theorem query_leaves_accounts_clean:
  assumes "templates_grow (ev_tk E)" "query_limits_ok (q_ops q)"
    and "mgr_wf (bw_mgr s)" "\<forall>k. used_of (bw_mgr s) k = 0" "0 \<le> global_used (bw_mgr s)" "0 \<le> bytes_per_token (bw_mgr s)"
    and "estimator_wf (w_estimator (bw_world s))"
    and "execute_query E os ident fs sample pick bpick fuel vp rr q s = Some (Inr out, s')"
  shows "mgr_wf (bw_mgr s') \<and> (\<forall>k. used_of (bw_mgr s') k = 0) \<and> global_used (bw_mgr s') = global_used (bw_mgr s) \<and>
    kv_capacity (bw_mgr s') = kv_capacity (bw_mgr s) \<and> bytes_per_token (bw_mgr s') = bytes_per_token (bw_mgr s) \<and>
    w_estimator (bw_world s') = []"
  using assms by (rule query_settles)

lemma demo_query_ready:
  "query_limits_ok (q_ops demo_query)" "mgr_wf (bw_mgr demo_ready)" "\<forall>k. used_of (bw_mgr demo_ready) k = 0"
  "0 \<le> global_used (bw_mgr demo_ready)" "0 \<le> bytes_per_token (bw_mgr demo_ready)"
  "estimator_wf (w_estimator (bw_world demo_ready))"
  using demo_ratios
  by (simp_all add: query_limits_ok_def demo_query_def no_args_def or_default_def demo_ready_def kv_mgr_init_def
      mgr_wf_def dwf_def dget_def)

theorem query_leaves_accounts_clean_witness:
  "\<exists>out s'. execute_query (demo_env ''TRUE'') demo_os int demo_fs (\<lambda>_ c. c) (\<lambda>_. []) (\<lambda>n. n) 6 True 1 demo_query demo_ready =
       Some (Inr out, s') \<and> length out = 1 \<and> used_of (bw_mgr s') 1 = 0 \<and> global_used (bw_mgr s') = 0"
proof -
  obtain out s' where r: "execute_query (demo_env ''TRUE'') demo_os int demo_fs (\<lambda>_ c. c) (\<lambda>_. []) (\<lambda>n. n) 6 True 1 demo_query demo_ready =
       Some (Inr out, s')" "length out = 1"
    using demo_query_runs by (auto split: option.splits sum.splits)
  have "global_used (bw_mgr demo_ready) = 0" by (simp add: demo_ready_def kv_mgr_init_def)
  then show ?thesis
    using query_leaves_accounts_clean [OF demo_grow demo_query_ready r(1)] r by auto
qed

end
